(* ===== verification/Sky_Prelude.thy ===== *)
theory Sky_Prelude
  imports Complex_Main "HOL-Library.Word" "HOL-Library.Multiset" "HOL-Library.AList"
begin

unbundle bit_operations_syntax

text \<open>
  Shared vocabulary of the development: the machine types of the Go source, faults as
  values, the byte-level operations of \<^verbatim>\<open>encoding/binary\<close>, the string functions of
  \<^verbatim>\<open>strings\<close> and \<^verbatim>\<open>strconv\<close> the source calls, Go maps as association lists, and the
  exchange sort that the routing code writes out by hand in several places.
\<close>

section \<open>Collections used by the component theories\<close>

named_theorems go_defs \<open>definitions of the Go run-time operations, unfolded on demand\<close>
named_theorems mset_simps \<open>operations that keep the multiset of elements\<close>

section \<open>Machine types and faults\<close>

type_synonym byte = "8 word"
type_synonym u16 = "16 word"
type_synonym u32 = "32 word"
type_synonym u64 = "64 word"

text \<open>
  A Go function ends with a value, with an \<^verbatim>\<open>error\<close> value or with a run-time panic. A
  result is \<^term>\<open>Inr v\<close> or \<^term>\<open>Inl f\<close> for a fault \<^term>\<open>f\<close>. A loop the source does not bound is given
  fuel, and \<^verbatim>\<open>GoDiverges\<close> is the outcome when the fuel does not suffice.
\<close>

datatype fault = GoError string | GoPanic string | GoDiverges

type_synonym 'a result = "fault + 'a"

definition is_ok :: "'a result \<Rightarrow> bool" where
  "is_ok r = (case r of Inl _ \<Rightarrow> False | Inr _ \<Rightarrow> True)"

definition is_panic :: "'a result \<Rightarrow> bool" where
  "is_panic r = (case r of Inl (GoPanic _) \<Rightarrow> True | _ \<Rightarrow> False)"

text \<open>Sequencing: the first fault ends the function.\<close>

definition bindr :: "'a result \<Rightarrow> ('a \<Rightarrow> 'b result) \<Rightarrow> 'b result" where
  "bindr r f = (case r of Inl e \<Rightarrow> Inl e | Inr x \<Rightarrow> f x)"

text \<open>Indexing a slice or an array panics out of range.\<close>

definition go_index :: "'a list \<Rightarrow> nat \<Rightarrow> 'a result" where
  "go_index xs i = (if i < length xs then Inr (xs ! i) else Inl (GoPanic ''index out of range''))"

text \<open>
  Writing the bytes \<^term>\<open>bs\<close> at offset \<^term>\<open>i\<close> of a buffer, as \<^verbatim>\<open>PutUint16\<close> and
  \<^verbatim>\<open>PutUint32\<close> of \<^verbatim>\<open>b[i:]\<close> do: out of range is a panic.
\<close>

definition put_at :: "byte list \<Rightarrow> nat \<Rightarrow> byte list \<Rightarrow> byte list result" where
  "put_at buf i bs =
     (if i + length bs \<le> length buf
      then Inr (take i buf @ bs @ drop (i + length bs) buf)
      else Inl (GoPanic ''slice bounds out of range''))"

text \<open>\<^verbatim>\<open>copy(dst, src)\<close> copies as many elements as both slices hold.\<close>

definition go_copy :: "'a list \<Rightarrow> 'a list \<Rightarrow> 'a list" where
  "go_copy dst src = take (length dst) src @ drop (length src) dst"

text \<open>\<^verbatim>\<open>copy(dst[i:], src)\<close>: the slice expression panics when \<^term>\<open>i\<close> is past the end.\<close>

definition copy_at :: "'a list \<Rightarrow> nat \<Rightarrow> 'a list \<Rightarrow> 'a list result" where
  "copy_at dst i src =
     (if i \<le> length dst then Inr (take i dst @ go_copy (drop i dst) src)
      else Inl (GoPanic ''slice bounds out of range''))"

section \<open>Big-endian integers\<close>

definition be16 :: "u16 \<Rightarrow> byte list" where
  "be16 w = [ucast (drop_bit 8 w), ucast w]"

definition be32 :: "u32 \<Rightarrow> byte list" where
  "be32 w = [ucast (drop_bit 24 w), ucast (drop_bit 16 w), ucast (drop_bit 8 w), ucast w]"

definition of_be16 :: "byte list \<Rightarrow> u16" where
  "of_be16 b = push_bit 8 (ucast (b ! 0)) OR ucast (b ! 1)"

definition of_be32 :: "byte list \<Rightarrow> u32" where
  "of_be32 b = push_bit 24 (ucast (b ! 0)) OR push_bit 16 (ucast (b ! 1))
                 OR push_bit 8 (ucast (b ! 2)) OR ucast (b ! 3)"

section \<open>Strings\<close>

text \<open>\<^verbatim>\<open>strings.Join\<close>.\<close>

fun join :: "string \<Rightarrow> string list \<Rightarrow> string" where
  "join sep [] = []"
| "join sep [s] = s"
| "join sep (s # t # ss) = s @ sep @ join sep (t # ss)"

text \<open>
  \<^verbatim>\<open>strings.Split\<close> for a non-empty separator: scan left to right, \<^term>\<open>acc\<close> is the field read so
  far.
\<close>

function split_scan :: "string \<Rightarrow> string \<Rightarrow> string \<Rightarrow> string list" where
  "split_scan sep acc s =
     (if s = [] then [acc]
      else if sep \<noteq> [] \<and> take (length sep) s = sep
      then acc # split_scan sep [] (drop (length sep) s)
      else split_scan sep (acc @ [hd s]) (tl s))"
  by pat_completeness auto
termination
  by (relation "measure (\<lambda>(sep, acc, s). length s)") auto

declare split_scan.simps [simp del]

definition split :: "string \<Rightarrow> string \<Rightarrow> string list" where
  "split s sep = split_scan sep [] s"

text \<open>
  A field is safe for a separator when no occurrence of the separator starts inside the field,
  whatever follows: then splitting undoes joining.
\<close>

definition sep_safe :: "string \<Rightarrow> string \<Rightarrow> bool" where
  "sep_safe sep s = (\<forall>k < length s. \<forall>r. take (length sep) (drop k s @ sep @ r) \<noteq> sep
                       \<and> take (length sep) (drop k s) \<noteq> sep)"

text \<open>\<^verbatim>\<open>strings.Contains\<close> for a one-character needle.\<close>

definition contains_char :: "string \<Rightarrow> char \<Rightarrow> bool" where
  "contains_char s c = (c \<in> set s)"

text \<open>\<^verbatim>\<open>strconv.Itoa\<close>.\<close>

definition digit_char :: "nat \<Rightarrow> char" where
  "digit_char d = char_of (48 + d)"

fun nat_digits :: "nat \<Rightarrow> string" where
  "nat_digits n = (if n < 10 then [digit_char n] else nat_digits (n div 10) @ [digit_char (n mod 10)])"

declare nat_digits.simps [simp del]

definition itoa :: "int \<Rightarrow> string" where
  "itoa i = (if i < 0 then CHR ''-'' # nat_digits (nat (- i)) else nat_digits (nat i))"

section \<open>Go maps as association lists\<close>

text \<open>
  A Go map is an association list with distinct keys. \<^verbatim>\<open>range\<close> visits a map in an order the
  language leaves open: the order of the list is that order, and every statement about such a
  map holds for every list with distinct keys, hence for every order of visit.
\<close>

type_synonym ('k, 'v) gomap = "('k \<times> 'v) list"

abbreviation gm_ok :: "('k, 'v) gomap \<Rightarrow> bool" where
  "gm_ok m \<equiv> distinct (map fst m)"

abbreviation gm_get :: "('k, 'v) gomap \<Rightarrow> 'k \<Rightarrow> 'v option" where
  "gm_get m k \<equiv> map_of m k"

abbreviation gm_set :: "('k, 'v) gomap \<Rightarrow> 'k \<Rightarrow> 'v \<Rightarrow> ('k, 'v) gomap" where
  "gm_set m k v \<equiv> AList.update k v m"

abbreviation gm_del :: "('k, 'v) gomap \<Rightarrow> 'k \<Rightarrow> ('k, 'v) gomap" where
  "gm_del m k \<equiv> AList.delete k m"

text \<open>Reading a map of slices: a missing key reads as the empty slice.\<close>

definition gm_list :: "('k, 'v list) gomap \<Rightarrow> 'k \<Rightarrow> 'v list" where
  "gm_list m k = (case gm_get m k of Some l \<Rightarrow> l | None \<Rightarrow> [])"

abbreviation gm_vals :: "('k, 'v) gomap \<Rightarrow> 'v list" where
  "gm_vals m \<equiv> map snd m"

section \<open>The exchange sort of the routing code\<close>

text \<open>
  \<^verbatim>\<open>for i := 0; i < len(a)-1; i++ { for j := i+1; j < len(a); j++ { if key(a[j]) < key(a[i])
  { a[i], a[j] = a[j], a[i] } } }\<close>, parametric in the key that is compared.
\<close>

function exch_inner :: "('a \<Rightarrow> 'k::linorder) \<Rightarrow> nat \<Rightarrow> nat \<Rightarrow> 'a list \<Rightarrow> 'a list" where
  "exch_inner key i j xs =
     (if j < length xs
      then exch_inner key i (Suc j)
             (if key (xs ! j) < key (xs ! i) then xs[i := xs ! j, j := xs ! i] else xs)
      else xs)"
  by pat_completeness auto
termination
  by (relation "measure (\<lambda>(key, i, j, xs). length xs - j)") auto

declare exch_inner.simps [simp del]

lemma length_exch_inner [simp]: "length (exch_inner key i j xs) = length xs"
proof (induction key i j xs rule: exch_inner.induct)
  case (1 key i j xs)
  then show ?case by (simp add: exch_inner.simps [of key i j xs])
qed

function exch_outer :: "('a \<Rightarrow> 'k::linorder) \<Rightarrow> nat \<Rightarrow> 'a list \<Rightarrow> 'a list" where
  "exch_outer key i xs =
     (if Suc i < length xs then exch_outer key (Suc i) (exch_inner key i (Suc i) xs) else xs)"
  by pat_completeness auto
termination
  by (relation "measure (\<lambda>(key, i, xs). length xs - i)") auto

declare exch_outer.simps [simp del]

definition exchange_sort :: "('a \<Rightarrow> 'k::linorder) \<Rightarrow> 'a list \<Rightarrow> 'a list" where
  "exchange_sort key xs = exch_outer key 0 xs"

section \<open>Lemmas: results, buffers, bytes\<close>

lemma bindr_simps [simp]: "bindr (Inr x) f = f x" "bindr (Inl e) f = Inl e"
  by (simp_all add: bindr_def)

lemma bindr_eq_Inr: "bindr r f = Inr y \<longleftrightarrow> (\<exists>x. r = Inr x \<and> f x = Inr y)"
  by (cases r) auto

lemma is_ok_simps [simp]: "is_ok (Inr v)" "\<not> is_ok (Inl f)"
  by (simp_all add: is_ok_def)

lemma is_panic_simps [simp]:
  "\<not> is_panic (Inr v)" "is_panic (Inl (GoPanic s))" "\<not> is_panic (Inl (GoError s))"
  by (simp_all add: is_panic_def)

lemma length_put_at: "put_at buf i bs = Inr buf' \<Longrightarrow> length buf' = length buf"
  by (auto simp: put_at_def split: if_splits)

lemma length_go_copy [simp]: "length (go_copy dst src) = length dst"
  by (simp add: go_copy_def)

lemma length_copy_at: "copy_at dst i src = Inr dst' \<Longrightarrow> length dst' = length dst"
  by (auto simp: copy_at_def split: if_splits)

lemma copy_at_fits:
  "i + length src \<le> length dst \<Longrightarrow>
   copy_at dst i src = Inr (take i dst @ src @ drop (i + length src) dst)"
  by (simp add: copy_at_def go_copy_def add.commute)

lemma length_be [simp]: "length (be16 w) = 2" "length (be32 v) = 4"
  by (simp_all add: be16_def be32_def)

lemma of_be16_be16 [simp]: "of_be16 (be16 w) = w"
  by (rule bit_word_eqI) (auto simp: of_be16_def be16_def bit_simps)

lemma of_be32_be32 [simp]: "of_be32 (be32 w) = w"
proof (rule bit_word_eqI)
  fix n
  assume "n < LENGTH(32)"
  then consider "n < 8" | "8 \<le> n" "n < 16" | "16 \<le> n" "n < 24" | "24 \<le> n" "n < 32"
    by fastforce
  then show "bit (of_be32 (be32 w)) n = bit w n"
    by cases (auto simp: of_be32_def be32_def bit_simps)
qed

lemma be16_of_be16:
  assumes "length b = 2"
  shows "be16 (of_be16 b) = b"
proof -
  obtain x y where b: "b = [x, y]" using assms by (auto simp: numeral_eq_Suc length_Suc_conv)
  have "ucast (drop_bit 8 (push_bit 8 (ucast x :: u16) OR ucast y)) = x"
    by (rule bit_word_eqI) (auto simp: bit_simps dest: bit_imp_le_length)
  moreover have "ucast (push_bit 8 (ucast x :: u16) OR ucast y) = y"
    by (rule bit_word_eqI) (auto simp: bit_simps)
  ultimately show ?thesis by (simp add: b be16_def of_be16_def)
qed

lemma be32_of_be32:
  assumes "length b = 4"
  shows "be32 (of_be32 b) = b"
proof -
  obtain x y z w where b: "b = [x, y, z, w]" using assms by (auto simp: numeral_eq_Suc length_Suc_conv)
  let ?v = "push_bit 24 (ucast x :: u32) OR push_bit 16 (ucast y) OR push_bit 8 (ucast z) OR ucast w"
  have "ucast (drop_bit 24 ?v) = x" "ucast (drop_bit 16 ?v) = y" "ucast (drop_bit 8 ?v) = z" "ucast ?v = w"
    by (rule bit_word_eqI; auto simp: bit_simps dest: bit_imp_le_length)+
  then show ?thesis by (simp add: b be32_def of_be32_def)
qed

section \<open>Lemmas: maps\<close>

lemma gm_list_simps [simp]:
  "gm_list (gm_set m k v) k' = (if k' = k then v else gm_list m k')"
  "gm_get m k = Some v \<Longrightarrow> gm_list m k = v" "gm_get m k = None \<Longrightarrow> gm_list m k = []"
  by (simp_all add: gm_list_def update_conv')

lemma gm_set_new: "k \<notin> fst ` set m \<Longrightarrow> gm_set m k v = m @ [(k, v)]"
  by (induction m) auto

lemma gm_copy: "gm_ok l \<Longrightarrow> foldl (\<lambda>m kv. gm_set m (fst kv) (snd kv)) [] l = l"
proof -
  have "distinct (map fst (m @ l)) \<Longrightarrow> foldl (\<lambda>m kv. gm_set m (fst kv) (snd kv)) m l = m @ l" for m :: "('a \<times> 'b) list" and l
  proof (induction l arbitrary: m)
    case (Cons kv l)
    from Cons.prems have "gm_set m (fst kv) (snd kv) = m @ [kv]" by (simp add: gm_set_new)
    with Cons show ?case by simp
  qed simp
  from this [of "[]" l] show "gm_ok l \<Longrightarrow> ?thesis" by simp
qed

section \<open>Lemmas: splitting and joining\<close>

lemma split_scan_field:
  assumes "\<And>k. k < length s \<Longrightarrow> take (length sep) (drop k s @ rest) \<noteq> sep"
  shows "split_scan sep acc (s @ rest) = split_scan sep (acc @ s) rest"
  using assms
proof (induction s arbitrary: acc)
  case Nil
  then show ?case by simp
next
  case (Cons x s)
  have "take (length sep) (x # s @ rest) \<noteq> sep"
    using Cons.prems [of 0] by simp
  moreover have "take (length sep) (drop k s @ rest) \<noteq> sep" if "k < length s" for k
    using Cons.prems [of "Suc k"] that by simp
  ultimately show ?case
    using Cons.IH [of "acc @ [x]"] by (simp add: split_scan.simps [of sep acc "x # s @ rest"])
qed

lemma split_join:
  assumes "sep \<noteq> []" "ss \<noteq> []" "\<And>s. s \<in> set ss \<Longrightarrow> sep_safe sep s"
  shows "split (join sep ss) sep = ss"
proof -
  have "split_scan sep [] (join sep ss) = ss"
    using assms
  proof (induction sep ss rule: join.induct)
    case (1 sep)
    then show ?case by simp
  next
    case (2 sep s)
    then have "split_scan sep [] (s @ []) = split_scan sep ([] @ s) []"
      by (intro split_scan_field) (auto simp: sep_safe_def)
    then show ?case by (simp add: split_scan.simps [of _ _ "[]"])
  next
    case (3 sep s t ss)
    have "split_scan sep [] (s @ sep @ join sep (t # ss)) = split_scan sep ([] @ s) (sep @ join sep (t # ss))"
      using 3 by (intro split_scan_field) (auto simp: sep_safe_def)
    moreover have "split_scan sep s (sep @ join sep (t # ss)) = s # split_scan sep [] (join sep (t # ss))"
      if "sep \<noteq> []" using that by (simp add: split_scan.simps [of sep s])
    ultimately show ?case using 3 by auto
  qed
  then show ?thesis by (simp add: split_def)
qed

lemma not_prefix_before:
  assumes "c \<notin> set t" "c \<notin> set ds" "t \<noteq> []"
  shows "take (Suc (length ds)) (t @ ds @ [c] @ r) \<noteq> ds @ [c]"
proof
  assume eq: "take (Suc (length ds)) (t @ ds @ [c] @ r) = ds @ [c]"
  have lt: "length ds < length (t @ ds)" using assms(3) by simp
  have "take (Suc (length ds)) ((t @ ds) @ [c] @ r) ! length ds = ((t @ ds) @ [c] @ r) ! length ds"
    by (rule nth_take) simp
  with eq have "(ds @ [c]) ! length ds = ((t @ ds) @ [c] @ r) ! length ds"
    by (simp only: append_assoc)
  also have "\<dots> = (t @ ds) ! length ds" using lt by (rule nth_append_left)
  finally have "c = (t @ ds) ! length ds" by simp
  with lt have "c \<in> set (t @ ds)" using nth_mem by blast
  with assms(1,2) show False by simp
qed

lemma sep_safeI:
  assumes "c \<notin> set s" "c \<notin> set ds"
  shows "sep_safe (ds @ [c]) s"
  unfolding sep_safe_def
proof (intro allI impI conjI)
  fix k r
  assume k: "k < length s"
  have free: "c \<notin> set (drop k s)" using assms(1) in_set_dropD by fast
  from not_prefix_before [OF free assms(2)] k
  show "take (length (ds @ [c])) (drop k s @ (ds @ [c]) @ r) \<noteq> ds @ [c]" by simp
  have "c \<notin> set (take (length (ds @ [c])) (drop k s))" using free in_set_takeD by fast
  moreover have "c \<in> set (ds @ [c])" by simp
  ultimately show "take (length (ds @ [c])) (drop k s) \<noteq> ds @ [c]" by fastforce
qed

lemmas sep_safe_char = sep_safeI [of _ _ "[]", simplified]
lemmas sep_safe_arrow = sep_safeI [of "CHR ''>''" _ "''-''", simplified]

lemma join_inj:
  assumes "sep \<noteq> []" "ss \<noteq> []" "ts \<noteq> []"
    and "\<And>s. s \<in> set ss \<Longrightarrow> sep_safe sep s" "\<And>s. s \<in> set ts \<Longrightarrow> sep_safe sep s"
  shows "join sep ss = join sep ts \<longleftrightarrow> ss = ts"
proof
  assume eq: "join sep ss = join sep ts"
  have "ss = split (join sep ss) sep" by (rule split_join [OF assms(1,2,4), symmetric])
  also have "\<dots> = ts" unfolding eq by (rule split_join [OF assms(1,3,5)])
  finally show "ss = ts" .
qed (rule arg_cong)

section \<open>Lemmas: the exchange sort\<close>

lemma mset_swap: "i < length xs \<Longrightarrow> j < length xs \<Longrightarrow> mset (xs[i := xs ! j, j := xs ! i]) = mset xs"
  using mset_swap[of i xs j] by (cases "i = j") (auto simp: list_update_swap)

lemma exch_inner_spec:
  assumes "i < j" "j \<le> length xs" "\<And>m. i < m \<Longrightarrow> m < j \<Longrightarrow> key (xs ! i) \<le> key (xs ! m)"
  defines "ys \<equiv> exch_inner key i j xs"
  shows "mset ys = mset xs" and "take i ys = take i xs"
    and "\<And>m. i < m \<Longrightarrow> m < length xs \<Longrightarrow> key (ys ! i) \<le> key (ys ! m)"
proof -
  have "mset ys = mset xs \<and> take i ys = take i xs
          \<and> (\<forall>m. i < m \<longrightarrow> m < length xs \<longrightarrow> key (ys ! i) \<le> key (ys ! m))"
    using assms(1-3) unfolding ys_def
  proof (induction key i j xs rule: exch_inner.induct)
    case (1 key i j xs)
    define zs where "zs = (if key (xs ! j) < key (xs ! i) then xs[i := xs ! j, j := xs ! i] else xs)"
    show ?case
    proof (cases "j < length xs")
      case True
      have eq: "exch_inner key i j xs = exch_inner key i (Suc j) zs"
        using True by (simp add: exch_inner.simps [of key i j xs] zs_def)
      have len: "length zs = length xs" by (simp add: zs_def)
      have keep: "mset zs = mset xs" "take i zs = take i xs"
        using True 1(2) by (auto simp: zs_def mset_swap)
      have min: "key (zs ! i) \<le> key (zs ! m)" if "i < m" "m < Suc j" for m
        using that True 1(2) 1(4)[of m] by (auto simp: zs_def nth_list_update)
      from 1(1)[OF True, folded zs_def] min 1(2) True len keep eq
      show ?thesis by auto
    next
      case False
      then have "exch_inner key i j xs = xs" by (simp add: exch_inner.simps [of key i j xs])
      with False 1(3,4) show ?thesis by auto
    qed
  qed
  then show "mset ys = mset xs" "take i ys = take i xs"
    "\<And>m. i < m \<Longrightarrow> m < length xs \<Longrightarrow> key (ys ! i) \<le> key (ys ! m)" by auto
qed

lemma mset_drop_eq:
  "mset xs = mset ys \<Longrightarrow> take i xs = take i ys \<Longrightarrow> mset (drop i xs) = mset (drop i ys)"
  by (metis add_left_cancel append_take_drop_id mset_append)

lemma exch_outer_spec:
  assumes "\<And>a b. a < i \<Longrightarrow> a < b \<Longrightarrow> b < length xs \<Longrightarrow> key (xs ! a) \<le> key (xs ! b)"
  shows "mset (exch_outer key i xs) = mset xs \<and> sorted (map key (exch_outer key i xs))"
  using assms
proof (induction key i xs rule: exch_outer.induct)
  case (1 key i xs)
  show ?case
  proof (cases "Suc i < length xs")
    case True
    define ys where "ys = exch_inner key i (Suc i) xs"
    note spec = exch_inner_spec [of i "Suc i" xs key, folded ys_def]
    have len: "length ys = length xs" by (simp add: ys_def)
    have m: "mset ys = mset xs" and t: "take i ys = take i xs"
      using spec True by auto
    have step: "key (ys ! a) \<le> key (ys ! b)" if "a < Suc i" "a < b" "b < length ys" for a b
    proof (cases "a = i")
      case True
      with that spec(3)[of b] len \<open>Suc i < length xs\<close> show ?thesis by auto
    next
      case False
      with that have "a < i" by simp
      then have a: "ys ! a = xs ! a" using t by (metis nth_take)
      show ?thesis
      proof (cases "b < i")
        case True
        then have "ys ! b = xs ! b" using t by (metis nth_take)
        with a 1(2)[OF \<open>a < i\<close> \<open>a < b\<close>] that len show ?thesis by simp
      next
        case False
        with that have "drop i ys ! (b - i) = ys ! b" "b - i < length (drop i ys)" by auto
        then have "ys ! b \<in> set (drop i ys)" by (metis nth_mem)
        also have "set (drop i ys) = set (drop i xs)"
          using mset_drop_eq [OF m t] by (rule mset_eq_setD)
        finally obtain n where "n < length xs - i" "ys ! b = xs ! (i + n)"
          by (auto simp: in_set_conv_nth)
        with a 1(2)[OF \<open>a < i\<close>, of "i + n"] \<open>a < i\<close> show ?thesis by auto
      qed
    qed
    have "exch_outer key i xs = exch_outer key (Suc i) ys"
      using True by (simp add: exch_outer.simps [of key i xs] ys_def)
    with 1(1)[OF True, folded ys_def] step m show ?thesis by auto
  next
    case False
    have "sorted (map key xs)"
      using 1(2) False by (fastforce simp: sorted_iff_nth_mono_less)
    with False show ?thesis by (simp add: exch_outer.simps [of key i xs])
  qed
qed

lemma mset_exchange_sort [simp]: "mset (exchange_sort key xs) = mset xs"
  and sorted_exchange_sort: "sorted (map key (exchange_sort key xs))"
  using exch_outer_spec [of 0 xs key] by (simp_all add: exchange_sort_def)

lemma set_exchange_sort [simp]: "set (exchange_sort key xs) = set xs"
  by (metis mset_exchange_sort set_mset_mset)

lemma length_exchange_sort [simp]: "length (exchange_sort key xs) = length xs"
  by (metis mset_exchange_sort size_mset)

lemma exchange_sort_reference: "map key (exchange_sort key xs) = sort (map key xs)"
  by (metis mset_exchange_sort mset_map properties_for_sort sorted_exchange_sort)

end
