(* ===== verification/Proxy_Util.thy ===== *)
theory Proxy_Util
  imports Sky_Prelude
begin

text \<open>
  \<^verbatim>\<open>src/data-proxy/util\<close>: request identifiers (\<^verbatim>\<open>req-id.go\<close>), the conversions between hop
  strings, \<^verbatim>\<open>net.IP\<close> values and 32-bit addresses (\<^verbatim>\<open>util.go\<close>) and the path type (\<^verbatim>\<open>routing.go\<close>),
  with the part of the package \<^verbatim>\<open>net\<close> they call. A \<^verbatim>\<open>net.IP\<close> is a byte list, nil is the empty
  list. \<^verbatim>\<open>net.ParseIP\<close> is modelled for IPv4 literals; every other text, IPv6 literals included, is
  nil (a packet header holds 32-bit hop addresses only).
\<close>

section \<open>Definitions\<close>

type_synonym net_ip = "byte list"

text \<open>\<^verbatim>\<open>IP.To4\<close>: four bytes, or the last four of an IPv4-mapped sixteen.\<close>

definition To4 :: "net_ip \<Rightarrow> net_ip" where
  "To4 ip =
     (if length ip = 4 then ip
      else if length ip = 16 \<and> take 10 ip = replicate 10 0 \<and> ip ! 10 = 255 \<and> ip ! 11 = 255
      then drop 12 ip
      else [])"

text \<open>\<^verbatim>\<open>net.IPv4(a, b, c, d)\<close>: the sixteen-byte form.\<close>

definition IPv4 :: "byte \<Rightarrow> byte \<Rightarrow> byte \<Rightarrow> byte \<Rightarrow> net_ip" where
  "IPv4 a b c d = replicate 10 0 @ [255, 255, a, b, c, d]"

text \<open>One octet of an IPv4 literal: decimal digits, no leading zero, at most 255.\<close>

definition is_digit :: "char \<Rightarrow> bool" where
  "is_digit c = (48 \<le> (of_char c :: nat) \<and> (of_char c :: nat) \<le> 57)"

definition dec_value :: "string \<Rightarrow> nat" where
  "dec_value s = foldl (\<lambda>v c. v * 10 + (of_char c - 48)) 0 s"

definition parse_octet :: "string \<Rightarrow> byte option" where
  "parse_octet s =
     (if s = [] \<or> \<not> list_all is_digit s \<or> (length s > 1 \<and> hd s = CHR ''0'') \<or> dec_value s > 255
      then None else Some (of_nat (dec_value s)))"

definition ParseIP :: "string \<Rightarrow> net_ip" where
  "ParseIP s =
     (case map parse_octet (split s ''.'') of
        [Some a, Some b, Some c, Some d] \<Rightarrow> IPv4 a b c d
      | _ \<Rightarrow> [])"

text \<open>\<^verbatim>\<open>IP.String\<close> for a four-byte address.\<close>

definition ip_string :: "net_ip \<Rightarrow> string" where
  "ip_string ip = join ''.'' (map (\<lambda>b. nat_digits (unat b)) ip)"

definition HopIPToNet :: "string \<Rightarrow> net_ip" where
  "HopIPToNet ipStr = (let ip = ParseIP ipStr in if ip = [] then [] else To4 ip)"

definition Uint32ToIP :: "u32 \<Rightarrow> net_ip" where
  "Uint32ToIP w = (let b = be32 w in To4 (IPv4 (b ! 0) (b ! 1) (b ! 2) (b ! 3)))"

text \<open>
  \<^verbatim>\<open>GenShortReqID\<close> increments the process-wide counter \<^verbatim>\<open>reqSeq\<close> and packs the last octet of the
  client address with the low 24 bits of the counter. The result is the new counter and the
  identifier.
\<close>

definition GenShortReqID :: "u64 \<Rightarrow> string \<Rightarrow> u64 \<times> u32" where
  "GenShortReqID reqSeq clientIP =
     (let seq = reqSeq + 1;
          ip = To4 (ParseIP clientIP);
          ipSegment = (if ip \<noteq> [] then ucast (ip ! 3) else 0) :: u32
      in (seq, push_bit 24 ipSegment OR (ucast seq AND 0xFFFFFF)))"

text \<open>A run of successive requests: the identifiers in the order they are handed out.\<close>

fun req_ids :: "u64 \<Rightarrow> string list \<Rightarrow> u32 list" where
  "req_ids q [] = []"
| "req_ids q (c # cs) = (let (q', i) = GenShortReqID q c in i # req_ids q' cs)"

record PathInfo =
  Hops :: "string list"
  Rtt :: real
  RawRTT :: real

section \<open>Lemmas\<close>

lemma To4_IPv4 [simp]: "To4 (IPv4 a b c d) = [a, b, c, d]"
  by (simp add: To4_def IPv4_def nth_append)

lemma Uint32ToIP_be32 [simp]: "Uint32ToIP w = be32 w"
  by (simp add: Uint32ToIP_def be32_def)

lemma length_IPv4 [simp]: "length (IPv4 a b c d) = 16" "IPv4 a b c d \<noteq> []"
  by (simp_all add: IPv4_def)

text \<open>Decimal printing and reading.\<close>

lemma of_char_digit [simp]: "d < 10 \<Longrightarrow> (of_char (digit_char d) :: nat) = 48 + d"
  by (simp add: digit_char_def)

lemma is_digit_digit [simp]: "d < 10 \<Longrightarrow> is_digit (digit_char d)"
  by (simp add: is_digit_def)

lemma dec_value_snoc: "dec_value (s @ [c]) = dec_value s * 10 + (of_char c - 48)"
  by (simp add: dec_value_def)

lemma dec_value_digits [simp]: "dec_value (nat_digits n) = n"
proof (induction n rule: nat_digits.induct)
  case (1 n)
  then show ?case
    by (cases "n < 10") (simp_all add: nat_digits.simps [of n] dec_value_snoc, simp add: dec_value_def)
qed

lemma nat_digits_digits: "nat_digits n \<noteq> [] \<and> list_all is_digit (nat_digits n)"
proof (induction n rule: nat_digits.induct)
  case (1 n)
  then show ?case by (cases "n < 10") (simp_all add: nat_digits.simps [of n])
qed

lemma hd_nat_digits: "hd (nat_digits n) = CHR ''0'' \<Longrightarrow> n = 0"
proof (induction n rule: nat_digits.induct)
  case (1 n)
  show ?case
  proof (cases "n < 10")
    case True
    then have "nat_digits n = [digit_char n]" by (simp add: nat_digits.simps [of n])
    with 1(2) have "(of_char (digit_char n) :: nat) = 48" by simp
    with True show ?thesis by simp
  next
    case False
    then have "nat_digits n = nat_digits (n div 10) @ [digit_char (n mod 10)]"
      by (simp add: nat_digits.simps [of n])
    with 1(2) have "hd (nat_digits (n div 10)) = CHR ''0''"
      using nat_digits_digits [of "n div 10"] by simp
    with 1(1) False show ?thesis by simp
  qed
qed

lemma nat_digits_small: "n < 10 \<Longrightarrow> length (nat_digits n) = 1"
  by (simp add: nat_digits.simps [of n])

lemma octet_roundtrip: "parse_octet (nat_digits (unat b)) = Some b"
proof -
  have "unat b < 2 ^ LENGTH(8)" by (rule unsigned_less)
  then have le: "unat b \<le> 255" by simp
  have "hd (nat_digits (unat b)) \<noteq> CHR ''0''" if "1 < length (nat_digits (unat b))"
    using that hd_nat_digits [of "unat b"] nat_digits_small [of "unat b"] by auto
  with le nat_digits_digits [of "unat b"] show ?thesis by (auto simp: parse_octet_def)
qed

lemma digits_no_char: "\<not> is_digit c \<Longrightarrow> c \<notin> set (nat_digits n)"
  using nat_digits_digits [of n] by (auto simp: list_all_iff)

lemma parse_ip_string: "length ip = 4 \<Longrightarrow> ParseIP (ip_string ip) = IPv4 (ip ! 0) (ip ! 1) (ip ! 2) (ip ! 3)"
proof -
  assume len: "length ip = 4"
  then obtain a b c d where ip: "ip = [a, b, c, d]"
    by (auto simp: length_Suc_conv numeral_eq_Suc)
  have "split (ip_string ip) ''.'' = map (\<lambda>b. nat_digits (unat b)) ip"
    unfolding ip_string_def using len
    by (intro split_join) (auto intro!: sep_safe_char digits_no_char simp: is_digit_def)
  then show ?thesis by (simp add: ParseIP_def ip octet_roundtrip)
qed

lemma low24_id: "unat (snd (GenShortReqID q c)) mod 2 ^ 24 = (unat q + 1) mod 2 ^ 24"
proof -
  have m: "(0xFFFFFF :: u32) = mask 24" by (simp add: mask_eq_exp_minus_1)
  have bits: "take_bit 24 (push_bit 24 x OR (y AND mask 24)) = take_bit 24 y" for x y :: u32
    by (rule bit_word_eqI) (auto simp: bit_simps)
  have "take_bit 24 (snd (GenShortReqID q c)) = take_bit 24 (ucast (q + 1) :: u32)"
    unfolding GenShortReqID_def Let_def snd_conv m by (rule bits)
  then have "unat (take_bit 24 (snd (GenShortReqID q c))) = unat (take_bit 24 (ucast (q + 1) :: u32))" by simp
  then have "unat (snd (GenShortReqID q c)) mod 2 ^ 24 = unat (q + 1) mod 2 ^ 32 mod 2 ^ 24"
    unfolding unsigned_take_bit_eq unsigned_ucast_eq by (simp add: take_bit_eq_mod)
  also have "\<dots> = (unat q + 1) mod 2 ^ 64 mod 2 ^ 24"
    by (simp add: mod_mod_cancel unat_word_ariths)
  finally show ?thesis by (simp add: mod_mod_cancel)
qed

lemma req_ids_mod:
  "map (\<lambda>i. unat i mod 2 ^ 24) (req_ids q cs) = map (\<lambda>k. (unat q + 1 + k) mod 2 ^ 24) [0..<length cs]"
proof (induction cs arbitrary: q)
  case (Cons c cs)
  have *: "fst (GenShortReqID q c) = q + 1" by (simp add: GenShortReqID_def Let_def)
  have "(unat (q + 1) + 1 + k) mod 2 ^ 24 = (unat q + 1 + Suc k) mod 2 ^ 24" for k
  proof -
    have "unat (q + 1) mod 2 ^ 24 = (unat q + 1) mod 2 ^ 24"
      by (simp add: unat_word_ariths mod_mod_cancel)
    then show ?thesis by (metis add.assoc add_Suc_right mod_add_left_eq plus_1_eq_Suc)
  qed
  then show ?case using Cons.IH [of "q + 1"] low24_id [of q c] *
    by (simp add: split_beta Let_def map_upt_Suc del: upt_Suc)
qed simp

text \<open>
  C15: any 2^24 successive calls of GenShortReqID, from any state of the counter and for any client
  addresses, hand out pairwise different request identifiers.
\<close>

theorem req_ids_distinct:
  assumes "length cs \<le> 2 ^ 24"
  shows "distinct (req_ids q cs)"
proof -
  have "inj_on (\<lambda>k. (unat q + 1 + k) mod 2 ^ 24) {0..<length cs}"
  proof (rule linorder_inj_onI')
    fix i j :: nat
    assume "i \<in> {0..<length cs}" "j \<in> {0..<length cs}" "i < j"
    then have "\<not> (2 ^ 24 dvd j - i)" using assms by (auto dest: dvd_imp_le)
    then show "(unat q + 1 + i) mod 2 ^ 24 \<noteq> (unat q + 1 + j) mod 2 ^ 24"
      using \<open>i < j\<close> mod_eq_dvd_iff_nat [of "unat q + 1 + i" "unat q + 1 + j" "2 ^ 24"] by auto
  qed
  then have "distinct (map (\<lambda>i. unat i mod 2 ^ 24) (req_ids q cs))"
    unfolding req_ids_mod distinct_map by simp
  then show ?thesis unfolding distinct_map by simp
qed

theorem req_ids_distinct_witness: "distinct (req_ids 0 [''10.0.0.1'', ''10.0.0.2'', ''10.0.0.1''])"
  by (rule req_ids_distinct) simp

text \<open>
  the hop address written into a packet header and read back is the address the path named: the
  text of a 32-bit address parses back to the same four bytes.
\<close>

lemma hop_ip_roundtrip: "HopIPToNet (ip_string (Uint32ToIP w)) = Uint32ToIP w"
proof -
  have "length (be32 w) = 4" by simp
  then have "be32 w = [be32 w ! 0, be32 w ! 1, be32 w ! 2, be32 w ! 3]" by (simp add: be32_def)
  then show ?thesis by (simp add: HopIPToNet_def parse_ip_string)
qed

end
