(* ===== verification/Node_Stats.thy ===== *)
theory Node_Stats
  imports Sky_Prelude
begin

text \<open>
  Telemetry of the control plane: the reported data (\<^verbatim>\<open>src/control-plane/receive-info/receive-info.go\<close>), the
  node telemetry built from a VM report (\<^verbatim>\<open>src/control-plane/aggregator/node.go\<close>) and the latency
  statistics per user city and node (\<^verbatim>\<open>src/control-plane/aggregator/edge.go\<close>). Go's 64-bit counters are
  integers, its floats reals. A map of pointers is a map of options: \<^verbatim>\<open>encoding/json\<close> decodes \<^verbatim>\<open>null\<close> to a nil
  pointer, and reading through it panics.
\<close>

section \<open>Definitions\<close>

record CPUInfo =
  PhysicalCore :: int
  LogicalCore :: int
  Usage :: real
  Load1Min :: real
  LoadDelta :: real

record ProbeTask =
  TargetType :: string
  pt_Provider :: string
  pt_IP :: string
  pt_Port :: int
  Region :: string
  pt_ID :: string

record LinkCongestion =
  lc_TargetIP :: string
  lc_Target :: ProbeTask
  PacketLoss :: real
  AverageLatency :: real

record NodeTelemetry =
  PublicIP :: string
  nt_Provider :: string
  nt_Continent :: string
  nt_Country :: string
  nt_City :: string
  CpuPressure :: real
  Cpu :: CPUInfo
  LinksCongestion :: "(string, LinkCongestion) gomap"

record LastCongestion =
  Count :: int
  SumRT :: real
  AvgRT :: real
  P95RT :: int

record LastTelemetry =
  LastsCongestion :: "(string, LastCongestion option) gomap"
  lt_IP :: string
  lt_Continent :: string
  lt_Country :: string
  lt_City :: string

text \<open>A VM report; collection times are in nanoseconds.\<close>

record MemoryInfo =
  mem_Total :: u64
  mem_Used :: u64
  mem_Free :: u64
  mem_Usage :: real

record DiskInfo =
  disk_Total :: u64
  disk_Used :: u64
  disk_Free :: u64
  disk_Usage :: real
  disk_Path :: string

record NetworkInfo =
  net_PublicIP :: string
  net_PrivateIP :: string
  PortCount :: int
  TrafficIn :: u64
  TrafficOut :: u64

record OSInfo =
  OSName :: string
  KernelVer :: string
  Hostname :: string
  BootTime :: int

record ProcessDetail =
  PID :: int
  pd_Name :: string
  pd_Usage :: real

record ProcessInfo =
  ActiveCount :: int
  TopCPU :: "ProcessDetail list"
  TopMem :: "ProcessDetail list"

record VMReport =
  VMID :: string
  CollectTime :: int
  ReportID :: string
  rep_CPU :: CPUInfo
  rep_Memory :: MemoryInfo
  rep_Disk :: DiskInfo
  rep_Network :: NetworkInfo
  rep_OS :: OSInfo
  rep_Process :: ProcessInfo
  rep_Links :: "LinkCongestion list"

text \<open>The node section of the configuration.\<close>

record NodeConfig =
  cfg_PublicIP :: string
  cfg_Provider :: string
  cfg_Continent :: string
  cfg_Country :: string
  cfg_City :: string

text \<open>\<^verbatim>\<open>node.go\<close>: grouping the links of a report by target, and the mean of each group.\<close>

record linksCongestion =
  g_TargetIP :: string
  g_Task :: ProbeTask
  PacketLosses :: "real list"
  AverageLatencies :: "real list"

definition group_link :: "(string, linksCongestion) gomap \<Rightarrow> LinkCongestion \<Rightarrow> (string, linksCongestion) gomap" where
  "group_link m v =
     (let t = (case gm_get m (lc_TargetIP v) of
                 Some t \<Rightarrow> t
               | None \<Rightarrow> \<lparr>g_TargetIP = lc_TargetIP v, g_Task = lc_Target v, PacketLosses = [], AverageLatencies = []\<rparr>)
      in gm_set m (lc_TargetIP v)
           (t\<lparr>PacketLosses := PacketLosses t @ [PacketLoss v],
              AverageLatencies := AverageLatencies t @ [AverageLatency v]\<rparr>))"

definition avg :: "real list \<Rightarrow> real" where
  "avg vs = (let s = foldl (+) 0 vs in
     if s \<noteq> 0 \<and> length vs > 0 then s / real (length vs) else s)"

definition group_mean :: "string \<times> linksCongestion \<Rightarrow> string \<times> LinkCongestion" where
  "group_mean kv = (fst kv, \<lparr>lc_TargetIP = fst kv, lc_Target = g_Task (snd kv),
     PacketLoss = avg (PacketLosses (snd kv)), AverageLatency = avg (AverageLatencies (snd kv))\<rparr>)"

definition DoClusterWeightedAvg :: "NodeConfig \<Rightarrow> VMReport \<Rightarrow> NodeTelemetry" where
  "DoClusterWeightedAvg cfg report =
     \<lparr>PublicIP = cfg_PublicIP cfg, nt_Provider = cfg_Provider cfg, nt_Continent = cfg_Continent cfg,
      nt_Country = cfg_Country cfg, nt_City = cfg_City cfg, CpuPressure = Usage (rep_CPU report), Cpu = rep_CPU report,
      LinksCongestion = map group_mean (foldl group_link [] (rep_Links report))\<rparr>"

text \<open>\<^verbatim>\<open>edge.go\<close>: the last report of each node and the statistics rebuilt from them.\<close>

record GlobalStats =
  nodeLast :: "(string, LastTelemetry) gomap"
  edgeAgg :: "(string, LastCongestion) gomap"

definition NewGlobalStats :: GlobalStats where
  "NewGlobalStats = \<lparr>nodeLast = [], edgeAgg = []\<rparr>"

definition AddOrUpdateNode :: "LastTelemetry \<Rightarrow> GlobalStats \<Rightarrow> GlobalStats" where
  "AddOrUpdateNode n g = (if lt_IP n = [] then g else g\<lparr>nodeLast := gm_set (nodeLast g) (lt_IP n) n\<rparr>)"

definition DelNode :: "string \<Rightarrow> GlobalStats \<Rightarrow> GlobalStats" where
  "DelNode ip g = g\<lparr>nodeLast := gm_del (nodeLast g) ip\<rparr>"

definition GetAggMap :: "GlobalStats \<Rightarrow> (string, LastCongestion) gomap" where
  "GetAggMap g = edgeAgg g"

definition zero_congestion :: LastCongestion where
  "zero_congestion = \<lparr>Count = 0, SumRT = 0, AvgRT = 0, P95RT = 0\<rparr>"

definition GetAggValue :: "string \<Rightarrow> GlobalStats \<Rightarrow> LastCongestion" where
  "GetAggValue key g = (case gm_get (edgeAgg g) key of Some v \<Rightarrow> v | None \<Rightarrow> zero_congestion)"

definition agg_key :: "string \<Rightarrow> string \<Rightarrow> string" where
  "agg_key userKey ip = userKey @ ''-'' @ ip"

definition agg_add :: "string \<Rightarrow> (string, LastCongestion) gomap \<Rightarrow> string \<times> LastCongestion option
    \<Rightarrow> (string, LastCongestion) gomap result" where
  "agg_add ip m kv =
     (let key = agg_key (fst kv) ip;
          s = (case gm_get m key of Some s \<Rightarrow> s | None \<Rightarrow> zero_congestion)
      in case snd kv of
           None \<Rightarrow> Inl (GoPanic ''nil pointer dereference'')
         | Some val \<Rightarrow> Inr (gm_set m key (s\<lparr>Count := Count s + Count val, SumRT := SumRT s + AvgRT val * of_int (Count val)\<rparr>)))"

fun agg_adds :: "string \<Rightarrow> (string, LastCongestion) gomap \<Rightarrow> (string \<times> LastCongestion option) list
    \<Rightarrow> (string, LastCongestion) gomap result" where
  "agg_adds ip m [] = Inr m"
| "agg_adds ip m (kv # kvs) = bindr (agg_add ip m kv) (\<lambda>m'. agg_adds ip m' kvs)"

fun agg_nodes :: "(string, LastCongestion) gomap \<Rightarrow> LastTelemetry list \<Rightarrow> (string, LastCongestion) gomap result" where
  "agg_nodes m [] = Inr m"
| "agg_nodes m (n # ns) = bindr (agg_adds (lt_IP n) m (LastsCongestion n)) (\<lambda>m'. agg_nodes m' ns)"

definition set_avg :: "LastCongestion \<Rightarrow> LastCongestion" where
  "set_avg s = (if Count s > 0 then s\<lparr>AvgRT := SumRT s / of_int (Count s)\<rparr> else s)"

definition rebuildAggregate :: "GlobalStats \<Rightarrow> GlobalStats result" where
  "rebuildAggregate g =
     bindr (agg_nodes [] (gm_vals (nodeLast g))) (\<lambda>newAgg.
       Inr (g\<lparr>edgeAgg := map (\<lambda>(k, s). (k, set_avg s)) newAgg\<rparr>))"

text \<open>
  The samples that count for a key of the statistics: those of every report whose user key and node
  address make that key.
\<close>

definition node_samples :: "string \<Rightarrow> LastTelemetry \<Rightarrow> LastCongestion list" where
  "node_samples key n = concat (map (\<lambda>(u, v). case v of Some c \<Rightarrow> if agg_key u (lt_IP n) = key then [c] else [] | None \<Rightarrow> [])
     (LastsCongestion n))"

definition samples :: "string \<Rightarrow> LastTelemetry list \<Rightarrow> LastCongestion list" where
  "samples key ns = concat (map (node_samples key) ns)"

definition total_count :: "LastCongestion list \<Rightarrow> int" where
  "total_count cs = sum_list (map Count cs)"

definition total_rt :: "LastCongestion list \<Rightarrow> real" where
  "total_rt cs = sum_list (map (\<lambda>c. AvgRT c * of_int (Count c)) cs)"

definition no_nil :: "LastTelemetry \<Rightarrow> bool" where
  "no_nil n = list_all (\<lambda>kv. snd kv \<noteq> None) (LastsCongestion n)"

definition link_group :: "string \<Rightarrow> LinkCongestion list \<Rightarrow> LinkCongestion list" where
  "link_group ip ls = filter (\<lambda>v. lc_TargetIP v = ip) ls"

text \<open>The accumulated map against the samples taken so far.\<close>

definition agg_rep :: "(string, LastCongestion) gomap \<Rightarrow> (string \<Rightarrow> LastCongestion list) \<Rightarrow> bool" where
  "agg_rep m S = (gm_ok m \<and> (\<forall>key. gm_get m key = (if S key = [] then None
     else Some \<lparr>Count = total_count (S key), SumRT = total_rt (S key), AvgRT = 0, P95RT = 0\<rparr>)))"

text \<open>Sample reports.\<close>

definition ex_last :: LastTelemetry where
  "ex_last = \<lparr>LastsCongestion = [(''Paris'', Some \<lparr>Count = 1, SumRT = 0, AvgRT = 10, P95RT = 0\<rparr>),
                                 (''Oslo'', Some \<lparr>Count = 3, SumRT = 0, AvgRT = 40, P95RT = 0\<rparr>)],
              lt_IP = ''1.1.1.1'', lt_Continent = [], lt_Country = [], lt_City = []\<rparr>"

section \<open>Lemmas: the mean of a group\<close>

lemma foldl_plus: "foldl (+) (a::real) vs = a + sum_list vs"
  by (induction vs arbitrary: a) auto

lemma avg_eq: "avg vs = sum_list vs / real (length vs)"
  by (cases vs) (auto simp: avg_def Let_def foldl_plus)

lemma avg_bounds:
  assumes "vs \<noteq> []" "\<forall>v \<in> set vs. lo \<le> v \<and> v \<le> hi"
  shows "lo \<le> avg vs" "avg vs \<le> hi"
proof -
  have "real (length vs) * lo \<le> sum_list vs \<and> sum_list vs \<le> real (length vs) * hi"
    using assms(2) by (induction vs) (auto simp: algebra_simps)
  then show "lo \<le> avg vs" "avg vs \<le> hi" using assms(1) by (auto simp: avg_eq field_simps)
qed

lemma group_links_ok:
  "gm_ok m \<Longrightarrow> gm_ok (foldl group_link m ls)
     \<and> fst ` set (foldl group_link m ls) = fst ` set m \<union> lc_TargetIP ` set ls"
proof (induction ls arbitrary: m)
  case (Cons v ls)
  have "gm_ok (group_link m v)" using Cons.prems by (simp add: group_link_def Let_def distinct_update)
  moreover have "fst ` set (group_link m v) = insert (lc_TargetIP v) (fst ` set m)"
    by (simp add: group_link_def Let_def dom_update)
  ultimately show ?case using Cons.IH [of "group_link m v"] by auto
qed simp

lemma group_links_get:
  "gm_get (foldl group_link m ls) k = (case gm_get m k of
      Some t \<Rightarrow> Some (t\<lparr>PacketLosses := PacketLosses t @ map PacketLoss (link_group k ls),
                        AverageLatencies := AverageLatencies t @ map AverageLatency (link_group k ls)\<rparr>)
    | None \<Rightarrow> if link_group k ls = [] then None
        else Some \<lparr>g_TargetIP = k, g_Task = lc_Target (hd (link_group k ls)), PacketLosses = map PacketLoss (link_group k ls),
                   AverageLatencies = map AverageLatency (link_group k ls)\<rparr>)"
proof (induction ls arbitrary: m)
  case Nil
  show ?case by (simp add: link_group_def split: option.splits)
next
  case (Cons v ls)
  show ?case
    unfolding foldl_Cons Cons.IH by (simp add: group_link_def Let_def link_group_def update_conv' split: option.splits)
qed

lemma gm_get_map: "gm_get (map (\<lambda>kv. (fst kv, f kv)) m) k = map_option (\<lambda>v. f (k, v)) (gm_get m k)"
  by (induction m) auto

section \<open>Lemmas: the statistics\<close>

lemma samples_simps [simp]:
  "samples key [] = []" "samples key (n # ns) = node_samples key n @ samples key ns"
  "total_count [] = 0" "total_count (cs @ ds) = total_count cs + total_count ds"
  "total_rt [] = 0" "total_rt (cs @ ds) = total_rt cs + total_rt ds"
  by (simp_all add: samples_def total_count_def total_rt_def)

lemma agg_add_rep:
  assumes "agg_rep m S" "snd kv = Some c"
  shows "\<exists>m'. agg_add ip m kv = Inr m' \<and> agg_rep m' (\<lambda>key. S key @ (if agg_key (fst kv) ip = key then [c] else []))"
  using assms
  by (auto simp: agg_add_def Let_def agg_rep_def distinct_update update_conv' zero_congestion_def total_count_def total_rt_def
      split: option.splits)

lemma agg_adds_rep:
  assumes "agg_rep m S" "\<forall>kv \<in> set kvs. snd kv \<noteq> None"
  shows "\<exists>m'. agg_adds ip m kvs = Inr m' \<and> agg_rep m' (\<lambda>key. S key @ concat (map (\<lambda>(u, v).
      case v of Some c \<Rightarrow> if agg_key u ip = key then [c] else [] | None \<Rightarrow> []) kvs))"
  using assms
proof (induction kvs arbitrary: m S)
  case Nil
  then show ?case by simp
next
  case (Cons kv kvs)
  obtain u c where kv: "kv = (u, Some c)" using Cons.prems(2) by (cases kv) auto
  obtain m1 where m1: "agg_add ip m kv = Inr m1" "agg_rep m1 (\<lambda>key. S key @ (if agg_key u ip = key then [c] else []))"
    using agg_add_rep [OF Cons.prems(1), of kv c ip] kv by auto
  from Cons.IH [OF m1(2)] Cons.prems(2) m1(1) show ?case by (auto simp: kv)
qed

lemma agg_nodes_rep:
  assumes "agg_rep m S" "\<forall>n \<in> set ns. no_nil n"
  shows "\<exists>m'. agg_nodes m ns = Inr m' \<and> agg_rep m' (\<lambda>key. S key @ samples key ns)"
  using assms
proof (induction ns arbitrary: m S)
  case Nil
  then show ?case by simp
next
  case (Cons n ns)
  have "\<forall>kv \<in> set (LastsCongestion n). snd kv \<noteq> None" using Cons.prems(2) by (simp add: no_nil_def list_all_iff)
  from agg_adds_rep [OF Cons.prems(1) this, of "lt_IP n"] obtain m1 where m1: "agg_adds (lt_IP n) m (LastsCongestion n) = Inr m1"
    "agg_rep m1 (\<lambda>key. S key @ node_samples key n)" by (auto simp: node_samples_def)
  from Cons.IH [OF m1(2)] Cons.prems(2) m1(1) show ?case by auto
qed

lemma agg_adds_nil: "\<exists>kv \<in> set kvs. snd kv = None \<Longrightarrow> is_panic (agg_adds ip m kvs)"
proof (induction kvs arbitrary: m)
  case (Cons kv kvs)
  then show ?case by (cases "snd kv") (auto simp: agg_add_def Let_def)
qed simp

lemma agg_adds_ok: "\<forall>kv \<in> set kvs. snd kv \<noteq> None \<Longrightarrow> \<exists>m'. agg_adds ip m kvs = Inr m'"
proof (induction kvs arbitrary: m)
  case (Cons kv kvs)
  then show ?case by (cases "snd kv") (auto simp: agg_add_def Let_def)
qed simp

lemma agg_nodes_nil: "\<exists>n \<in> set ns. \<not> no_nil n \<Longrightarrow> is_panic (agg_nodes m ns)"
proof (induction ns arbitrary: m)
  case (Cons n ns)
  show ?case
  proof (cases "no_nil n")
    case True
    then obtain m' where "agg_adds (lt_IP n) m (LastsCongestion n) = Inr m'"
      using agg_adds_ok [of "LastsCongestion n" "lt_IP n" m] by (auto simp: no_nil_def list_all_iff)
    with True Cons show ?thesis by simp
  next
    case False
    then have "is_panic (agg_adds (lt_IP n) m (LastsCongestion n))"
      by (intro agg_adds_nil) (auto simp: no_nil_def list_all_iff)
    then show ?thesis by (auto simp: is_panic_def bindr_def split: sum.splits fault.splits)
  qed
qed simp

lemma total_rt_bounds:
  assumes "\<forall>c \<in> set cs. 0 \<le> Count c \<and> lo \<le> AvgRT c \<and> AvgRT c \<le> hi"
  shows "lo * of_int (total_count cs) \<le> total_rt cs" "total_rt cs \<le> hi * of_int (total_count cs)"
proof -
  have "lo * of_int (Count c) \<le> AvgRT c * of_int (Count c) \<and> AvgRT c * of_int (Count c) \<le> hi * of_int (Count c)"
    if "c \<in> set cs" for c using that assms by (simp add: mult_right_mono)
  then have "lo * of_int (total_count cs) \<le> total_rt cs \<and> total_rt cs \<le> hi * of_int (total_count cs)"
    by (induction cs) (auto simp: total_count_def total_rt_def distrib_left add_mono)
  then show "lo * of_int (total_count cs) \<le> total_rt cs" "total_rt cs \<le> hi * of_int (total_count cs)" by auto
qed

text \<open>
  The average kept for a key never leaves the range of the averages reported for it: when every
  sample of the key has a non-negative count and an average between two bounds, and some sample counts, the
  rebuilt average lies between the same bounds.
\<close>

lemma rebuild_average_bounds:
  assumes "list_all no_nil (gm_vals (nodeLast g))" "rebuildAggregate g = Inr g'"
    and "\<forall>c \<in> set (samples key (gm_vals (nodeLast g))). 0 \<le> Count c \<and> lo \<le> AvgRT c \<and> AvgRT c \<le> hi"
    and "0 < total_count (samples key (gm_vals (nodeLast g)))"
  shows "lo \<le> AvgRT (GetAggValue key g') \<and> AvgRT (GetAggValue key g') \<le> hi"
proof -
  let ?cs = "samples key (gm_vals (nodeLast g))"
  have "?cs \<noteq> []" using assms(4) by auto
  moreover have "agg_rep [] (\<lambda>_. [])" by (simp add: agg_rep_def)
  from agg_nodes_rep [OF this, of "gm_vals (nodeLast g)"] assms(1) obtain m where
    m: "agg_nodes [] (gm_vals (nodeLast g)) = Inr m" "agg_rep m (\<lambda>key. samples key (gm_vals (nodeLast g)))"
    by (auto simp: list_all_iff)
  moreover have "edgeAgg g' = map (\<lambda>kv. (fst kv, set_avg (snd kv))) m"
    using assms(2) m(1) by (auto simp: rebuildAggregate_def case_prod_beta')
  ultimately have "AvgRT (GetAggValue key g') = total_rt ?cs / of_int (total_count ?cs)"
    using assms(4) by (simp add: GetAggValue_def gm_get_map agg_rep_def set_avg_def)
  then show ?thesis using total_rt_bounds [OF assms(3)] assms(4) by (simp add: pos_le_divide_eq pos_divide_le_eq)
qed

section \<open>Properties\<close>

text \<open>
  A VM report becomes telemetry that has one link per probed target: its loss and its latency are the
  means over the report's entries for that target, its task is that of the first entry, and no target
  outside the report appears.
\<close>

lemma cluster_link_means:
  "gm_ok (LinksCongestion (DoClusterWeightedAvg cfg r)) \<and>
   (\<forall>ip. gm_get (LinksCongestion (DoClusterWeightedAvg cfg r)) ip = (let ls = link_group ip (rep_Links r) in
     if ls = [] then None
     else Some \<lparr>lc_TargetIP = ip, lc_Target = lc_Target (hd ls),
        PacketLoss = sum_list (map PacketLoss ls) / real (length ls),
        AverageLatency = sum_list (map AverageLatency ls) / real (length ls)\<rparr>))"
proof -
  let ?g = "foldl group_link [] (rep_Links r)"
  define f where "f = (\<lambda>kv. snd (group_mean kv))"
  have "group_mean = (\<lambda>kv. (fst kv, f kv))" by (simp add: fun_eq_iff f_def group_mean_def)
  then have eq: "LinksCongestion (DoClusterWeightedAvg cfg r) = map (\<lambda>kv. (fst kv, f kv)) ?g"
    by (simp add: DoClusterWeightedAvg_def)
  have "gm_ok (map (\<lambda>kv. (fst kv, f kv)) ?g)" using group_links_ok [of "[]" "rep_Links r"] by (simp add: comp_def)
  then show ?thesis unfolding eq gm_get_map group_links_get
    by (simp add: Let_def f_def group_mean_def avg_eq)
qed

text \<open>
  C23: Rebuilding the statistics panics exactly when some report holds a nil entry, as a JSON \<^verbatim>\<open>null\<close> decodes
  to. Otherwise the entry of a key exists exactly when a report has samples for it, counts them all, and its
  average is the mean of the reported averages weighted by their counts.
\<close>

theorem rebuild_weighted_mean:
  "if list_all no_nil (gm_vals (nodeLast g))
   then \<exists>g'. rebuildAggregate g = Inr g' \<and> nodeLast g' = nodeLast g
     \<and> (\<forall>key. gm_get (edgeAgg g') key = (let cs = samples key (gm_vals (nodeLast g)) in
         if cs = [] then None
         else Some \<lparr>Count = total_count cs, SumRT = total_rt cs,
           AvgRT = (if total_count cs > 0 then total_rt cs / of_int (total_count cs) else 0), P95RT = 0\<rparr>))
   else is_panic (rebuildAggregate g)"
proof (cases "list_all no_nil (gm_vals (nodeLast g))")
  case True
  have "agg_rep [] (\<lambda>_. [])" by (simp add: agg_rep_def)
  from agg_nodes_rep [OF this, of "gm_vals (nodeLast g)"] True obtain m where
    m: "agg_nodes [] (gm_vals (nodeLast g)) = Inr m" "agg_rep m (\<lambda>key. samples key (gm_vals (nodeLast g)))"
    by (auto simp: list_all_iff)
  have "(\<lambda>(k, s). (k, set_avg s)) = (\<lambda>kv :: string \<times> LastCongestion. (fst kv, set_avg (snd kv)))" by (simp add: fun_eq_iff)
  then have "gm_get (map (\<lambda>(k, s). (k, set_avg s)) m) key = map_option set_avg (gm_get m key)" for key
    by (simp add: gm_get_map)
  with m True show ?thesis by (simp add: rebuildAggregate_def agg_rep_def Let_def set_avg_def)
next
  case False
  then have "is_panic (agg_nodes [] (gm_vals (nodeLast g)))" by (intro agg_nodes_nil) (auto simp: list_all_iff)
  with False show ?thesis by (auto simp: rebuildAggregate_def is_panic_def bindr_def split: sum.splits fault.splits)
qed

end
