(* ===== verification/Cpu_Sampler.thy ===== *)
theory Cpu_Sampler
  imports Proxy_Util Node_Stats
begin

text \<open>
  \<^verbatim>\<open>src/data-plane/collector/cpu.go\<close>: the processor usage of the proxy processes. Reading a file under \<^verbatim>\<open>/proc\<close>, listing the
  processes and counting the cores are arguments; text is ASCII. \<^verbatim>\<open>sample\<close> and \<^verbatim>\<open>collectCPU\<close> run under a lock and are one
  step each. The control of the sampling goroutine is a step relation.
\<close>

section \<open>Definitions\<close>

subsection \<open>Reading the times of a process\<close>

text \<open>\<^verbatim>\<open>strings.LastIndex\<close> for one character, \<^verbatim>\<open>strings.Fields\<close>, and a slice expression without an end.\<close>

fun last_index :: "char \<Rightarrow> string \<Rightarrow> nat option" where
  "last_index c [] = None"
| "last_index c (x # xs) = (case last_index c xs of Some i \<Rightarrow> Some (Suc i) | None \<Rightarrow> if x = c then Some 0 else None)"

definition is_space :: "char \<Rightarrow> bool" where
  "is_space c = ((of_char c :: nat) = 32 \<or> 9 \<le> (of_char c :: nat) \<and> (of_char c :: nat) \<le> 13)"

fun fields_scan :: "string \<Rightarrow> string \<Rightarrow> string list" where
  "fields_scan acc [] = (if acc = [] then [] else [acc])"
| "fields_scan acc (c # s) =
     (if is_space c then (if acc = [] then fields_scan [] s else acc # fields_scan [] s) else fields_scan (acc @ [c]) s)"

definition slice_from :: "'a list \<Rightarrow> nat \<Rightarrow> 'a list result" where
  "slice_from xs i = (if i \<le> length xs then Inr (drop i xs) else Inl (GoPanic ''slice bounds out of range''))"

definition ParseUint64 :: "string \<Rightarrow> u64 result" where
  "ParseUint64 s =
     (if s = [] \<or> \<not> list_all is_digit s then Inl (GoError ''invalid syntax'')
      else if dec_value s > 2 ^ 64 - 1 then Inl (GoError ''value out of range'') else Inr (of_nat (dec_value s)))"

definition readProcStat :: "(string \<Rightarrow> string result) \<Rightarrow> int \<Rightarrow> (u64 \<times> u64) result" where
  "readProcStat ReadFile pid =
     bindr (ReadFile (''/proc/'' @ itoa pid @ ''/stat'')) (\<lambda>s.
       case last_index (CHR '')'') s of
         None \<Rightarrow> Inl (GoError (''malformed /proc/'' @ itoa pid @ ''/stat''))
       | Some closeParen \<Rightarrow>
           bindr (slice_from s (closeParen + 2)) (\<lambda>rest.
             let fs = fields_scan [] rest in
             if length fs < 13 then Inl (GoError (''too few fields in /proc/'' @ itoa pid @ ''/stat''))
             else bindr (ParseUint64 (fs ! 11)) (\<lambda>utime. bindr (ParseUint64 (fs ! 12)) (\<lambda>stime. Inr (utime, stime)))))"

text \<open>The processes of a name: those whose name can be read and equals it up to case.\<close>

definition lower :: "char \<Rightarrow> char" where
  "lower c = (if 65 \<le> (of_char c :: nat) \<and> (of_char c :: nat) \<le> 90 then char_of ((of_char c :: nat) + 32) else c)"

definition findProcessPIDs :: "(int \<times> string option) list result \<Rightarrow> string \<Rightarrow> int list" where
  "findProcessPIDs procs name =
     (case procs of
        Inl err \<Rightarrow> []
      | Inr ps \<Rightarrow> map fst (filter (\<lambda>p. case snd p of None \<Rightarrow> False | Some pname \<Rightarrow> map lower pname = map lower name) ps))"

subsection \<open>Sampling\<close>

record procSample =
  ps_utime :: u64
  ps_stime :: u64
  ps_ts :: int

record Sampler =
  physicalCores :: int
  logicalCores :: int
  procLast :: "(int, procSample) gomap"
  procPIDs :: "int list"
  prevUsage :: real
  currUsage :: real
  maxDelta :: real
  firstSample :: bool

definition processName :: string where "processName = ''data-proxy''"

definition new_sampler :: Sampler where
  "new_sampler = \<lparr>physicalCores = 0, logicalCores = 0, procLast = [], procPIDs = [], prevUsage = 0, currUsage = 0, maxDelta = 0, firstSample = True\<rparr>"

definition pid_cpu :: "int \<Rightarrow> procSample option \<Rightarrow> u64 \<Rightarrow> u64 \<Rightarrow> real" where
  "pid_cpu now prev utime stime =
     (case prev of
        None \<Rightarrow> 0
      | Some p \<Rightarrow>
          if ps_ts p div 10 ^ 9 > 0
          then let deltaTicks = (utime + stime) - (ps_utime p + ps_stime p);
                   deltaSec = of_int (now - ps_ts p) / 10 ^ 9
               in if deltaSec > 0 then of_nat (unat deltaTicks) / deltaSec / 100 * 100 else 0
          else 0)"

definition scan_pid :: "(int \<Rightarrow> (u64 \<times> u64) result) \<Rightarrow> int \<Rightarrow> (int, procSample) gomap \<times> int list \<times> real \<Rightarrow> int
    \<Rightarrow> ((int, procSample) gomap \<times> int list \<times> real) result" where
  "scan_pid stat now acc pid =
     (let (lst, alive, totalCPU) = acc in
      case stat pid of
        Inl (GoError err) \<Rightarrow> Inr (gm_del lst pid, alive, totalCPU)
      | Inl f \<Rightarrow> Inl f
      | Inr (utime, stime) \<Rightarrow>
          Inr (gm_set lst pid \<lparr>ps_utime = utime, ps_stime = stime, ps_ts = now\<rparr>, alive @ [pid],
               totalCPU + pid_cpu now (gm_get lst pid) utime stime))"

fun scan_pids :: "(int \<Rightarrow> (u64 \<times> u64) result) \<Rightarrow> int \<Rightarrow> (int, procSample) gomap \<times> int list \<times> real \<Rightarrow> int list
    \<Rightarrow> ((int, procSample) gomap \<times> int list \<times> real) result" where
  "scan_pids stat now acc [] = Inr acc"
| "scan_pids stat now acc (pid # pids) = bindr (scan_pid stat now acc pid) (\<lambda>acc'. scan_pids stat now acc' pids)"

text \<open>The usage with the new state; the list of processes is looked up again only when it has become empty.\<close>

definition getProcessCPU :: "int list \<Rightarrow> (int \<Rightarrow> (u64 \<times> u64) result) \<Rightarrow> int \<Rightarrow> Sampler \<Rightarrow> real result \<times> Sampler" where
  "getProcessCPU found stat now st =
     (let pids = (if procPIDs st = [] then found else procPIDs st) in
      if pids = [] then (Inl (GoError (''process '' @ processName @ '' not found'')), st)
      else case scan_pids stat now (procLast st, [], 0) pids of
             Inl f \<Rightarrow> (Inl f, st)
           | Inr (lst, alive, totalCPU) \<Rightarrow> (Inr totalCPU, st\<lparr>procLast := lst, procPIDs := alive\<rparr>))"

definition record_usage :: "Sampler \<Rightarrow> real \<Rightarrow> Sampler" where
  "record_usage st percent =
     (let st = st\<lparr>currUsage := percent\<rparr>;
          st = (if \<not> firstSample st
                then let d = \<bar>percent - prevUsage st\<bar> in if d > maxDelta st then st\<lparr>maxDelta := d\<rparr> else st
                else st\<lparr>firstSample := False\<rparr>)
      in st\<lparr>prevUsage := percent\<rparr>)"

definition sample :: "int list \<Rightarrow> (int \<Rightarrow> (u64 \<times> u64) result) \<Rightarrow> int \<Rightarrow> Sampler \<Rightarrow> Sampler result" where
  "sample found stat now st =
     (case getProcessCPU found stat now st of
        (Inr percent, st') \<Rightarrow> Inr (record_usage st' percent)
      | (Inl (GoError err), st') \<Rightarrow> Inr st'
      | (Inl f, st') \<Rightarrow> Inl f)"

definition collectCPU :: "Sampler \<Rightarrow> CPUInfo \<times> Sampler" where
  "collectCPU st =
     (let usage = currUsage st; delta = maxDelta st;
          st = st\<lparr>maxDelta := 0, firstSample := True\<rparr>;
          usage = (if usage \<le> 1 then 1 else usage)
      in (\<lparr>PhysicalCore = physicalCores st, LogicalCore = logicalCores st, Usage = usage, Load1Min = 0, LoadDelta = delta\<rparr>, st))"

subsection \<open>Starting and stopping\<close>

text \<open>
  The sampling loop evaluates the global channel anew in every round: it waits on the channel or, once the variable is
  nil, on nothing but the ticker.
\<close>

datatype sampler_pc = NotStarted | LoopTop | AtSelect bool | InSample | Returned

record sampler_control =
  startOnce :: bool
  stopCh :: bool
  ch_closed :: bool
  loop_pc :: sampler_pc

definition sampler_init :: sampler_control where
  "sampler_init = \<lparr>startOnce = False, stopCh = False, ch_closed = False, loop_pc = NotStarted\<rparr>"

definition StartCPUSampler :: "sampler_control \<Rightarrow> sampler_control" where
  "StartCPUSampler c = (if startOnce c then c else c\<lparr>startOnce := True, stopCh := True, loop_pc := LoopTop\<rparr>)"

definition StopCPUSampler :: "sampler_control \<Rightarrow> sampler_control" where
  "StopCPUSampler c = (if stopCh c then c\<lparr>ch_closed := True, stopCh := False\<rparr> else c)"

inductive runSampler :: "sampler_control \<Rightarrow> sampler_control \<Rightarrow> bool" where
  select: "loop_pc c = LoopTop \<Longrightarrow> runSampler c (c\<lparr>loop_pc := AtSelect (stopCh c)\<rparr>)"
| stopped: "loop_pc c = AtSelect True \<Longrightarrow> ch_closed c \<Longrightarrow> runSampler c (c\<lparr>loop_pc := Returned\<rparr>)"
| ticked: "loop_pc c = AtSelect b \<Longrightarrow> runSampler c (c\<lparr>loop_pc := InSample\<rparr>)"
| sampled: "loop_pc c = InSample \<Longrightarrow> runSampler c (c\<lparr>loop_pc := LoopTop\<rparr>)"

inductive_cases runSampler_cases: "runSampler c c'"

text \<open>What one process adds to the usage, and what is remembered of it.\<close>

definition scan_share :: "(int \<Rightarrow> (u64 \<times> u64) result) \<Rightarrow> int \<Rightarrow> (int, procSample) gomap \<Rightarrow> int \<Rightarrow> real" where
  "scan_share stat now lst pid = (case stat pid of Inl _ \<Rightarrow> 0 | Inr (u, v) \<Rightarrow> pid_cpu now (gm_get lst pid) u v)"

definition scan_entry :: "(int \<Rightarrow> (u64 \<times> u64) result) \<Rightarrow> int \<Rightarrow> int \<Rightarrow> procSample option" where
  "scan_entry stat now pid = (case stat pid of Inl _ \<Rightarrow> None | Inr (u, v) \<Rightarrow> Some \<lparr>ps_utime = u, ps_stime = v, ps_ts = now\<rparr>)"

text \<open>A line of \<^verbatim>\<open>/proc/[pid]/stat\<close> as the kernel writes it.\<close>

definition stat_line :: "int \<Rightarrow> string \<Rightarrow> string list \<Rightarrow> string" where
  "stat_line pid comm fs = itoa pid @ '' ('' @ comm @ '') '' @ join '' '' fs @ [CHR 0x0A]"

definition stat_file :: "int \<Rightarrow> string" where
  "stat_file pid = ''/proc/'' @ itoa pid @ ''/stat''"

text \<open>The file of a process has a line of the kernel with the given times, whatever the name of the process.\<close>

definition proc_times :: "(string \<Rightarrow> string result) \<Rightarrow> int \<Rightarrow> u64 \<times> u64 \<Rightarrow> bool" where
  "proc_times ReadFile pid t = (\<exists>comm fs u v. ReadFile (stat_file pid) = Inr (stat_line pid comm fs) \<and> 13 \<le> length fs
     \<and> (\<forall>f \<in> set fs. f \<noteq> [] \<and> list_all (\<lambda>c. \<not> is_space c) f \<and> CHR '')'' \<notin> set f)
     \<and> fs ! 11 = nat_digits u \<and> fs ! 12 = nat_digits v \<and> u < 2 ^ 64 \<and> v < 2 ^ 64 \<and> t = (of_nat u, of_nat v))"

definition ex_fields :: "string list" where
  "ex_fields = [''S''] @ replicate 10 ''0'' @ [''700'', ''300'', ''0'']"

section \<open>Lemmas: reading the times\<close>

lemma last_index_none: "c \<notin> set s \<Longrightarrow> last_index c s = None"
  by (induction s) auto

lemma last_index_append: "c \<notin> set ys \<Longrightarrow> last_index c (xs @ c # ys) = Some (length xs)"
  by (induction xs) (auto simp: last_index_none)

lemma fields_scan_word: "list_all (\<lambda>c. \<not> is_space c) w \<Longrightarrow> fields_scan acc (w @ s) = fields_scan (acc @ w) s"
  by (induction w arbitrary: acc) auto

lemma fields_join:
  assumes "\<forall>f \<in> set fs. f \<noteq> [] \<and> list_all (\<lambda>c. \<not> is_space c) f"
  shows "fields_scan [] (join '' '' fs @ [CHR 0x0A]) = fs"
proof -
  have sp: "is_space (CHR '' '')" "is_space (CHR 0x0A)" by (simp_all add: is_space_def)
  show ?thesis using assms
  proof (induction "'' '' :: string" fs rule: join.induct)
    case (2 s)
    then show ?case using sp by (simp add: fields_scan_word)
  next
    case (3 s t ss)
    then show ?case using sp by (simp add: fields_scan_word)
  qed (use sp in simp)
qed

lemma join_set: "set (join sep fs) \<subseteq> set sep \<union> \<Union> (set ` set fs)"
  by (induction sep fs rule: join.induct) auto

lemma ParseUint64_digits: "n < 2 ^ 64 \<Longrightarrow> ParseUint64 (nat_digits n) = Inr (of_nat n)"
  using nat_digits_digits [of n] by (simp add: ParseUint64_def)

lemma stat_fields:
  assumes "\<forall>f \<in> set fs. f \<noteq> [] \<and> list_all (\<lambda>c. \<not> is_space c) f \<and> CHR '')'' \<notin> set f"
  shows "last_index (CHR '')'') (stat_line pid comm fs) = Some (length (itoa pid @ '' ('' @ comm))"
    and "drop (length (itoa pid @ '' ('' @ comm) + 2) (stat_line pid comm fs) = join '' '' fs @ [CHR 0x0A]"
proof -
  have eq: "stat_line pid comm fs = (itoa pid @ '' ('' @ comm) @ CHR '')'' # ('' '' @ join '' '' fs @ [CHR 0x0A])"
    by (simp add: stat_line_def)
  have "CHR '')'' \<notin> set ('' '' @ join '' '' fs @ [CHR 0x0A])" using join_set [of "'' ''" fs] assms by auto
  from last_index_append [OF this] show "last_index (CHR '')'') (stat_line pid comm fs) = Some (length (itoa pid @ '' ('' @ comm))"
    unfolding eq .
  have "stat_line pid comm fs = (itoa pid @ '' ('' @ comm @ '') '') @ join '' '' fs @ [CHR 0x0A]" by (simp add: stat_line_def)
  moreover have "drop (length xs) (xs @ ys) = ys" for xs ys :: string by simp
  ultimately have "drop (length (itoa pid @ '' ('' @ comm @ '') '')) (stat_line pid comm fs) = join '' '' fs @ [CHR 0x0A]"
    by (simp only:)
  then show "drop (length (itoa pid @ '' ('' @ comm) + 2) (stat_line pid comm fs) = join '' '' fs @ [CHR 0x0A]"
    by simp
qed

lemma readProcStat_line:
  assumes "ReadFile (''/proc/'' @ itoa pid @ ''/stat'') = Inr (stat_line pid comm fs)"
    and fs: "\<forall>f \<in> set fs. f \<noteq> [] \<and> list_all (\<lambda>c. \<not> is_space c) f \<and> CHR '')'' \<notin> set f"
    and "13 \<le> length fs" "fs ! 11 = nat_digits u" "fs ! 12 = nat_digits v" "u < 2 ^ 64" "v < 2 ^ 64"
  shows "readProcStat ReadFile pid = Inr (of_nat u, of_nat v)"
proof -
  have le: "length (itoa pid @ '' ('' @ comm) + 2 \<le> length (stat_line pid comm fs)" by (simp add: stat_line_def)
  have "\<forall>f \<in> set fs. f \<noteq> [] \<and> list_all (\<lambda>c. \<not> is_space c) f" using fs by auto
  note fj = fields_join [OF this]
  show ?thesis
    using assms(3) le by (simp only: readProcStat_def assms(1) bindr_simps stat_fields(1) [OF fs] option.case slice_from_def if_True
        stat_fields(2) [OF fs] fj Let_def) (simp add: assms(4, 5) ParseUint64_digits [OF assms(6)] ParseUint64_digits [OF assms(7)])
qed

lemma read_proc:
  assumes "(\<exists>err. ReadFile (stat_file pid) = Inl (GoError err)) \<or> proc_times ReadFile pid t"
  shows "if is_ok (ReadFile (stat_file pid)) then readProcStat ReadFile pid = Inr t else \<exists>err. readProcStat ReadFile pid = Inl (GoError err)"
  using assms
proof
  assume "\<exists>err. ReadFile (stat_file pid) = Inl (GoError err)"
  then show ?thesis by (auto simp: readProcStat_def stat_file_def)
next
  assume "proc_times ReadFile pid t"
  then obtain comm fs u v where *: "ReadFile (stat_file pid) = Inr (stat_line pid comm fs)" "13 \<le> length fs"
    "\<forall>f \<in> set fs. f \<noteq> [] \<and> list_all (\<lambda>c. \<not> is_space c) f \<and> CHR '')'' \<notin> set f"
    "fs ! 11 = nat_digits u" "fs ! 12 = nat_digits v" "u < 2 ^ 64" "v < 2 ^ 64" "t = (of_nat u, of_nat v)"
    unfolding proc_times_def by (elim exE conjE)
  from readProcStat_line [where ReadFile = ReadFile and pid = pid, OF *(1) [unfolded stat_file_def] *(3, 2, 4-7)] *(1, 8) show ?thesis by simp
qed

lemma stat_ends_in_paren:
  assumes "ReadFile (''/proc/'' @ itoa pid @ ''/stat'') = Inr (s @ '')'')"
  shows "is_panic (readProcStat ReadFile pid)"
  using assms last_index_append [of "CHR '')''" "[]" s] by (simp add: readProcStat_def slice_from_def)

section \<open>Lemmas: the usage\<close>

text \<open>The ticks of a process whose counters grow without overflow, and of one whose counters fell.\<close>

lemma ticks_exact:
  fixes a b :: u64
  assumes "a \<le> b"
  shows "unat (b - a) = unat b - unat a"
  using assms by (simp add: unat_sub)

lemma ticks_wrap:
  fixes a b :: u64
  assumes "b < a"
  shows "unat (b - a) = 2 ^ 64 - (unat a - unat b)"
proof -
  have "unat b < unat a" "unat a < 2 ^ LENGTH(64)" using assms unsigned_less [of a] by (simp_all add: word_less_nat_alt)
  then show ?thesis by (simp add: unat_sub_if_size word_size)
qed

lemma pid_cpu_exact:
  assumes "10 ^ 9 \<le> ps_ts p" "ps_ts p < now" "ps_utime p + ps_stime p \<le> utime + stime"
  shows "pid_cpu now (Some p) utime stime
           = (real (unat (utime + stime)) - real (unat (ps_utime p + ps_stime p))) / (of_int (now - ps_ts p) / 10 ^ 9)"
proof -
  have "0 < ps_ts p div 10 ^ 9" using assms(1) by (simp add: pos_imp_zdiv_pos_iff)
  moreover have "unat (ps_utime p + ps_stime p) \<le> unat (utime + stime)" using assms(3) by (simp add: word_le_nat_alt)
  moreover have "x / d / 100 * 100 = x / d" for x d :: real by simp
  ultimately show ?thesis using assms(2, 3) unfolding pid_cpu_def Let_def
    by (simp add: ticks_exact of_nat_diff del: of_nat_unat times_divide_eq_left divide_divide_eq_left)
qed

lemma pid_cpu_nonneg: "0 \<le> pid_cpu now prev utime stime"
  by (cases prev) (auto simp: pid_cpu_def Let_def simp del: of_nat_unat)

text \<open>The scan: what it adds up, which processes it keeps and what it remembers of them.\<close>

lemma scan_pid_spec:
  assumes "(\<exists>u v. stat p = Inr (u, v)) \<or> (\<exists>err. stat p = Inl (GoError err))" "gm_ok lst"
  shows "\<exists>lst'. scan_pid stat now (lst, alive, tot) p = Inr (lst', alive @ filter (\<lambda>pid. is_ok (stat pid)) [p], tot + scan_share stat now lst p)
    \<and> gm_ok lst' \<and> gm_get lst' = (gm_get lst)(p := scan_entry stat now p)"
  using assms(1)
proof (elim disjE exE)
  fix u v assume "stat p = Inr (u, v)"
  then show ?thesis using assms(2)
    by (simp add: scan_pid_def scan_share_def scan_entry_def distinct_update) (simp add: update_conv')
next
  fix err assume "stat p = Inl (GoError err)"
  then show ?thesis using assms(2)
    by (simp add: scan_pid_def scan_share_def scan_entry_def distinct_delete) (simp add: delete_conv')
qed

lemma scan_pids_spec:
  assumes "\<And>pid. pid \<in> set pids \<Longrightarrow> (\<exists>u v. stat pid = Inr (u, v)) \<or> (\<exists>err. stat pid = Inl (GoError err))" "distinct pids" "gm_ok lst"
  shows "\<exists>lst'. scan_pids stat now (lst, alive, tot) pids
      = Inr (lst', alive @ filter (\<lambda>pid. is_ok (stat pid)) pids, tot + sum_list (map (scan_share stat now lst) pids))
    \<and> gm_ok lst' \<and> (\<forall>pid. gm_get lst' pid = (if pid \<in> set pids then scan_entry stat now pid else gm_get lst pid))"
  using assms
proof (induction pids arbitrary: lst alive tot)
  case (Cons p pids)
  from Cons.prems(1) [of p] have "(\<exists>u v. stat p = Inr (u, v)) \<or> (\<exists>err. stat p = Inl (GoError err))" by simp
  from scan_pid_spec [where stat = stat and p = p and lst = lst and now = now and alive = alive and tot = tot, OF this Cons.prems(3)] obtain lst1 where
    l1: "scan_pid stat now (lst, alive, tot) p = Inr (lst1, alive @ filter (\<lambda>pid. is_ok (stat pid)) [p], tot + scan_share stat now lst p)"
      "gm_ok lst1" "gm_get lst1 = (gm_get lst)(p := scan_entry stat now p)" by blast
  have same: "map (scan_share stat now lst1) pids = map (scan_share stat now lst) pids"
    using Cons.prems(2) by (auto simp: scan_share_def l1(3) split: sum.splits)
  from Cons.IH [OF _ _ l1(2), of "alive @ filter (\<lambda>pid. is_ok (stat pid)) [p]" "tot + scan_share stat now lst p"] Cons.prems(1, 2)
  obtain lst' where l2: "scan_pids stat now (lst1, alive @ filter (\<lambda>pid. is_ok (stat pid)) [p], tot + scan_share stat now lst p) pids
      = Inr (lst', (alive @ filter (\<lambda>pid. is_ok (stat pid)) [p]) @ filter (\<lambda>pid. is_ok (stat pid)) pids,
          tot + scan_share stat now lst p + sum_list (map (scan_share stat now lst) pids))"
      "gm_ok lst'" "\<forall>pid. gm_get lst' pid = (if pid \<in> set pids then scan_entry stat now pid else gm_get lst1 pid)"
    unfolding same by auto
  show ?case
  proof (intro exI conjI)
    show "scan_pids stat now (lst, alive, tot) (p # pids)
        = Inr (lst', alive @ filter (\<lambda>pid. is_ok (stat pid)) (p # pids), tot + sum_list (map (scan_share stat now lst) (p # pids)))"
      using l2(1) by (simp add: l1(1) add.assoc)
  qed (use l2 l1(3) Cons.prems(2) in auto)
qed simp

section \<open>Lemmas: the reporting window\<close>

lemma collectCPU_bounds: "1 \<le> Usage (fst (collectCPU st))"
  by (simp add: collectCPU_def Let_def)

lemma record_usages:
  assumes "\<not> firstSample st" "0 \<le> maxDelta st"
  shows "maxDelta (foldl record_usage st ps) = Max (insert (maxDelta st) (set (map2 (\<lambda>p q. \<bar>q - p\<bar>) (prevUsage st # ps) ps)))"
  using assms
proof (induction ps arbitrary: st)
  case (Cons p ps)
  have st1: "\<not> firstSample (record_usage st p)" "prevUsage (record_usage st p) = p"
    "maxDelta (record_usage st p) = max (maxDelta st) \<bar>p - prevUsage st\<bar>"
    using Cons.prems by (auto simp: record_usage_def Let_def)
  have "Max (insert (max a b) S) = Max (insert a (insert b S))" if "finite S" for a b :: real and S
    using that by (cases "S = {}") (auto simp: Max_insert max.assoc)
  moreover have "finite (set (map2 (\<lambda>p q. \<bar>q - p\<bar>) (p # ps) ps))" by (rule finite_set)
  ultimately show ?case using Cons.IH [of "record_usage st p"] Cons.prems(2) st1 by simp
qed simp

lemma currUsage_last: "ps \<noteq> [] \<Longrightarrow> currUsage (foldl record_usage st ps) = last ps"
  by (induction ps rule: rev_induct) (simp_all add: record_usage_def Let_def)

text \<open>A window that starts with a collection: the largest jump between successive samples of the window.\<close>

lemma window_delta:
  assumes "firstSample st" "maxDelta st = 0"
  shows "maxDelta (foldl record_usage st ps) = Max (insert 0 (set (map2 (\<lambda>p q. \<bar>q - p\<bar>) ps (tl ps))))"
proof (cases ps)
  case (Cons p ps')
  have "\<not> firstSample (record_usage st p)" "maxDelta (record_usage st p) = 0" "prevUsage (record_usage st p) = p"
    using assms by (simp_all add: record_usage_def Let_def)
  with record_usages [of "record_usage st p" ps'] Cons show ?thesis by simp
qed (use assms in simp)

section \<open>Lemmas: stopping\<close>

text \<open>A stop that comes while a sample is taken is never seen: the loop then waits on the nil channel.\<close>

lemma stop_missed:
  assumes "loop_pc c = InSample" "stopCh c" "runSampler\<^sup>*\<^sup>* (StopCPUSampler c) c'"
  shows "loop_pc c' \<noteq> Returned"
proof -
  have "\<not> stopCh c' \<and> loop_pc c' \<in> {InSample, LoopTop, AtSelect False}"
    using assms(3)
  proof induction
    case base
    then show ?case using assms(1, 2) by (simp add: StopCPUSampler_def)
  next
    case (step y z)
    then show ?case by (auto elim!: runSampler_cases)
  qed
  then show ?thesis by auto
qed

lemma stop_seen:
  assumes "loop_pc c = AtSelect True" "stopCh c"
  shows "\<exists>c'. runSampler (StopCPUSampler c) c' \<and> loop_pc c' = Returned"
  using runSampler.stopped [of "StopCPUSampler c"] assms by (auto simp: StopCPUSampler_def)

lemma no_restart: "startOnce c \<Longrightarrow> StartCPUSampler (StopCPUSampler c) = StopCPUSampler c"
  by (simp add: StartCPUSampler_def StopCPUSampler_def)

section \<open>Properties\<close>



end
