(* ===== verification/Graph_Manager.thy ===== *)
theory Graph_Manager
  imports Node_Stats
begin

text \<open>
  The overlay graph of the control plane (\<^verbatim>\<open>src/control-plane/routing/graph/update-graph.go\<close>) and the etcd watch
  handlers that maintain it and the latency statistics (\<^verbatim>\<open>src/control-plane/main.go\<close>, \<^verbatim>\<open>WatchPrefix\<close> of
  \<^verbatim>\<open>src/control-plane/sync/etcd_client/etcd_client.go\<close>). Methods run under the manager's lock, so each is one
  step. Decoding JSON is a parameter of the handlers.
\<close>

section \<open>Definitions\<close>

record Edge =
  SourceIp :: string
  DestinationIp :: string
  EdgeWeight :: real
  Load :: real
  Latency :: real
  Loss :: real

record GraphManager =
  g_edges :: "(string, Edge) gomap"
  g_nodes :: "(string, NodeTelemetry) gomap"

definition UpdateWeight :: "real \<Rightarrow> Edge \<Rightarrow> Edge" where
  "UpdateWeight newWeight e = e\<lparr>EdgeWeight := newWeight\<rparr>"

definition NewGraphManager :: GraphManager where
  "NewGraphManager = \<lparr>g_edges = [], g_nodes = []\<rparr>"

definition GetNode :: "string \<Rightarrow> GraphManager \<Rightarrow> NodeTelemetry option" where
  "GetNode i g = gm_get (g_nodes g) i"

definition GetNodes :: "GraphManager \<Rightarrow> (string, NodeTelemetry) gomap" where
  "GetNodes g = g_nodes g"

definition RemoveNode :: "string \<Rightarrow> GraphManager \<Rightarrow> GraphManager" where
  "RemoveNode i g =
     \<lparr>g_edges = filter (\<lambda>(key, e). \<not> (SourceIp e = i \<or> DestinationIp e = i)) (g_edges g),
      g_nodes = gm_del (g_nodes g) i\<rparr>"

definition GetEdges :: "GraphManager \<Rightarrow> Edge list" where
  "GetEdges g = gm_vals (g_edges g)"

definition GetEdge :: "string \<Rightarrow> GraphManager \<Rightarrow> Edge option" where
  "GetEdge edgeID g = gm_get (g_edges g) edgeID"

definition EdgeRisk :: "real \<Rightarrow> real \<Rightarrow> real \<Rightarrow> real" where
  "EdgeRisk cpuPressure loss latency =
     (let cpuMax = 60; cpuPower = 2; lossInflection = 5 / 100; lossSharpness = 40; latencyMax = 150; latPower = 3 / 2;
          wCPU = 1 / 2; wLoss = 0; wLat = 1 / 2;
          cpuRisk = (if cpuPressure < 50 then 0 else (cpuPressure / cpuMax) powr cpuPower);
          lossRisk = (if loss \<ge> 1 then 1 else if loss \<le> 0 then 0
                      else 1 / (1 + exp (- lossSharpness * (loss - lossInflection))));
          latRatio = latency / latencyMax;
          latRatio = (if latRatio < 0 then 0 else latRatio);
          latRisk = latRatio powr latPower
      in wCPU * cpuRisk + wLoss * lossRisk + wLat * latRisk)"

definition edge_key :: "string \<Rightarrow> string \<Rightarrow> string" where
  "edge_key src dst = src @ ''->'' @ dst"

definition put_edge :: "string \<Rightarrow> string \<Rightarrow> real \<Rightarrow> real \<Rightarrow> real \<Rightarrow> GraphManager \<Rightarrow> GraphManager" where
  "put_edge src dst r load latency g =
     (let newLine = edge_key src dst in
      case gm_get (g_edges g) newLine of
        Some oldLine \<Rightarrow> g\<lparr>g_edges := gm_set (g_edges g) newLine (oldLine\<lparr>EdgeWeight := r\<rparr>)\<rparr>
      | None \<Rightarrow> g\<lparr>g_edges := gm_set (g_edges g) newLine
          \<lparr>SourceIp = src, DestinationIp = dst, EdgeWeight = r, Load = load, Latency = latency, Loss = 0\<rparr>\<rparr>)"

definition origin_addr :: "string \<Rightarrow> int \<Rightarrow> string" where
  "origin_addr ip port = ip @ '':'' @ itoa port"

definition add_link :: "string \<Rightarrow> GraphManager \<Rightarrow> LinkCongestion \<Rightarrow> GraphManager" where
  "add_link src g v =
     (if TargetType (lc_Target v) = ''source''
      then put_edge src (origin_addr (pt_IP (lc_Target v)) (pt_Port (lc_Target v)))
             (EdgeRisk 0 (PacketLoss v) (AverageLatency v)) 0 (AverageLatency v) g
      else case gm_get (g_nodes g) (pt_IP (lc_Target v)) of
             None \<Rightarrow> g
           | Some outNode \<Rightarrow>
               put_edge src (pt_IP (lc_Target v)) (EdgeRisk (CpuPressure outNode) (PacketLoss v) (AverageLatency v))
                 (CpuPressure outNode) (AverageLatency v) g)"

definition AddNode :: "NodeTelemetry \<Rightarrow> GraphManager \<Rightarrow> GraphManager" where
  "AddNode n g =
     foldl (add_link (PublicIP n)) (g\<lparr>g_nodes := gm_set (g_nodes g) (PublicIP n) n\<rparr>) (gm_vals (LinksCongestion n))"

text \<open>
  Watching etcd: a put or a delete of a key. A delete event carries the key and an empty value. The handler
  gets the kind of the event as text, the key and the value of the event.
\<close>

datatype etcd_event = EPut bool string string | EDelete string

fun watch_args :: "etcd_event \<Rightarrow> string \<times> string \<times> string" where
  "watch_args (EPut created key val) = ((if created then ''CREATE'' else ''UPDATE''), key, val)"
| "watch_args (EDelete key) = (''DELETE'', key, [])"

definition zero_cpu :: CPUInfo where
  "zero_cpu = \<lparr>PhysicalCore = 0, LogicalCore = 0, Usage = 0, Load1Min = 0, LoadDelta = 0\<rparr>"

definition zero_telemetry :: NodeTelemetry where
  "zero_telemetry = \<lparr>PublicIP = [], nt_Provider = [], nt_Continent = [], nt_Country = [], nt_City = [], CpuPressure = 0,
     Cpu = zero_cpu, LinksCongestion = []\<rparr>"

definition zero_last :: LastTelemetry where
  "zero_last = \<lparr>LastsCongestion = [], lt_IP = [], lt_Continent = [], lt_Country = [], lt_City = []\<rparr>"

definition HandleRoutingWatchEvent :: "(string \<Rightarrow> NodeTelemetry option) \<Rightarrow> GraphManager \<Rightarrow> string \<times> string \<times> string \<Rightarrow> GraphManager" where
  "HandleRoutingWatchEvent unmarshal r ev =
     (let (eventType, key, val) = ev;
          tel = (if length val > 0 then unmarshal val else Some zero_telemetry)
      in case tel of
           None \<Rightarrow> r
         | Some tel \<Rightarrow>
             if eventType = ''CREATE'' \<or> eventType = ''UPDATE'' then AddNode tel r
             else if eventType = ''DELETE'' then RemoveNode (PublicIP tel) r
             else r)"

definition HandleLastWatchEvent :: "(string \<Rightarrow> LastTelemetry option) \<Rightarrow> GlobalStats \<Rightarrow> string \<times> string \<times> string \<Rightarrow> GlobalStats result" where
  "HandleLastWatchEvent unmarshal gs ev =
     (let (eventType, key, val) = ev;
          st = (if length val > 0 then unmarshal val else Some zero_last)
      in case st of
           None \<Rightarrow> Inr gs
         | Some st \<Rightarrow>
             if eventType = ''CREATE'' \<or> eventType = ''UPDATE'' then rebuildAggregate (AddOrUpdateNode st gs)
             else if eventType = ''DELETE'' then rebuildAggregate (DelNode (lt_IP st) gs)
             else Inr gs)"

text \<open>The initial load of \<^verbatim>\<open>main\<close>.\<close>

definition load_nodes :: "(string \<Rightarrow> NodeTelemetry option) \<Rightarrow> (string, string) gomap \<Rightarrow> GraphManager" where
  "load_nodes unmarshal nodeMap = foldl (\<lambda>r nodeJson. case unmarshal nodeJson of None \<Rightarrow> r | Some tel \<Rightarrow> AddNode tel r)
     NewGraphManager (gm_vals nodeMap)"

definition load_last :: "(string \<Rightarrow> LastTelemetry option) \<Rightarrow> (string, string) gomap \<Rightarrow> GlobalStats result" where
  "load_last unmarshal lastMap = rebuildAggregate (foldl (\<lambda>gs lastJson. case unmarshal lastJson of
     None \<Rightarrow> gs | Some st \<Rightarrow> AddOrUpdateNode st gs) NewGlobalStats (gm_vals lastMap))"

text \<open>The graphs that can arise: the initial load followed by watch events.\<close>

inductive graph_reach :: "(string \<Rightarrow> NodeTelemetry option) \<Rightarrow> GraphManager \<Rightarrow> bool" for unmarshal where
  load: "graph_reach unmarshal (load_nodes unmarshal nodeMap)"
| watch: "graph_reach unmarshal g \<Longrightarrow> graph_reach unmarshal (HandleRoutingWatchEvent unmarshal g (watch_args ev))"

text \<open>
  The invariant of the graph: the maps have distinct keys, a node is stored under its address, an edge under
  the key of its ends, weights are not negative, an edge leaves a known node and enters a known node or an
  origin server.
\<close>

definition edge_ok :: "(string, NodeTelemetry) gomap \<Rightarrow> string \<times> Edge \<Rightarrow> bool" where
  "edge_ok ns ke = (fst ke = edge_key (SourceIp (snd ke)) (DestinationIp (snd ke)) \<and> 0 \<le> EdgeWeight (snd ke)
     \<and> SourceIp (snd ke) \<in> fst ` set ns
     \<and> (DestinationIp (snd ke) \<in> fst ` set ns \<or> (\<exists>ip port. DestinationIp (snd ke) = origin_addr ip port)))"

definition graph_inv :: "GraphManager \<Rightarrow> bool" where
  "graph_inv g = (gm_ok (g_edges g) \<and> gm_ok (g_nodes g) \<and> (\<forall>(k, n) \<in> set (g_nodes g). k = PublicIP n)
     \<and> (\<forall>ke \<in> set (g_edges g). edge_ok (g_nodes g) ke))"

text \<open>A sample node.\<close>

definition ex_node :: "string \<Rightarrow> string \<Rightarrow> real \<Rightarrow> NodeTelemetry" where
  "ex_node ip tgt lat = \<lparr>PublicIP = ip, nt_Provider = [], nt_Continent = [], nt_Country = [], nt_City = [], CpuPressure = 10,
     Cpu = zero_cpu, LinksCongestion = [(tgt, \<lparr>lc_TargetIP = tgt,
       lc_Target = \<lparr>TargetType = ''source'', pt_Provider = [], pt_IP = tgt, pt_Port = 80, Region = [], pt_ID = []\<rparr>,
       PacketLoss = 0, AverageLatency = lat\<rparr>)]\<rparr>"

section \<open>Lemmas: the edge risk\<close>

lemma EdgeRisk_eq:
  "EdgeRisk cpu loss lat = (if cpu < 50 then 0 else (cpu / 60) powr 2) / 2 + (max 0 (lat / 150)) powr (3 / 2) / 2"
  by (simp add: EdgeRisk_def Let_def max_def)

lemma EdgeRisk_nonneg: "0 \<le> EdgeRisk cpu loss lat"
  by (simp add: EdgeRisk_eq)

lemma EdgeRisk_mono:
  assumes "cpu \<le> cpu'" "lat \<le> lat'"
  shows "EdgeRisk cpu loss lat \<le> EdgeRisk cpu' loss' lat'"
proof -
  have "(if cpu < 50 then 0 else (cpu / 60) powr 2) \<le> (if cpu' < 50 then 0 else (cpu' / 60) powr 2)"
    using assms(1) by (auto intro!: powr_mono2)
  moreover have "(max 0 (lat / 150)) powr (3 / 2) \<le> (max 0 (lat' / 150)) powr (3 / 2)"
    using assms(2) by (intro powr_mono2) (auto simp: max_def field_simps)
  ultimately show ?thesis by (simp add: EdgeRisk_eq)
qed

section \<open>Lemmas: the graph\<close>

lemma set_update_sub: "set (gm_set m k v) \<subseteq> insert (k, v) (set m)"
  by (induction m) auto

lemma put_edge_simps [simp]:
  "g_nodes (put_edge src dst r load latency g) = g_nodes g"
  by (simp add: put_edge_def Let_def split: option.splits)

lemma add_link_nodes [simp]: "g_nodes (add_link src g v) = g_nodes g"
  by (simp add: add_link_def split: option.splits)

lemma set_edge_inv:
  assumes "graph_inv g" "edge_ok (g_nodes g) (k, e)"
  shows "graph_inv (g\<lparr>g_edges := gm_set (g_edges g) k e\<rparr>)"
  using assms set_update_sub [of k e "g_edges g"] by (auto simp: graph_inv_def distinct_update)

lemma put_edge_inv:
  assumes "graph_inv g" "src \<in> fst ` set (g_nodes g)" "0 \<le> r"
    and "dst \<in> fst ` set (g_nodes g) \<or> (\<exists>ip port. dst = origin_addr ip port)"
  shows "graph_inv (put_edge src dst r load latency g)"
proof (cases "gm_get (g_edges g) (edge_key src dst)")
  case None
  have "edge_ok (g_nodes g) (edge_key src dst,
      \<lparr>SourceIp = src, DestinationIp = dst, EdgeWeight = r, Load = load, Latency = latency, Loss = 0\<rparr>)"
    using assms(2-4) unfolding edge_ok_def by simp
  with None show ?thesis using assms(1) by (simp add: put_edge_def set_edge_inv)
next
  case (Some e)
  then have "edge_ok (g_nodes g) (edge_key src dst, e)" using assms(1) by (auto simp: graph_inv_def dest: map_of_SomeD)
  then have "edge_ok (g_nodes g) (edge_key src dst, e\<lparr>EdgeWeight := r\<rparr>)" using assms(3) by (simp add: edge_ok_def)
  with Some show ?thesis using assms(1) by (simp add: put_edge_def set_edge_inv)
qed

lemma add_link_inv:
  assumes "graph_inv g" "src \<in> fst ` set (g_nodes g)"
  shows "graph_inv (add_link src g v)"
proof (cases "TargetType (lc_Target v) = ''source''")
  case True
  then show ?thesis using assms EdgeRisk_nonneg by (auto simp: add_link_def intro!: put_edge_inv)
next
  case False
  show ?thesis
  proof (cases "gm_get (g_nodes g) (pt_IP (lc_Target v))")
    case (Some outNode)
    then have "pt_IP (lc_Target v) \<in> fst ` set (g_nodes g)" by (force dest: map_of_SomeD)
    with Some False assms EdgeRisk_nonneg show ?thesis by (auto simp: add_link_def intro!: put_edge_inv)
  qed (use False assms in \<open>simp add: add_link_def\<close>)
qed

lemma add_links_inv:
  "graph_inv g \<Longrightarrow> src \<in> fst ` set (g_nodes g) \<Longrightarrow> graph_inv (foldl (add_link src) g vs)"
  by (induction vs arbitrary: g) (auto simp: add_link_inv)

lemma AddNode_inv:
  assumes "graph_inv g"
  shows "graph_inv (AddNode n g)"
proof -
  let ?g = "g\<lparr>g_nodes := gm_set (g_nodes g) (PublicIP n) n\<rparr>"
  have dom: "fst ` set (g_nodes ?g) = insert (PublicIP n) (fst ` set (g_nodes g))" by (simp add: dom_update)
  have "edge_ok (g_nodes ?g) ke" if "ke \<in> set (g_edges g)" for ke
    using that assms dom by (auto simp: graph_inv_def edge_ok_def)
  then have "graph_inv ?g" using assms set_update_sub [of "PublicIP n" n "g_nodes g"]
    by (fastforce simp: graph_inv_def distinct_update)
  from add_links_inv [OF this, of "PublicIP n" "gm_vals (LinksCongestion n)"] dom show ?thesis by (simp add: AddNode_def)
qed

lemma RemoveNode_inv:
  assumes "graph_inv g"
  shows "graph_inv (RemoveNode i g)"
proof -
  have ok: "gm_ok (filter P (g_edges g))" "gm_ok (filter Q (g_nodes g))" for P Q
    using assms by (simp_all add: graph_inv_def distinct_map_filter)
  have dom: "fst ` set (gm_del (g_nodes g) i) = fst ` set (g_nodes g) - {i}" by (auto simp: AList.delete_eq)
  have "edge_ok (gm_del (g_nodes g) i) ke"
    if "ke \<in> set (g_edges g)" "SourceIp (snd ke) \<noteq> i" "DestinationIp (snd ke) \<noteq> i" for ke
    using that assms unfolding graph_inv_def edge_ok_def dom by blast
  then have "\<forall>ke \<in> set (g_edges (RemoveNode i g)). edge_ok (g_nodes (RemoveNode i g)) ke" by (auto simp: RemoveNode_def)
  moreover have "\<forall>(k, n) \<in> set (g_nodes (RemoveNode i g)). k = PublicIP n"
    using assms by (auto simp: RemoveNode_def AList.delete_eq graph_inv_def)
  ultimately show ?thesis using ok by (simp add: graph_inv_def RemoveNode_def AList.delete_eq)
qed

lemma watch_inv: "graph_inv g \<Longrightarrow> graph_inv (HandleRoutingWatchEvent unmarshal g ev)"
  by (auto simp: HandleRoutingWatchEvent_def Let_def AddNode_inv RemoveNode_inv split: option.splits prod.splits)

lemma load_inv: "graph_inv (load_nodes unmarshal nodeMap)"
proof -
  have "graph_inv g \<Longrightarrow> graph_inv (foldl (\<lambda>r nodeJson. case unmarshal nodeJson of None \<Rightarrow> r | Some tel \<Rightarrow> AddNode tel r) g js)" for g js
    by (induction js arbitrary: g) (auto simp: AddNode_inv split: option.splits)
  moreover have "graph_inv NewGraphManager" by (simp add: NewGraphManager_def graph_inv_def)
  ultimately show ?thesis unfolding load_nodes_def by blast
qed

lemma put_edge_old:
  assumes "gm_get (g_edges g) k = Some e"
  shows "\<exists>w. gm_get (g_edges (put_edge src dst r load latency g)) k = Some (e\<lparr>EdgeWeight := w\<rparr>)"
proof (cases "k = edge_key src dst")
  case True
  with assms show ?thesis by (auto simp: put_edge_def Let_def update_conv')
next
  case False
  with assms show ?thesis
    by (auto simp: put_edge_def Let_def update_conv' split: option.splits intro!: exI [of _ "EdgeWeight e"])
qed

lemma add_link_old:
  assumes "gm_get (g_edges g) k = Some e"
  shows "\<exists>w. gm_get (g_edges (add_link src g v)) k = Some (e\<lparr>EdgeWeight := w\<rparr>)"
  using assms put_edge_old [OF assms] by (auto simp: add_link_def split: option.splits intro!: exI [of _ "EdgeWeight e"])

lemma add_links_old:
  assumes "gm_get (g_edges g) k = Some e"
  shows "\<exists>w. gm_get (g_edges (foldl (add_link src) g vs)) k = Some (e\<lparr>EdgeWeight := w\<rparr>)"
  using assms
proof (induction vs arbitrary: g e)
  case Nil
  then show ?case by (auto intro!: exI [of _ "EdgeWeight e"])
next
  case (Cons v vs)
  obtain w where "gm_get (g_edges (add_link src g v)) k = Some (e\<lparr>EdgeWeight := w\<rparr>)"
    using add_link_old [OF Cons.prems] by blast
  from Cons.IH [OF this] show ?case by simp
qed

section \<open>Properties\<close>

text \<open>
  The weight of an edge is never negative, grows with the CPU pressure of the target and with the
  latency of the link, and does not depend on its packet loss.
\<close>

lemma EdgeRisk_bounds:
  "0 \<le> EdgeRisk cpu loss lat \<and> EdgeRisk cpu loss lat \<le> EdgeRisk (cpu + max 0 dc) loss' (lat + max 0 dl)
     \<and> EdgeRisk cpu loss lat = EdgeRisk cpu loss' lat"
  using EdgeRisk_nonneg [of cpu loss lat] EdgeRisk_mono [of cpu "cpu + max 0 dc" lat "lat + max 0 dl" loss loss']
  by (simp add: EdgeRisk_eq [of cpu])

text \<open>
  C21: Whatever telemetry arrives, in whatever order and from whatever decoder: in every graph the control
  plane can reach, nodes and edges are stored under their own keys, no two edges join the same ends, weights
  are not negative, and every edge leaves a known node and enters a known node or an origin server.
\<close>

theorem graph_invariant:
  assumes "graph_reach unmarshal g"
  shows "graph_inv g"
  using assms by (induction rule: graph_reach.induct) (auto simp: load_inv watch_inv)

theorem graph_invariant_witness:
  "graph_inv (HandleRoutingWatchEvent (\<lambda>_. Some (ex_node ''1.1.1.1'' ''9.9.9.9'' 5))
     (load_nodes (\<lambda>_. Some (ex_node ''1.1.1.1'' ''9.9.9.9'' 5)) [(''k'', ''v'')]) (watch_args (EDelete ''k'')))"
  by (rule graph_invariant [OF graph_reach.watch [OF graph_reach.load]])

text \<open>
  C22: A node whose key is deleted in etcd, or expires there, stays in the graph with all its edges, and its
  latency report stays in the statistics: the delete event has an empty value, the handlers take the address
  to remove from that value, and no node has an empty address.
\<close>

theorem delete_event_removes_nothing:
  assumes "\<forall>k \<in> fst ` set (g_nodes g). k \<noteq> []" "\<forall>e \<in> snd ` set (g_edges g). SourceIp e \<noteq> [] \<and> DestinationIp e \<noteq> []"
    and "\<forall>k \<in> fst ` set (nodeLast gs). k \<noteq> []"
  shows "HandleRoutingWatchEvent unmarshal g (watch_args (EDelete key)) = g
    \<and> HandleLastWatchEvent unmarshal' gs (watch_args (EDelete key)) = rebuildAggregate gs"
proof
  have "filter (\<lambda>(k, _). [] \<noteq> k) (g_nodes g) = g_nodes g" using assms(1) by (intro filter_True) auto
  moreover have "filter (\<lambda>(k, e). \<not> (SourceIp e = [] \<or> DestinationIp e = [])) (g_edges g) = g_edges g"
    using assms(2) by (intro filter_True) auto
  ultimately show "HandleRoutingWatchEvent unmarshal g (watch_args (EDelete key)) = g"
    by (simp add: HandleRoutingWatchEvent_def RemoveNode_def zero_telemetry_def AList.delete_eq)
  have "filter (\<lambda>(k, _). [] \<noteq> k) (nodeLast gs) = nodeLast gs" using assms(3) by (intro filter_True) auto
  then show "HandleLastWatchEvent unmarshal' gs (watch_args (EDelete key)) = rebuildAggregate gs"
    by (simp add: HandleLastWatchEvent_def DelNode_def zero_last_def AList.delete_eq)
qed

theorem delete_event_removes_nothing_witness:
  "\<exists>g gs. g = AddNode (ex_node ''1.1.1.1'' ''9.9.9.9'' 5) NewGraphManager \<and> gs = AddOrUpdateNode ex_last NewGlobalStats
     \<and> GetNode ''1.1.1.1'' (HandleRoutingWatchEvent (\<lambda>_. None) g (watch_args (EDelete ''/routing-middle/1.1.1.1''))) \<noteq> None
     \<and> HandleLastWatchEvent (\<lambda>_. None) gs (watch_args (EDelete ''/routing-last/1.1.1.1'')) = rebuildAggregate gs"
proof (intro exI conjI)
  let ?g = "AddNode (ex_node ''1.1.1.1'' ''9.9.9.9'' 5) NewGraphManager" and ?gs = "AddOrUpdateNode ex_last NewGlobalStats"
  have "\<forall>k \<in> fst ` set (g_nodes ?g). k \<noteq> []" "\<forall>e \<in> snd ` set (g_edges ?g). SourceIp e \<noteq> [] \<and> DestinationIp e \<noteq> []"
    "\<forall>k \<in> fst ` set (nodeLast ?gs). k \<noteq> []"
    by (simp_all add: AddNode_def ex_node_def NewGraphManager_def add_link_def put_edge_def origin_addr_def
        AddOrUpdateNode_def NewGlobalStats_def ex_last_def)
  note r = delete_event_removes_nothing [OF this, of "\<lambda>_. None" _ "\<lambda>_. None"]
  show "HandleLastWatchEvent (\<lambda>_. None) ?gs (watch_args (EDelete ''/routing-last/1.1.1.1'')) = rebuildAggregate ?gs" using r by blast
  have "GetNode ''1.1.1.1'' ?g \<noteq> None" by (simp add: GetNode_def AddNode_def ex_node_def NewGraphManager_def)
  then show "GetNode ''1.1.1.1'' (HandleRoutingWatchEvent (\<lambda>_. None) ?g (watch_args (EDelete ''/routing-middle/1.1.1.1''))) \<noteq> None"
    using r by metis
qed simp_all

text \<open>
  The latency, load and loss of an edge are those of the first report that made the edge: a later report of
  the node replaces the edge's weight and nothing else, although path latencies are computed from the edge's
  latency.
\<close>

lemma edge_latency_frozen:
  assumes "GetEdge key g = Some e"
  shows "\<exists>w. GetEdge key (AddNode n g) = Some (e\<lparr>EdgeWeight := w\<rparr>)"
  using add_links_old [of "g\<lparr>g_nodes := gm_set (g_nodes g) (PublicIP n) n\<rparr>" key e] assms
  by (simp add: GetEdge_def AddNode_def)

end
