(* ===== verification/Link_Probing.thy ===== *)
theory Link_Probing
  imports Graph_Manager
begin

text \<open>
  The link probes of a node: \<^verbatim>\<open>src/data-plane/probing/tcpprobe.go\<close> and \<^verbatim>\<open>get-task.go\<close>, and the links of a report built from
  them in \<^verbatim>\<open>src/data-plane/collector/links.go\<close>. The network is the environment: the outcome and the duration of every dial are
  arguments, in nanoseconds. The worker goroutines of a round are a step relation. The probe task and the link of
  the data plane are field by field those of the control plane.
\<close>

section \<open>Definitions\<close>

text \<open>The outcome of a dial: a connection, an error that is a timeout, another error; each after some time.\<close>

datatype dial = Connected int | TimedOut int | Refused int

record ProbeConfig =
  Concurrency :: int
  probe_Timeout :: int
  Interval :: int
  probe_Attempts :: int

record Result =
  r_Target :: ProbeTask
  Attempts :: int
  Failures :: int
  LossRate :: real
  AvgRTT :: int

definition updateLatestResults :: "Result list \<Rightarrow> (string, Result) gomap \<Rightarrow> (string, Result) gomap" where
  "updateLatestResults results latest = foldl (\<lambda>m r. gm_set m (pt_IP (r_Target r)) r) latest results"

definition GetLatestResults :: "(string, Result) gomap \<Rightarrow> (string, Result) gomap" where
  "GetLatestResults latest = foldl (\<lambda>copied kv. gm_set copied (fst kv) (snd kv)) [] latest"

definition probe_defaults :: "ProbeConfig \<Rightarrow> ProbeConfig" where
  "probe_defaults cfg =
     (let cfg = (if Concurrency cfg \<le> 0 then cfg\<lparr>Concurrency := 4\<rparr> else cfg);
          cfg = (if probe_Timeout cfg \<le> 0 then cfg\<lparr>probe_Timeout := 2 * 10 ^ 9\<rparr> else cfg);
          cfg = (if Interval cfg \<le> 0 then cfg\<lparr>Interval := 5 * 10 ^ 9\<rparr> else cfg)
      in if probe_Attempts cfg \<le> 0 then cfg\<lparr>probe_Attempts := 5\<rparr> else cfg)"

text \<open>The counters of one target, and the effect of one attempt: an error that is no timeout counts as an answer.\<close>

record tally =
  failures :: int
  totalRTT :: int
  successes :: int

fun count_attempt :: "tally \<Rightarrow> dial \<Rightarrow> tally" where
  "count_attempt s (TimedOut rtt) = s\<lparr>failures := failures s + 1\<rparr>"
| "count_attempt s (Refused rtt) = s\<lparr>successes := successes s + 1, totalRTT := totalRTT s + rtt\<rparr>"
| "count_attempt s (Connected rtt) = s\<lparr>successes := successes s + 1, totalRTT := totalRTT s + rtt\<rparr>"

definition count_attempts :: "dial list \<Rightarrow> tally" where
  "count_attempts ds = foldl count_attempt \<lparr>failures = 0, totalRTT = 0, successes = 0\<rparr> ds"

definition probe_target :: "ProbeConfig \<Rightarrow> ProbeTask \<Rightarrow> (nat \<Rightarrow> dial) \<Rightarrow> Result" where
  "probe_target cfg target dials =
     (let s = count_attempts (map dials [0..<nat (probe_Attempts cfg)]);
          avgRTT = (if successes s > 0 then totalRTT s div successes s else 0);
          avgRTT = (if avgRTT \<le> 0 then 1 else avgRTT)
      in \<lparr>r_Target = target, Attempts = probe_Attempts cfg, Failures = failures s,
          LossRate = of_int (failures s) / of_int (probe_Attempts cfg), AvgRTT = avgRTT\<rparr>)"

text \<open>
  A round: the targets not yet taken from the channel, what each worker is busy with, and the results. A worker takes
  the next target when it is idle and appends the result when it is done.
\<close>

record probe_round =
  round_jobs :: "ProbeTask list"
  round_busy :: "ProbeTask option list"
  roundResults :: "Result list"

inductive probe_step :: "ProbeConfig \<Rightarrow> probe_round \<Rightarrow> probe_round \<Rightarrow> bool" for cfg where
  job_taken: "round_jobs s = t # ts \<Longrightarrow> w < length (round_busy s) \<Longrightarrow> round_busy s ! w = None
    \<Longrightarrow> probe_step cfg s (s\<lparr>round_jobs := ts, round_busy := (round_busy s)[w := Some t]\<rparr>)"
| job_done: "w < length (round_busy s) \<Longrightarrow> round_busy s ! w = Some t
    \<Longrightarrow> probe_step cfg s (s\<lparr>round_busy := (round_busy s)[w := None], roundResults := roundResults s @ [probe_target cfg t dials]\<rparr>)"

definition round_start :: "ProbeConfig \<Rightarrow> ProbeTask list \<Rightarrow> probe_round" where
  "round_start cfg targets = \<lparr>round_jobs = targets, round_busy = replicate (nat (Concurrency cfg)) None, roundResults = []\<rparr>"

text \<open>The wait group is released when the channel is drained and every worker is idle.\<close>

definition round_done :: "probe_round \<Rightarrow> bool" where
  "round_done s = (round_jobs s = [] \<and> list_all (\<lambda>b. b = None) (round_busy s))"

inductive doProbeLossRTT :: "ProbeConfig \<Rightarrow> ProbeTask list \<Rightarrow> (string, Result) gomap \<Rightarrow> (string, Result) gomap \<Rightarrow> bool" where
  round: "(probe_step cfg)\<^sup>*\<^sup>* (round_start cfg targets) s \<Longrightarrow> round_done s
    \<Longrightarrow> doProbeLossRTT cfg targets latest (updateLatestResults (roundResults s) latest)"

text \<open>Asking for the tasks: the transport, reading the body and decoding it are arguments.\<close>

definition TaskURL :: string where "TaskURL = ''/api/v1/probe/tasks''"

definition fetch_tasks ::
  "(string \<Rightarrow> string + 'resp) \<Rightarrow> ('resp \<Rightarrow> string + string) \<Rightarrow> (string \<Rightarrow> string + int \<times> string \<times> ProbeTask list) \<Rightarrow> string \<Rightarrow> ProbeTask list result" where
  "fetch_tasks get readAll unmarshal controlHost =
     (case get (controlHost @ TaskURL) of
        Inl err \<Rightarrow> Inl (GoError (''request api failed: '' @ err))
      | Inr resp \<Rightarrow>
          (case readAll resp of
             Inl err \<Rightarrow> Inl (GoError (''read response failed: '' @ err))
           | Inr body \<Rightarrow>
               (case unmarshal body of
                  Inl err \<Rightarrow> Inl (GoError (''parse json failed: '' @ err))
                | Inr (code, msg, tasks) \<Rightarrow>
                    if code \<noteq> 200 then Inl (GoError (''api returned error: '' @ itoa code @ '' '' @ msg)) else Inr tasks)))"

text \<open>One tick of \<^verbatim>\<open>StartProbePeriodically\<close>: without tasks the results stay, otherwise a round is run.\<close>

inductive probe_tick :: "ProbeConfig \<Rightarrow> ProbeTask list result \<Rightarrow> (string, Result) gomap \<Rightarrow> (string, Result) gomap \<Rightarrow> bool" where
  no_tasks: "probe_tick cfg (Inl err) latest latest"
| tasks: "doProbeLossRTT (probe_defaults cfg) targets latest latest' \<Longrightarrow> probe_tick cfg (Inr targets) latest latest'"

text \<open>The links of a report; the order of the map is the order of the links.\<close>

definition BuildLinkCongestion :: "(string, Result) gomap \<Rightarrow> LinkCongestion list" where
  "BuildLinkCongestion latest = map (\<lambda>(target, r). \<lparr>lc_TargetIP = target, lc_Target = r_Target r, PacketLoss = LossRate r,
     AverageLatency = of_int (AvgRTT r div 10 ^ 6)\<rparr>) (GetLatestResults latest)"

text \<open>The results that can be there, the specification of one result, and the work left in a round.\<close>

definition latest_inv :: "(string, Result) gomap \<Rightarrow> bool" where
  "latest_inv latest = (gm_ok latest
     \<and> (\<forall>(k, r) \<in> set latest. k = pt_IP (r_Target r) \<and> 1 \<le> AvgRTT r \<and> 0 \<le> LossRate r \<and> LossRate r \<le> 1))"

fun answer_time :: "dial \<Rightarrow> int option" where
  "answer_time (TimedOut rtt) = None"
| "answer_time (Refused rtt) = Some rtt"
| "answer_time (Connected rtt) = Some rtt"

definition busy_jobs :: "probe_round \<Rightarrow> ProbeTask list" where
  "busy_jobs s = List.map_filter id (round_busy s)"

definition round_work :: "probe_round \<Rightarrow> nat" where
  "round_work s = 2 * length (round_jobs s) + length (busy_jobs s)"

text \<open>The end of the edge a link stands for, the load that goes into its weight if its target is known, and the link of a result.\<close>

definition link_dst :: "LinkCongestion \<Rightarrow> string" where
  "link_dst v = (if TargetType (lc_Target v) = ''source'' then origin_addr (pt_IP (lc_Target v)) (pt_Port (lc_Target v)) else pt_IP (lc_Target v))"

definition link_load :: "(string, NodeTelemetry) gomap \<Rightarrow> LinkCongestion \<Rightarrow> real option" where
  "link_load ns v = (if TargetType (lc_Target v) = ''source'' then Some 0 else map_option CpuPressure (gm_get ns (pt_IP (lc_Target v))))"

definition result_link :: "Result \<Rightarrow> LinkCongestion" where
  "result_link r = \<lparr>lc_TargetIP = pt_IP (r_Target r), lc_Target = r_Target r, PacketLoss = LossRate r, AverageLatency = of_int (AvgRTT r div 10 ^ 6)\<rparr>"

text \<open>Samples: a configuration, a target and the round of one worker over it.\<close>

definition ex_probe :: ProbeConfig where
  "ex_probe = \<lparr>Concurrency = 1, probe_Timeout = 2 * 10 ^ 9, Interval = 5 * 10 ^ 9, probe_Attempts = 2\<rparr>"

definition ex_task :: ProbeTask where
  "ex_task = \<lparr>TargetType = ''source'', pt_Provider = [], pt_IP = ''192.0.2.7'', pt_Port = 80, Region = [], pt_ID = []\<rparr>"

definition ex_dead :: Result where
  "ex_dead = probe_target ex_probe ex_task (\<lambda>a. TimedOut (2 * 10 ^ 9))"

definition ex_node_config :: NodeConfig where
  "ex_node_config = \<lparr>cfg_PublicIP = ''10.0.0.1'', cfg_Provider = [], cfg_Continent = [], cfg_Country = [], cfg_City = []\<rparr>"

definition ex_probe_report :: "(string, Result) gomap \<Rightarrow> VMReport" where
  "ex_probe_report latest = \<lparr>VMID = ''vm'', CollectTime = 1, ReportID = [], rep_CPU = zero_cpu,
     rep_Memory = \<lparr>mem_Total = 1, mem_Used = 0, mem_Free = 1, mem_Usage = 0\<rparr>,
     rep_Disk = \<lparr>disk_Total = 1, disk_Used = 0, disk_Free = 1, disk_Usage = 0, disk_Path = ''/''\<rparr>,
     rep_Network = \<lparr>net_PublicIP = ''10.0.0.1'', net_PrivateIP = [], PortCount = 0, TrafficIn = 0, TrafficOut = 0\<rparr>,
     rep_OS = \<lparr>OSName = [], KernelVer = [], Hostname = [], BootTime = 0\<rparr>,
     rep_Process = \<lparr>ActiveCount = 0, TopCPU = [], TopMem = []\<rparr>, rep_Links = BuildLinkCongestion latest\<rparr>"

section \<open>Lemmas: one target\<close>

lemma count_attempts_spec:
  "count_attempts ds = \<lparr>failures = int (length (filter (\<lambda>d. answer_time d = None) ds)),
     totalRTT = sum_list (List.map_filter answer_time ds), successes = int (length (List.map_filter answer_time ds))\<rparr>"
proof -
  have "foldl count_attempt s ds = s\<lparr>failures := failures s + int (length (filter (\<lambda>d. answer_time d = None) ds)),
      totalRTT := totalRTT s + sum_list (List.map_filter answer_time ds),
      successes := successes s + int (length (List.map_filter answer_time ds))\<rparr>" for s
  proof (induction ds arbitrary: s)
    case (Cons d ds)
    then show ?case by (cases d) (simp_all add: map_filter_simps)
  qed (simp add: map_filter_simps)
  then show ?thesis by (simp add: count_attempts_def)
qed

lemma probe_target_simps [simp]:
  "r_Target (probe_target cfg t dials) = t" "Attempts (probe_target cfg t dials) = probe_Attempts cfg"
  by (simp_all add: probe_target_def Let_def)

lemma probe_target_bounds:
  "1 \<le> AvgRTT (probe_target cfg t dials)" "0 \<le> LossRate (probe_target cfg t dials)" "LossRate (probe_target cfg t dials) \<le> 1"
proof -
  show "1 \<le> AvgRTT (probe_target cfg t dials)" by (simp add: probe_target_def Let_def)
  let ?ds = "map dials [0..<nat (probe_Attempts cfg)]"
  have "length (filter (\<lambda>d. answer_time d = None) ?ds) \<le> nat (probe_Attempts cfg)"
    by (rule order_trans [OF length_filter_le]) simp
  then have "failures (count_attempts ?ds) \<le> probe_Attempts cfg \<or> probe_Attempts cfg \<le> 0 \<and> failures (count_attempts ?ds) = 0"
    by (auto simp: count_attempts_spec)
  moreover have "0 \<le> failures (count_attempts ?ds)" by (simp add: count_attempts_spec)
  ultimately show "0 \<le> LossRate (probe_target cfg t dials)" "LossRate (probe_target cfg t dials) \<le> 1"
    by (auto simp: probe_target_def Let_def divide_le_eq_1 zero_le_divide_iff)
qed

lemma dead_target:
  assumes "0 < probe_Attempts cfg" "\<And>a. a < nat (probe_Attempts cfg) \<Longrightarrow> answer_time (dials a) = None"
  shows "AvgRTT (probe_target cfg t dials) = 1" "LossRate (probe_target cfg t dials) = 1"
proof -
  let ?ds = "map dials [0..<nat (probe_Attempts cfg)]"
  have "List.map_filter answer_time ?ds = []" using assms(2) by (auto simp: map_filter_def filter_empty_conv)
  moreover have "filter (\<lambda>d. answer_time d = None) ?ds = ?ds" using assms(2) by (auto simp: filter_id_conv)
  ultimately show "AvgRTT (probe_target cfg t dials) = 1" "LossRate (probe_target cfg t dials) = 1"
    using assms(1) by (simp_all add: probe_target_def Let_def count_attempts_spec del: map_map)
qed

section \<open>Lemmas: a round\<close>

lemma map_filter_update:
  assumes "w < length bs"
  shows "mset (List.map_filter id (bs[w := b])) = mset (List.map_filter id bs) - mset_set (set_option (bs ! w)) + mset_set (set_option b)"
proof -
  have bs: "bs = take w bs @ bs ! w # drop (Suc w) bs" using assms by (rule id_take_nth_drop)
  have upd: "bs[w := b] = take w bs @ b # drop (Suc w) bs" using assms by (rule upd_conv_take_nth_drop)
  have split: "List.map_filter id (xs @ c # ys) = List.map_filter id xs @ (case c of None \<Rightarrow> [] | Some x \<Rightarrow> [x]) @ List.map_filter id ys"
    for xs ys and c :: "'a option" by (induction xs) (simp_all add: map_filter_simps split: option.splits)
  have old: "mset (List.map_filter id bs) = mset (List.map_filter id (take w bs)) + mset_set (set_option (bs ! w))
      + mset (List.map_filter id (drop (Suc w) bs))"
    by (subst bs, subst split) (simp split: option.splits)
  have new: "mset (List.map_filter id (bs[w := b])) = mset (List.map_filter id (take w bs)) + mset_set (set_option b)
      + mset (List.map_filter id (drop (Suc w) bs))"
    by (subst upd, subst split) (simp split: option.splits)
  show ?thesis unfolding old new by simp
qed

lemma busy_jobs_empty: "busy_jobs s = [] \<longleftrightarrow> list_all (\<lambda>b. b = None) (round_busy s)"
  by (auto simp: busy_jobs_def map_filter_def filter_empty_conv list_all_iff)

lemma step_jobs:
  assumes "probe_step cfg s s'"
  shows "mset (map r_Target (roundResults s')) + mset (busy_jobs s') + mset (round_jobs s')
           = mset (map r_Target (roundResults s)) + mset (busy_jobs s) + mset (round_jobs s)"
    and "round_work s = Suc (round_work s')" and "length (round_busy s') = length (round_busy s)"
  using assms
proof -
  have "mset (map r_Target (roundResults s')) + mset (busy_jobs s') + mset (round_jobs s')
          = mset (map r_Target (roundResults s)) + mset (busy_jobs s) + mset (round_jobs s)
        \<and> round_work s = Suc (round_work s') \<and> length (round_busy s') = length (round_busy s)"
    using assms
  proof cases
    case (job_taken t ts w)
    have "mset (busy_jobs s') = add_mset t (mset (busy_jobs s))"
      using job_taken by (simp add: busy_jobs_def map_filter_update)
    then have "length (busy_jobs s') = Suc (length (busy_jobs s))" by (metis size_add_mset size_mset)
    with job_taken \<open>mset (busy_jobs s') = _\<close> show ?thesis by (simp add: round_work_def)
  next
    case (job_done w t dials)
    then have "Some t \<in> set (round_busy s)" by (metis nth_mem)
    then have "t \<in># mset (busy_jobs s)" by (force simp: busy_jobs_def map_filter_def)
    moreover have "mset (busy_jobs s') = mset (busy_jobs s) - {#t#}"
      using job_done by (simp add: busy_jobs_def map_filter_update)
    ultimately have eq: "mset (busy_jobs s) = add_mset t (mset (busy_jobs s'))" by simp
    then have "length (busy_jobs s) = Suc (length (busy_jobs s'))" by (metis size_add_mset size_mset)
    with job_done eq show ?thesis by (simp add: round_work_def)
  qed
  then show "mset (map r_Target (roundResults s')) + mset (busy_jobs s') + mset (round_jobs s')
           = mset (map r_Target (roundResults s)) + mset (busy_jobs s) + mset (round_jobs s)"
    "round_work s = Suc (round_work s')" "length (round_busy s') = length (round_busy s)" by auto
qed

lemma step_progress:
  assumes "\<not> round_done s" "round_busy s \<noteq> []"
  shows "\<exists>s'. probe_step cfg s s'"
proof (cases "busy_jobs s = []")
  case True
  then have "round_busy s ! 0 = None" "round_jobs s \<noteq> []"
    using assms by (auto simp: busy_jobs_empty list_all_iff round_done_def)
  with assms(2) show ?thesis by (metis job_taken length_greater_0_conv list.exhaust)
next
  case False
  then obtain b where "b \<in> set (round_busy s)" "b \<noteq> None" by (auto simp: busy_jobs_empty list_all_iff)
  then show ?thesis by (metis in_set_conv_nth job_done not_None_eq)
qed

lemma step_results:
  assumes "probe_step cfg s s'" "\<forall>r \<in> set (roundResults s). \<exists>dials. r = probe_target cfg (r_Target r) dials"
  shows "\<forall>r \<in> set (roundResults s'). \<exists>dials. r = probe_target cfg (r_Target r) dials"
  using assms by cases auto

lemma run_invariant:
  assumes "(probe_step cfg ^^ n) (round_start cfg targets) s"
  shows "mset (map r_Target (roundResults s)) + mset (busy_jobs s) + mset (round_jobs s) = mset targets
    \<and> n + round_work s = 2 * length targets \<and> length (round_busy s) = nat (Concurrency cfg)
    \<and> (\<forall>r \<in> set (roundResults s). \<exists>dials. r = probe_target cfg (r_Target r) dials)"
  using assms
proof (induction n arbitrary: s)
  case 0
  have "busy_jobs (round_start cfg targets) = []"
    by (simp add: busy_jobs_empty round_start_def list_all_iff)
  with 0 show ?case by (auto simp: round_start_def round_work_def)
next
  case (Suc n)
  then obtain u where u: "(probe_step cfg ^^ n) (round_start cfg targets) u" "probe_step cfg u s" by auto
  from Suc.IH [OF u(1)] step_jobs [OF u(2)] step_results [OF u(2)] show ?case by simp
qed

text \<open>A round runs at most two steps per target, cannot get stuck, and ends with one result per target.\<close>

lemma round_terminates:
  assumes "0 < Concurrency cfg" "(probe_step cfg ^^ n) (round_start cfg targets) s"
  shows "n \<le> 2 * length targets" "round_done s \<longleftrightarrow> \<not> (\<exists>s'. probe_step cfg s s')"
    "round_done s \<Longrightarrow> mset (map r_Target (roundResults s)) = mset targets"
proof -
  note inv = run_invariant [OF assms(2)]
  show "n \<le> 2 * length targets" using inv by linarith
  have busy: "round_busy s \<noteq> []" using inv assms(1) by auto
  have "round_work s = 0" if "round_done s"
    using that by (simp add: round_work_def round_done_def busy_jobs_empty)
  then show "round_done s \<longleftrightarrow> \<not> (\<exists>s'. probe_step cfg s s')"
    using step_progress [OF _ busy] step_jobs(2) by (metis Zero_not_Suc)
  show "mset (map r_Target (roundResults s)) = mset targets" if "round_done s"
    using inv that by (simp add: round_done_def busy_jobs_empty [symmetric])
qed

section \<open>Lemmas: the results\<close>

lemma updateLatest_get:
  "gm_get (updateLatestResults rs latest) ip = (case filter (\<lambda>r. pt_IP (r_Target r) = ip) rs of [] \<Rightarrow> gm_get latest ip | r # rs' \<Rightarrow> Some (last (r # rs')))"
  unfolding updateLatestResults_def
  by (induction rs arbitrary: latest) (auto simp: update_conv' split: list.splits)

lemma updateLatest_inv:
  assumes "latest_inv latest"
    and "\<And>r. r \<in> set rs \<Longrightarrow> 1 \<le> AvgRTT r \<and> 0 \<le> LossRate r \<and> LossRate r \<le> 1"
  shows "latest_inv (updateLatestResults rs latest)"
  using assms unfolding updateLatestResults_def
proof (induction rs arbitrary: latest)
  case (Cons r rs)
  have "latest_inv (gm_set latest (pt_IP (r_Target r)) r)"
    using Cons.prems set_update_sub [of "pt_IP (r_Target r)" r latest] by (fastforce simp: latest_inv_def distinct_update)
  with Cons show ?case by simp
qed simp

lemma GetLatestResults_copy: "gm_ok latest \<Longrightarrow> GetLatestResults latest = latest"
  by (simp add: GetLatestResults_def gm_copy)

lemma probe_tick_inv:
  assumes "probe_tick cfg tasks latest latest'" "latest_inv latest"
  shows "latest_inv latest'"
  using assms
proof cases
  case (tasks targets)
  from tasks(2) obtain s where s: "(probe_step (probe_defaults cfg))\<^sup>*\<^sup>* (round_start (probe_defaults cfg) targets) s"
    "latest' = updateLatestResults (roundResults s) latest" by cases auto
  then obtain n where "(probe_step (probe_defaults cfg) ^^ n) (round_start (probe_defaults cfg) targets) s"
    by (auto dest: rtranclp_imp_relpowp)
  note inv = run_invariant [OF this]
  have "1 \<le> AvgRTT r \<and> 0 \<le> LossRate r \<and> LossRate r \<le> 1" if r: "r \<in> set (roundResults s)" for r
  proof -
    from inv r obtain dials where "r = probe_target (probe_defaults cfg) (r_Target r) dials" by blast
    then show ?thesis using probe_target_bounds by metis
  qed
  with assms(2) s(2) show ?thesis by (simp add: updateLatest_inv)
qed simp

section \<open>Lemmas: from the results to the graph\<close>

text \<open>A report with one link per target reaches the telemetry of the node unchanged.\<close>

lemma single_links:
  assumes "distinct (map lc_TargetIP links)"
  shows "map group_mean (foldl group_link [] links) = map (\<lambda>v. (lc_TargetIP v, v)) links"
proof -
  define G where "G v = (lc_TargetIP v, \<lparr>g_TargetIP = lc_TargetIP v, g_Task = lc_Target v, PacketLosses = [PacketLoss v],
    AverageLatencies = [AverageLatency v]\<rparr>)" for v :: LinkCongestion
  have "foldl group_link (map G pre) links = map G (pre @ links)" if "distinct (map lc_TargetIP (pre @ links))" for pre
    using that
  proof (induction links arbitrary: pre)
    case (Cons v links)
    have fresh: "lc_TargetIP v \<notin> fst ` set (map G pre)" using Cons.prems by (auto simp: G_def)
    then have "gm_get (map G pre) (lc_TargetIP v) = None" by (simp add: map_of_eq_None_iff)
    then have "group_link (map G pre) v = map G (pre @ [v])"
      by (simp add: group_link_def Let_def gm_set_new [OF fresh]) (simp add: G_def)
    with Cons.IH [of "pre @ [v]"] Cons.prems show ?case by simp
  qed simp
  from this [of "[]"] assms have "foldl group_link [] links = map G links" by simp
  moreover have "group_mean (G v) = (lc_TargetIP v, v)" for v by (simp add: group_mean_def G_def avg_def Let_def)
  ultimately show ?thesis by simp
qed

lemma edge_key_dst [simp]: "edge_key src a = edge_key src b \<longleftrightarrow> a = b"
  by (simp add: edge_key_def)

lemma add_link_other: "dst \<noteq> link_dst v \<Longrightarrow> gm_get (g_edges (add_link src g v)) (edge_key src dst) = gm_get (g_edges g) (edge_key src dst)"
  by (cases "TargetType (lc_Target v) = ''source''")
    (auto simp: add_link_def put_edge_def link_dst_def Let_def update_conv' split: option.split)

lemma add_link_this:
  "link_load (g_nodes g) v = Some cpu \<Longrightarrow> \<exists>e. gm_get (g_edges (add_link src g v)) (edge_key src (link_dst v)) = Some e
     \<and> EdgeWeight e = EdgeRisk cpu (PacketLoss v) (AverageLatency v)"
  by (auto simp: add_link_def put_edge_def link_dst_def link_load_def Let_def update_conv' split: option.splits if_splits)

lemma add_links_get:
  assumes "v \<in> set vs" "distinct (map link_dst vs)" "link_load (g_nodes g) v = Some cpu"
  shows "\<exists>e. gm_get (g_edges (foldl (add_link src) g vs)) (edge_key src (link_dst v)) = Some e
    \<and> EdgeWeight e = EdgeRisk cpu (PacketLoss v) (AverageLatency v)"
proof -
  have keep: "link_dst v \<notin> link_dst ` set ws \<Longrightarrow>
      gm_get (g_edges (foldl (add_link src) h ws)) (edge_key src (link_dst v)) = gm_get (g_edges h) (edge_key src (link_dst v))" for h ws
    by (induction ws arbitrary: h) (auto simp: add_link_other)
  show ?thesis using assms
  proof (induction vs arbitrary: g)
    case (Cons w vs)
    show ?case
    proof (cases "v = w")
      case True
      with Cons.prems have "link_dst v \<notin> link_dst ` set vs" by auto
      with keep [OF this] add_link_this [OF Cons.prems(3)] True show ?thesis by simp
    next
      case False
      with Cons show ?thesis by simp
    qed
  qed simp
qed

lemma distinct_link_dst:
  assumes "distinct (map lc_TargetIP vs)"
    and "\<And>v. v \<in> set vs \<Longrightarrow> lc_TargetIP v = pt_IP (lc_Target v) \<and> CHR '':'' \<notin> set (lc_TargetIP v)"
  shows "distinct (map link_dst vs)"
proof -
  have ip: "takeWhile (\<lambda>c. c \<noteq> CHR '':'') (link_dst v) = lc_TargetIP v" if "v \<in> set vs" for v
    using assms(2) [OF that] by (auto simp: link_dst_def origin_addr_def takeWhile_append takeWhile_eq_all_conv)
  have "inj_on link_dst (set vs)"
  proof (rule inj_onI)
    fix v w assume vw: "v \<in> set vs" "w \<in> set vs" "link_dst v = link_dst w"
    then have "lc_TargetIP v = lc_TargetIP w" using ip by metis
    with assms(1) vw show "v = w" by (auto simp: distinct_map inj_on_def)
  qed
  with assms(1) show ?thesis by (simp add: distinct_map)
qed

lemma BuildLinkCongestion_links:
  assumes "latest_inv latest"
  shows "BuildLinkCongestion latest = map (\<lambda>kr. result_link (snd kr)) latest"
    and "distinct (map lc_TargetIP (BuildLinkCongestion latest))"
proof -
  have ok: "gm_ok latest" using assms by (simp add: latest_inv_def)
  show eq: "BuildLinkCongestion latest = map (\<lambda>kr. result_link (snd kr)) latest"
    using assms by (auto simp: BuildLinkCongestion_def GetLatestResults_copy [OF ok] result_link_def latest_inv_def)
  have "map lc_TargetIP (BuildLinkCongestion latest) = map fst latest"
    using assms unfolding eq by (auto simp: result_link_def latest_inv_def)
  with ok show "distinct (map lc_TargetIP (BuildLinkCongestion latest))" by simp
qed

text \<open>
  What a node measured last for a known target is, after its report, the weight of the edge to the target.
\<close>

lemma reported_edge:
  assumes "latest_inv latest" "\<And>k. k \<in> fst ` set latest \<Longrightarrow> CHR '':'' \<notin> set k"
    and "rep_Links report = BuildLinkCongestion latest" "gm_get latest ip = Some r"
    and "link_load (gm_set (g_nodes g) (cfg_PublicIP cfg) (DoClusterWeightedAvg cfg report)) (result_link r) = Some cpu"
  shows "\<exists>e. GetEdge (edge_key (cfg_PublicIP cfg) (link_dst (result_link r))) (AddNode (DoClusterWeightedAvg cfg report) g) = Some e
    \<and> EdgeWeight e = EdgeRisk cpu (LossRate r) (of_int (AvgRTT r div 10 ^ 6))"
proof -
  let ?tel = "DoClusterWeightedAvg cfg report" and ?vs = "BuildLinkCongestion latest"
  let ?g = "g\<lparr>g_nodes := gm_set (g_nodes g) (cfg_PublicIP cfg) ?tel\<rparr>"
  have vals: "gm_vals (LinksCongestion ?tel) = ?vs"
    using single_links [OF BuildLinkCongestion_links(2) [OF assms(1)]] by (simp add: DoClusterWeightedAvg_def assms(3) comp_def)
  have ip: "PublicIP ?tel = cfg_PublicIP cfg" by (simp add: DoClusterWeightedAvg_def)
  have "distinct (map link_dst ?vs)"
  proof (rule distinct_link_dst [OF BuildLinkCongestion_links(2) [OF assms(1)]])
    fix v assume "v \<in> set ?vs"
    then obtain kr where kr: "kr \<in> set latest" "v = result_link (snd kr)" unfolding BuildLinkCongestion_links(1) [OF assms(1)] by auto
    from kr(1) assms(1) have "fst kr = pt_IP (r_Target (snd kr))" unfolding latest_inv_def by auto
    moreover have "CHR '':'' \<notin> set (fst kr)" using kr(1) by (intro assms(2) imageI)
    ultimately show "lc_TargetIP v = pt_IP (lc_Target v) \<and> CHR '':'' \<notin> set (lc_TargetIP v)"
      by (simp add: kr(2) result_link_def)
  qed
  moreover have load: "link_load (g_nodes ?g) (result_link r) = Some cpu" using assms(5) by simp
  moreover have "result_link r \<in> set ?vs"
    using imageI [OF map_of_SomeD [OF assms(4)], of "\<lambda>kr. result_link (snd kr)"]
    unfolding BuildLinkCongestion_links(1) [OF assms(1)] by simp
  ultimately obtain e where e: "gm_get (g_edges (foldl (add_link (cfg_PublicIP cfg)) ?g ?vs))
        (edge_key (cfg_PublicIP cfg) (link_dst (result_link r))) = Some e"
      "EdgeWeight e = EdgeRisk cpu (PacketLoss (result_link r)) (AverageLatency (result_link r))"
    using add_links_get [OF _ _ load] by blast
  then have "GetEdge (edge_key (cfg_PublicIP cfg) (link_dst (result_link r))) (AddNode ?tel g) = Some e"
    unfolding GetEdge_def AddNode_def vals ip by simp
  with e(2) show ?thesis by (simp add: result_link_def)
qed

section \<open>Properties\<close>

text \<open>
  C36: A round of probes ends and covers its targets. However the workers interleave and whatever the dials answer, a
  round takes at most two steps per target, some step is possible until the channel is drained and every worker is
  idle, and then there is exactly one result per target; the address of every target then has a result of this round
  among the latest results.
\<close>

theorem probe_round_completes:
  assumes "0 < Concurrency cfg" "(probe_step cfg ^^ n) (round_start cfg targets) s"
  shows "n \<le> 2 * length targets \<and> (round_done s \<longleftrightarrow> \<not> (\<exists>s'. probe_step cfg s s'))
    \<and> (round_done s \<longrightarrow> mset (map r_Target (roundResults s)) = mset targets
         \<and> (\<forall>t \<in> set targets. \<exists>r dials. gm_get (updateLatestResults (roundResults s) latest) (pt_IP t) = Some r
               \<and> pt_IP (r_Target r) = pt_IP t \<and> r = probe_target cfg (r_Target r) dials))"
proof (intro conjI impI ballI)
  note ends = round_terminates [OF assms]
  show "n \<le> 2 * length targets" "round_done s \<longleftrightarrow> \<not> (\<exists>s'. probe_step cfg s s')" by (fact ends)+
  assume "round_done s"
  then show all: "mset (map r_Target (roundResults s)) = mset targets" by (rule ends(3))
  fix t assume "t \<in> set targets"
  with all have "t \<in> r_Target ` set (roundResults s)" by (metis list.set_map set_mset_mset)
  then have "filter (\<lambda>r. pt_IP (r_Target r) = pt_IP t) (roundResults s) \<noteq> []" (is "?rs \<noteq> []") by (auto simp: filter_empty_conv)
  then have "gm_get (updateLatestResults (roundResults s) latest) (pt_IP t) = Some (last ?rs)" "last ?rs \<in> set ?rs"
    by (auto simp: updateLatest_get split: list.splits simp del: set_filter)
  then show "\<exists>r dials. gm_get (updateLatestResults (roundResults s) latest) (pt_IP t) = Some r
      \<and> pt_IP (r_Target r) = pt_IP t \<and> r = probe_target cfg (r_Target r) dials"
    using run_invariant [OF assms(2)] by auto
qed

theorem probe_round_completes_witness:
  "\<exists>s. (probe_step ex_probe ^^ 2) (round_start ex_probe [ex_task]) s \<and> round_done s
     \<and> mset (map r_Target (roundResults s)) = {#ex_task#}"
proof -
  let ?s1 = "\<lparr>round_jobs = [], round_busy = [Some ex_task], roundResults = []\<rparr>"
  let ?s2 = "\<lparr>round_jobs = [], round_busy = [None], roundResults = [ex_dead]\<rparr>"
  have start: "round_start ex_probe [ex_task] = \<lparr>round_jobs = [ex_task], round_busy = [None], roundResults = []\<rparr>"
    by (simp add: round_start_def ex_probe_def)
  have "probe_step ex_probe (round_start ex_probe [ex_task]) ?s1"
    using probe_step.job_taken [of "round_start ex_probe [ex_task]" ex_task "[]" 0] by (simp add: start)
  moreover have "probe_step ex_probe ?s1 ?s2"
    using probe_step.job_done [of 0 ?s1 ex_task ex_probe "\<lambda>a. TimedOut (2 * 10 ^ 9)"] by (simp add: ex_dead_def)
  ultimately have run: "(probe_step ex_probe ^^ 2) (round_start ex_probe [ex_task]) ?s2" by (auto simp: numeral_2_eq_2)
  moreover have "round_done ?s2" by (simp add: round_done_def)
  ultimately show ?thesis using probe_round_completes [of ex_probe 2 "[ex_task]" ?s2 "[]"] by (auto simp: ex_probe_def)
qed

text \<open>
  C31: A dead link looks perfect. When every attempt to a target times out, the node reports it with a latency of one
  nanosecond, which is zero milliseconds. After the report the edge to the target has weight zero, unless the target
  is a node with a load of 50 or more, so that no edge of the overlay is cheaper.
\<close>

theorem dead_link_cheapest:
  assumes "latest_inv latest" "\<And>k. k \<in> fst ` set latest \<Longrightarrow> CHR '':'' \<notin> set k" "graph_inv g"
    and "gm_get latest ip = Some (probe_target cfg t dials)"
    and "0 < probe_Attempts cfg" "\<And>a. a < nat (probe_Attempts cfg) \<Longrightarrow> \<exists>rtt. dials a = TimedOut rtt"
    and "rep_Links report = BuildLinkCongestion latest"
    and "link_load (gm_set (g_nodes g) (cfg_PublicIP node) (DoClusterWeightedAvg node report)) (result_link (probe_target cfg t dials)) = Some cpu"
    and "cpu < 50"
  shows "\<exists>e. GetEdge (edge_key (cfg_PublicIP node) (link_dst (result_link (probe_target cfg t dials))))
             (AddNode (DoClusterWeightedAvg node report) g) = Some e
           \<and> EdgeWeight e = 0 \<and> (\<forall>e' \<in> set (GetEdges (AddNode (DoClusterWeightedAvg node report) g)). EdgeWeight e \<le> EdgeWeight e')"
proof -
  have "answer_time (dials a) = None" if "a < nat (probe_Attempts cfg)" for a using assms(6) [OF that] by auto
  note dead = dead_target [OF assms(5) this, where t = t]
  from reported_edge [OF assms(1, 2, 7, 4, 8)] dead obtain e where
    e: "GetEdge (edge_key (cfg_PublicIP node) (link_dst (result_link (probe_target cfg t dials)))) (AddNode (DoClusterWeightedAvg node report) g) = Some e"
      "EdgeWeight e = EdgeRisk cpu 1 0" by auto
  have "EdgeWeight e = 0" using e(2) assms(9) by (simp add: EdgeRisk_eq)
  moreover have "0 \<le> EdgeWeight e'" if "e' \<in> set (GetEdges (AddNode (DoClusterWeightedAvg node report) g))" for e'
    using AddNode_inv [OF assms(3)] that by (auto simp: graph_inv_def edge_ok_def GetEdges_def)
  ultimately show ?thesis using e(1) by simp
qed

theorem dead_link_cheapest_witness:
  "\<exists>e. GetEdge ''10.0.0.1->192.0.2.7:80'' (AddNode (DoClusterWeightedAvg ex_node_config (ex_probe_report [(''192.0.2.7'', ex_dead)])) NewGraphManager) = Some e
     \<and> EdgeWeight e = 0"
proof -
  have inv: "latest_inv [(''192.0.2.7'', ex_dead)]"
    using probe_target_bounds by (simp add: latest_inv_def ex_dead_def ex_task_def)
  have "graph_inv NewGraphManager" by (simp add: graph_inv_def NewGraphManager_def)
  moreover have "rep_Links (ex_probe_report [(''192.0.2.7'', ex_dead)]) = BuildLinkCongestion [(''192.0.2.7'', ex_dead)]"
    by (simp add: ex_probe_report_def)
  moreover have "edge_key (cfg_PublicIP ex_node_config) (link_dst (result_link ex_dead)) = ''10.0.0.1->192.0.2.7:80''"
    by (simp add: edge_key_def ex_node_config_def link_dst_def result_link_def ex_dead_def ex_task_def origin_addr_def itoa_def
        nat_digits.simps digit_char_def) code_simp
  ultimately show ?thesis
    using dead_link_cheapest [OF inv, where g = NewGraphManager and ip = "''192.0.2.7''" and cfg = ex_probe and t = ex_task
        and dials = "\<lambda>a. TimedOut (2 * 10 ^ 9)" and cpu = 0 and node = ex_node_config and report = "ex_probe_report [(''192.0.2.7'', ex_dead)]",
        folded ex_dead_def]
    by (auto simp: ex_probe_def link_load_def result_link_def ex_dead_def ex_task_def)
qed

end
