(* ===== verification/Edge_Routers.thy ===== *)
theory Edge_Routers
  imports Graph_Manager Proxy_Util
begin

text \<open>
  The last-mile routers, \<^verbatim>\<open>src/control-plane/routing/edge-domain\<close>: inverse-load shares (\<^verbatim>\<open>p2c.go\<close>), the weighted
  sum of load and latency (\<^verbatim>\<open>joint-cpu-latency.go\<close>), Lyapunov penalties with a softmax (\<^verbatim>\<open>lyapunov-opt.go\<close>,
  \<^verbatim>\<open>lyapunov-config.go\<close>) and moving averages (\<^verbatim>\<open>ewma-based.go\<close>), with the types of
  \<^verbatim>\<open>src/control-plane/routing/routing/base.go\<close>. The address of the local node, used when no node is known, is an
  argument. \<^verbatim>\<open>sort.Slice\<close> is a stable sort, as it is on the short slices it sorts by insertion; on longer
  ones Go leaves the order of equal scores open. The two contracts the routers share are the locale
  \<^verbatim>\<open>ranking\<close> (what a sort promises) and the locale \<^verbatim>\<open>weighting\<close> (what shares proportional to positive weights
  promise).
\<close>

section \<open>Definitions\<close>

record EndPoint =
  ep_IP :: string
  ep_Port :: int
  ep_Provider :: string
  ep_Continent :: string
  ep_Country :: string
  ep_City :: string

record EndPoints =
  ep_Source :: EndPoint
  ep_Dest :: EndPoint

record RoutingInfo =
  Routing :: "PathInfo list"

type_synonym node_map = "(string, NodeTelemetry) gomap"
type_synonym agg_map = "(string, LastCongestion) gomap"

definition sort_Slice :: "('a \<Rightarrow> real) \<Rightarrow> 'a list \<Rightarrow> 'a list" where
  "sort_Slice key xs = sort_key key xs"

text \<open>The addresses of the known nodes, or the local node's.\<close>

definition collect_nodes :: "string \<Rightarrow> node_map \<Rightarrow> string list" where
  "collect_nodes localIP nodeTel =
     (let nodeIps = map PublicIP (gm_vals nodeTel) in if length nodeIps \<le> 0 then [localIP] else nodeIps)"

text \<open>The latency statistics between the user's city and a node.\<close>

definition node_rt :: "node_map \<Rightarrow> agg_map \<Rightarrow> EndPoint \<Rightarrow> string \<Rightarrow> LastCongestion option" where
  "node_rt nodeTel aggr source nodeIP =
     (case gm_get nodeTel nodeIP of
        None \<Rightarrow> None
      | Some _ \<Rightarrow>
          (case gm_get aggr (agg_key (ep_City source) nodeIP) of
             Some val \<Rightarrow> Some val
           | None \<Rightarrow> Some (zero_congestion\<lparr>Count := 1, AvgRT := 50\<rparr>)))"

subsection \<open>Power of two choices\<close>

record P2CRouter =
  p2c_nodeTel :: node_map
  p2c_edgeAgg :: agg_map

definition NewP2CRouter :: "node_map \<Rightarrow> agg_map \<Rightarrow> P2CRouter" where
  "NewP2CRouter nodeTel aggr = \<lparr>p2c_nodeTel = nodeTel, p2c_edgeAgg = aggr\<rparr>"

definition p2c_load :: "P2CRouter \<Rightarrow> string \<Rightarrow> real" where
  "p2c_load r nodeIP = (case gm_get (p2c_nodeTel r) nodeIP of
     None \<Rightarrow> 100
   | Some tel \<Rightarrow> (let load = Usage (Cpu tel) in if load < 0 \<or> load = 0 then 100 else load))"

definition p2c_weight :: "P2CRouter \<Rightarrow> string \<Rightarrow> real" where
  "p2c_weight r nodeIP = 1 / p2c_load r nodeIP"

definition P2C_Computing :: "string \<Rightarrow> P2CRouter \<Rightarrow> EndPoints \<Rightarrow> PathInfo list" where
  "P2C_Computing localIP r eps =
     (let nodeIps = collect_nodes localIP (p2c_nodeTel r);
          weights = map (\<lambda>ip. (ip, p2c_weight r ip)) nodeIps;
          totalWeight = sum_list (map snd weights)
      in map (\<lambda>(ip, weight). \<lparr>Hops = [ip], Rtt = weight / totalWeight, RawRTT = 0\<rparr>) weights)"

definition getNodeLatency :: "P2CRouter \<Rightarrow> EndPoint \<Rightarrow> string \<Rightarrow> real" where
  "getNodeLatency r source nodeIP =
     (case gm_get (p2c_edgeAgg r) (agg_key (ep_City source) nodeIP) of
        Some cong \<Rightarrow> if Count cong > 0 then AvgRT cong else 50
      | None \<Rightarrow> 50)"

subsection \<open>Load and latency\<close>

record nodeScore =
  ns_nodeIp :: string
  ns_score :: real

record JointRouter =
  jr_edgeAgg :: agg_map
  jr_nodeTel :: node_map
  cpuWeight :: real
  latencyWeight :: real

definition NewJointRouter :: "agg_map \<Rightarrow> node_map \<Rightarrow> JointRouter" where
  "NewJointRouter aggr nodeTel = \<lparr>jr_edgeAgg = aggr, jr_nodeTel = nodeTel, cpuWeight = 1 / 2, latencyWeight = 1 / 2\<rparr>"

definition SetWeights :: "real \<Rightarrow> real \<Rightarrow> JointRouter \<Rightarrow> JointRouter" where
  "SetWeights cw lw r =
     (if cw > 0 \<and> lw > 0 then r\<lparr>cpuWeight := cw / (cw + lw), latencyWeight := lw / (cw + lw)\<rparr>
      else if cw = 0 \<and> lw > 0 then r\<lparr>cpuWeight := 0, latencyWeight := 1\<rparr>
      else if lw = 0 \<and> cw > 0 then r\<lparr>cpuWeight := 1, latencyWeight := 0\<rparr>
      else r)"

definition Joint_GetNodeRT :: "JointRouter \<Rightarrow> EndPoint \<Rightarrow> string \<Rightarrow> LastCongestion option" where
  "Joint_GetNodeRT r source nodeIP = node_rt (jr_nodeTel r) (jr_edgeAgg r) source nodeIP"

text \<open>The statistics a score uses, and the delay it reads from them.\<close>

definition stats_or_500 :: "LastCongestion option \<Rightarrow> LastCongestion" where
  "stats_or_500 st = (case st of
     None \<Rightarrow> zero_congestion\<lparr>AvgRT := 500\<rparr>
   | Some s \<Rightarrow> if Count s = 0 then zero_congestion\<lparr>AvgRT := 500\<rparr> else s)"

definition delay_of :: "LastCongestion \<Rightarrow> real" where
  "delay_of s = (if AvgRT s \<le> 0 then 100 else AvgRT s)"

definition joint_candidate :: "JointRouter \<Rightarrow> EndPoint \<Rightarrow> string \<Rightarrow> nodeScore option" where
  "joint_candidate r source nodeIp =
     (case gm_get (jr_nodeTel r) nodeIp of
        None \<Rightarrow> None
      | Some tel \<Rightarrow>
          (let delay = delay_of (stats_or_500 (Joint_GetNodeRT r source nodeIp));
               Qk = (if Usage (Cpu tel) < 0 then 100 else Usage (Cpu tel))
           in Some \<lparr>ns_nodeIp = nodeIp, ns_score = cpuWeight r * Qk + latencyWeight r * delay\<rparr>))"

definition Joint_Computing :: "string \<Rightarrow> JointRouter \<Rightarrow> EndPoints \<Rightarrow> PathInfo list" where
  "Joint_Computing localIP r eps =
     (let nodeIps = collect_nodes localIP (jr_nodeTel r);
          candidates = List.map_filter (joint_candidate r (ep_Source eps)) nodeIps
      in if length candidates = 0 then []
         else map (\<lambda>c. \<lparr>Hops = [ns_nodeIp c], Rtt = ns_score c, RawRTT = 0\<rparr>) (sort_Slice ns_score candidates))"

subsection \<open>Lyapunov penalties\<close>

record latencyConfig =
  good :: real
  normal :: real
  warning :: real

definition ContinentPairConfigs :: "(string, latencyConfig) gomap" where
  "ContinentPairConfigs =
     [(''Asia-NorthAmerica'', \<lparr>good = 60, normal = 100, warning = 150\<rparr>),
      (''NorthAmerica-Asia'', \<lparr>good = 60, normal = 100, warning = 150\<rparr>)]"

definition getLatencyConfig :: "string \<Rightarrow> string \<Rightarrow> latencyConfig" where
  "getLatencyConfig sourceCont destCont =
     (case gm_get ContinentPairConfigs (sourceCont @ ''-'' @ destCont) of
        Some config \<Rightarrow> config
      | None \<Rightarrow> if sourceCont \<noteq> destCont then \<lparr>good = 60, normal = 100, warning = 150\<rparr>
                else \<lparr>good = 20, normal = 40, warning = 60\<rparr>)"

record CPUThresholds =
  Low :: real
  Mid :: real
  High :: real
  SensitivityCPU :: real
  HysteresisUp :: real
  HysteresisDn :: real

definition CPUConfig :: "(int, CPUThresholds) gomap" where
  "CPUConfig =
     [(2, \<lparr>Low = 40, Mid = 60, High = 80, SensitivityCPU = 2, HysteresisUp = 60, HysteresisDn = 40\<rparr>),
      (4, \<lparr>Low = 60, Mid = 80, High = 100, SensitivityCPU = 3, HysteresisUp = 80, HysteresisDn = 60\<rparr>)]"

definition GetCPUThresholds :: "int \<Rightarrow> CPUThresholds" where
  "GetCPUThresholds logicalCores =
     (case gm_get CPUConfig logicalCores of Some config \<Rightarrow> config | None \<Rightarrow> snd (hd CPUConfig))"

definition sensitivityCPU :: real where "sensitivityCPU = 2"
definition sensitivityDelay :: real where "sensitivityDelay = 2 / 10"
definition defaultV :: real where "defaultV = 1"
definition softmaxTemp :: real where "softmaxTemp = 2"

definition computeDelayPenalty :: "real \<Rightarrow> latencyConfig \<Rightarrow> real" where
  "computeDelayPenalty rt config =
     (if good config \<le> 0 then exp (sensitivityDelay * (rt / 50 - 1))
      else exp (sensitivityDelay * (rt / good config - 1)))"

definition computeCPUPenalty :: "real \<Rightarrow> int \<Rightarrow> real" where
  "computeCPUPenalty Qk logicalCores =
     (let config = GetCPUThresholds logicalCores;
          alpha = (if SensitivityCPU config \<le> 0 then sensitivityCPU else SensitivityCPU config)
      in if Mid config \<le> 0 then exp (alpha * (Qk / 60 - 1)) else exp (alpha * (Qk / Mid config - 1)))"

definition exp_score :: "real \<Rightarrow> nodeScore \<Rightarrow> real" where
  "exp_score temperature c = exp (- ns_score c / temperature)"

definition softmaxProbabilities :: "nodeScore list \<Rightarrow> real \<Rightarrow> real list" where
  "softmaxProbabilities candidates temperature =
     (if length candidates = 0 then []
      else let expScores = map (exp_score temperature) candidates;
               sumExp = sum_list expScores
           in map (\<lambda>e. if sumExp > 0 then e / sumExp else 0) expScores)"

record LyapunovSolver =
  ly_edgeAgg :: agg_map
  ly_nodeTel :: node_map

definition NewLyapunovSolver :: "agg_map \<Rightarrow> node_map \<Rightarrow> LyapunovSolver" where
  "NewLyapunovSolver aggr nodeTel = \<lparr>ly_edgeAgg = aggr, ly_nodeTel = nodeTel\<rparr>"

definition Lyapunov_GetNodeRT :: "LyapunovSolver \<Rightarrow> EndPoint \<Rightarrow> string \<Rightarrow> LastCongestion option" where
  "Lyapunov_GetNodeRT l source nodeIP = node_rt (ly_nodeTel l) (ly_edgeAgg l) source nodeIP"

definition lyapunov_candidate :: "LyapunovSolver \<Rightarrow> EndPoint \<Rightarrow> string \<Rightarrow> nodeScore option" where
  "lyapunov_candidate l source nodeIp =
     (case gm_get (ly_nodeTel l) nodeIp of
        None \<Rightarrow> None
      | Some tel \<Rightarrow>
          (let stats = stats_or_500 (Lyapunov_GetNodeRT l source nodeIp);
               w = 1;
               Qk = (if Usage (Cpu tel) < 0 then 0 else Usage (Cpu tel));
               delay = delay_of stats;
               cpuPenalty = computeCPUPenalty (Qk + \<bar>LoadDelta (Cpu tel)\<bar>) (LogicalCore (Cpu tel));
               delayPenalty = computeDelayPenalty delay (getLatencyConfig (ep_Continent source) (nt_Continent tel))
           in Some \<lparr>ns_nodeIp = nodeIp, ns_score = w * cpuPenalty + defaultV * delayPenalty\<rparr>))"

definition Lyapunov_Computing :: "string \<Rightarrow> LyapunovSolver \<Rightarrow> EndPoints \<Rightarrow> PathInfo list" where
  "Lyapunov_Computing localIP l eps =
     (let nodeIps = collect_nodes localIP (ly_nodeTel l);
          candidates = List.map_filter (lyapunov_candidate l (ep_Source eps)) nodeIps
      in if length candidates = 0 then []
         else let candidates = sort_Slice ns_score candidates;
                  probabilities = softmaxProbabilities candidates softmaxTemp
              in map (\<lambda>i. \<lparr>Hops = [ns_nodeIp (candidates ! i)],
                           Rtt = (if i < length probabilities then probabilities ! i else 0),
                           RawRTT = ns_score (candidates ! i)\<rparr>) [0 ..< length candidates])"

subsection \<open>Moving averages\<close>

record EWMARouter =
  ew_nodeTel :: node_map
  ew_edgeAgg :: agg_map
  cpuEWMA :: "(string, real) gomap"
  latEWMA :: "(string, real) gomap"
  cpuAlpha :: real
  latAlpha :: real
  ew_lambda :: real

definition NewEWMARouter :: "node_map \<Rightarrow> agg_map \<Rightarrow> EWMARouter" where
  "NewEWMARouter nodeTel aggr = \<lparr>ew_nodeTel = nodeTel, ew_edgeAgg = aggr, cpuEWMA = [], latEWMA = [],
     cpuAlpha = 3 / 10, latAlpha = 3 / 10, ew_lambda = 1 / 2\<rparr>"

definition SetAlpha :: "real \<Rightarrow> real \<Rightarrow> EWMARouter \<Rightarrow> EWMARouter" where
  "SetAlpha alpha lambda r = r\<lparr>cpuAlpha := alpha, latAlpha := alpha, ew_lambda := lambda\<rparr>"

definition updateEWMACPU :: "string \<Rightarrow> real \<Rightarrow> EWMARouter \<Rightarrow> EWMARouter" where
  "updateEWMACPU nodeIP cpuUsage r =
     (case gm_get (cpuEWMA r) nodeIP of
        None \<Rightarrow> r\<lparr>cpuEWMA := gm_set (cpuEWMA r) nodeIP cpuUsage\<rparr>
      | Some cur \<Rightarrow> r\<lparr>cpuEWMA := gm_set (cpuEWMA r) nodeIP (cpuAlpha r * cpuUsage + (1 - cpuAlpha r) * cur)\<rparr>)"

definition updateEWMALatency :: "string \<Rightarrow> real \<Rightarrow> EWMARouter \<Rightarrow> EWMARouter" where
  "updateEWMALatency nodeIP latency r =
     (case gm_get (latEWMA r) nodeIP of
        None \<Rightarrow> r\<lparr>latEWMA := gm_set (latEWMA r) nodeIP latency\<rparr>
      | Some cur \<Rightarrow> r\<lparr>latEWMA := gm_set (latEWMA r) nodeIP (latAlpha r * latency + (1 - latAlpha r) * cur)\<rparr>)"

definition getCPUEWMA :: "string \<Rightarrow> EWMARouter \<Rightarrow> real" where
  "getCPUEWMA nodeIP r = (case gm_get (cpuEWMA r) nodeIP of None \<Rightarrow> 100 | Some val \<Rightarrow> val)"

definition getLatEWMA :: "string \<Rightarrow> EWMARouter \<Rightarrow> real" where
  "getLatEWMA nodeIP r = (case gm_get (latEWMA r) nodeIP of None \<Rightarrow> 500 | Some val \<Rightarrow> val)"

definition EWMA_GetNodeRT :: "EWMARouter \<Rightarrow> EndPoint \<Rightarrow> string \<Rightarrow> LastCongestion option" where
  "EWMA_GetNodeRT r source nodeIP = node_rt (ew_nodeTel r) (ew_edgeAgg r) source nodeIP"

record ewmaScore =
  es_nodeIp :: string
  es_cpuUsage :: real
  es_latency :: real
  es_cpuEwma :: real
  es_latEwma :: real
  es_normLatEwma :: real
  es_combined :: real

definition cpu_usage :: "NodeTelemetry \<Rightarrow> real" where
  "cpu_usage tel = (if Usage (Cpu tel) < 0 then 100 else Usage (Cpu tel))"

definition ewma_latency :: "LastCongestion option \<Rightarrow> real" where
  "ewma_latency stats =
     (let latency = (case stats of Some s \<Rightarrow> if Count s > 0 then AvgRT s else 100 | None \<Rightarrow> 100)
      in if latency \<le> 0 then 100 else latency)"

text \<open>The first pass: every node's averages are updated and read back.\<close>

fun ewma_collect :: "EndPoint \<Rightarrow> string list \<Rightarrow> EWMARouter \<Rightarrow> ewmaScore list \<times> EWMARouter" where
  "ewma_collect source [] r = ([], r)"
| "ewma_collect source (nodeIp # ips) r =
     (case gm_get (ew_nodeTel r) nodeIp of
        None \<Rightarrow> ewma_collect source ips r
      | Some tel \<Rightarrow>
          (let cpuUsage = cpu_usage tel;
               r1 = updateEWMACPU nodeIp cpuUsage r;
               cpuEwma = getCPUEWMA nodeIp r1;
               latency = ewma_latency (EWMA_GetNodeRT r1 source nodeIp);
               r2 = updateEWMALatency nodeIp latency r1;
               latEwma = getLatEWMA nodeIp r2;
               (cs, r3) = ewma_collect source ips r2
           in (\<lparr>es_nodeIp = nodeIp, es_cpuUsage = cpuUsage, es_latency = latency, es_cpuEwma = cpuEwma,
                es_latEwma = latEwma, es_normLatEwma = 0, es_combined = 0\<rparr> # cs, r3)))"

definition ewma_score :: "real \<Rightarrow> ewmaScore \<Rightarrow> ewmaScore" where
  "ewma_score lambda c =
     (let latencyScale = 1; normCPU = es_cpuEwma c; normLat = es_latEwma c / latencyScale
      in c\<lparr>es_normLatEwma := normLat, es_combined := lambda * normCPU + (1 - lambda) * normLat\<rparr>)"

definition ewma_weight :: "ewmaScore \<Rightarrow> real" where
  "ewma_weight c = (if es_combined c > 0 then 1 / es_combined c else 1)"

definition EWMA_Computing :: "string \<Rightarrow> EndPoints \<Rightarrow> EWMARouter \<Rightarrow> PathInfo list \<times> EWMARouter" where
  "EWMA_Computing localIP eps r =
     (let nodeIps = collect_nodes localIP (ew_nodeTel r);
          (candidates, r') = ewma_collect (ep_Source eps) nodeIps r
      in if length candidates = 0 then ([], r')
         else let candidates = exchange_sort es_combined (map (ewma_score (ew_lambda r')) candidates);
                  totalWeight = sum_list (map ewma_weight candidates)
              in (map (\<lambda>c. \<lparr>Hops = [es_nodeIp c], Rtt = ewma_weight c / totalWeight, RawRTT = es_combined c\<rparr>) candidates, r'))"

definition GetEWMASummary :: "EWMARouter \<Rightarrow> (string, real \<times> real) gomap" where
  "GetEWMASummary r = map (\<lambda>(nodeIP, cpuVal). (nodeIP, cpuVal, case gm_get (latEWMA r) nodeIP of Some l \<Rightarrow> l | None \<Rightarrow> 0)) (cpuEWMA r)"

text \<open>What a router's answer promises: a path to every node, with positive shares that add up to one.\<close>

definition distribution :: "string list \<Rightarrow> PathInfo list \<Rightarrow> bool" where
  "distribution ips ps = (mset (map Hops ps) = mset (map (\<lambda>ip. [ip]) ips) \<and> sum_list (map Rtt ps) = 1 \<and> (\<forall>p \<in> set ps. 0 < Rtt p))"

text \<open>A node map whose keys are the addresses of its nodes.\<close>

definition nodes_ok :: "node_map \<Rightarrow> bool" where
  "nodes_ok m = (m \<noteq> [] \<and> gm_ok m \<and> (\<forall>(k, n) \<in> set m. k = PublicIP n))"

text \<open>The score of a node without history.\<close>

definition fresh_score :: "node_map \<Rightarrow> agg_map \<Rightarrow> EndPoint \<Rightarrow> string \<Rightarrow> ewmaScore" where
  "fresh_score nodeTel aggr source ip =
     (let cpu = cpu_usage (the (gm_get nodeTel ip)); lat = ewma_latency (node_rt nodeTel aggr source ip) in
      \<lparr>es_nodeIp = ip, es_cpuUsage = cpu, es_latency = lat, es_cpuEwma = cpu, es_latEwma = lat, es_normLatEwma = 0, es_combined = 0\<rparr>)"

section \<open>The contracts of sorting and of proportional shares\<close>

locale ranking =
  fixes srt :: "('a \<Rightarrow> real) \<Rightarrow> 'a list \<Rightarrow> 'a list"
  assumes srt_mset: "mset (srt key xs) = mset xs"
    and srt_sorted: "sorted (map key (srt key xs))"
begin

lemma srt_set: "set (srt key xs) = set xs"
  by (metis srt_mset set_mset_mset)

lemma srt_sum: "sum_list (map f (srt key xs)) = sum_list (map (f :: 'a \<Rightarrow> real) xs)"
  by (metis srt_mset mset_map sum_mset_sum_list)

lemma srt_map_mset: "mset (map f (srt key xs)) = mset (map f xs)"
  by (simp add: srt_mset)

lemma srt_Nil: "srt key xs = [] \<longleftrightarrow> xs = []"
  by (metis srt_mset mset_zero_iff)

lemma srt_antimono:
  assumes "\<And>x y. x \<in> set xs \<Longrightarrow> y \<in> set xs \<Longrightarrow> key x \<le> key y \<Longrightarrow> w y \<le> (w x :: real)"
  shows "sorted_wrt (\<lambda>x y. w y \<le> w x) (srt key xs)"
  using srt_sorted [of key xs] assms unfolding sorted_map
  by (rule_tac sorted_wrt_mono_rel [where P = "\<lambda>x y. key x \<le> key y"]) (auto simp: srt_set)

end

interpretation slice: ranking sort_Slice
  by unfold_locales (simp_all add: sort_Slice_def)

interpretation exch: ranking exchange_sort
  by unfold_locales (simp_all add: sorted_exchange_sort)

locale weighting =
  fixes w :: "'a \<Rightarrow> real"
  assumes w_pos: "0 < w x"
begin

definition share :: "'a list \<Rightarrow> 'a \<Rightarrow> real" where
  "share xs x = w x / sum_list (map w xs)"

lemma total_pos: "xs \<noteq> [] \<Longrightarrow> 0 < sum_list (map w xs)"
proof (induction xs rule: list_nonempty_induct)
  case (cons x xs)
  then show ?case using w_pos [of x] by simp
qed (simp add: w_pos)

lemma share_pos: "xs \<noteq> [] \<Longrightarrow> 0 < share xs x"
  by (simp add: share_def total_pos w_pos)

lemma share_sum:
  assumes "xs \<noteq> []"
  shows "sum_list (map (share xs) xs) = 1"
proof -
  have "sum_list (map (share xs) ys) = sum_list (map w ys) / sum_list (map w xs)" for ys
    by (induction ys) (simp_all add: share_def add_divide_distrib)
  then show ?thesis using total_pos [OF assms] by simp
qed

lemma share_le_iff: "xs \<noteq> [] \<Longrightarrow> share xs x \<le> share xs y \<longleftrightarrow> w x \<le> w y"
  using total_pos [of xs] by (simp add: share_def divide_le_cancel)

lemma share_distribution:
  assumes "xs \<noteq> []" "mset (map hop xs) = mset ips"
  shows "distribution ips (map (\<lambda>x. \<lparr>Hops = [hop x], Rtt = share xs x, RawRTT = raw x\<rparr>) xs)"
proof -
  have "image_mset (\<lambda>ip. [ip]) (mset (map hop xs)) = image_mset (\<lambda>ip. [ip]) (mset ips)" by (simp only: assms(2))
  moreover have "sum_list (map (share xs) xs) = 1" by (rule share_sum [OF assms(1)])
  ultimately show ?thesis using share_pos [OF assms(1)]
    by (simp add: distribution_def comp_def image_mset.compositionality)
qed

end

lemma p2c_load_pos: "0 < p2c_load r ip"
  by (auto simp: p2c_load_def Let_def split: option.splits)

interpretation p2c: weighting "p2c_weight r" for r
  by unfold_locales (simp add: p2c_weight_def p2c_load_pos)

interpretation softmax: weighting "exp_score temperature" for temperature
  by unfold_locales (simp add: exp_score_def)

interpretation ewma: weighting ewma_weight
  by unfold_locales (simp add: ewma_weight_def)

section \<open>Lemmas\<close>

lemma collect_nodes_ok: "nodes_ok m \<Longrightarrow> collect_nodes l m = map fst m"
  by (force simp: nodes_ok_def collect_nodes_def)

lemma nodes_ok_get:
  assumes "nodes_ok m" "ip \<in> set (map fst m)"
  obtains tel where "gm_get m ip = Some tel" "(ip, tel) \<in> set m"
  using assms by (metis nodes_ok_def image_set map_of_eq_None_iff map_of_SomeD not_None_eq)

lemma map_filter_known:
  "(\<And>x. x \<in> set xs \<Longrightarrow> \<exists>y. f x = Some y \<and> g y = x) \<Longrightarrow> map g (List.map_filter f xs) = xs"
  by (induction xs) (fastforce simp: map_filter_simps)+

lemma P2C_shares:
  assumes "nodes_ok (p2c_nodeTel r)"
  shows "P2C_Computing l r eps = map (\<lambda>ip. \<lparr>Hops = [ip], Rtt = p2c.share r (map fst (p2c_nodeTel r)) ip, RawRTT = 0\<rparr>) (map fst (p2c_nodeTel r))"
  by (simp add: P2C_Computing_def Let_def collect_nodes_ok [OF assms] p2c.share_def comp_def)

lemma P2C_distribution:
  assumes "nodes_ok (p2c_nodeTel r)"
  shows "distribution (map fst (p2c_nodeTel r)) (P2C_Computing l r eps)"
  unfolding P2C_shares [OF assms]
  by (rule p2c.share_distribution [where hop = "\<lambda>ip. ip"]) (use assms in \<open>simp_all add: nodes_ok_def\<close>)

lemma softmax_shares: "softmaxProbabilities cs t = map (softmax.share t cs) cs"
proof (cases "cs = []")
  case False
  then show ?thesis using softmax.total_pos [OF False, of t] by (simp add: softmaxProbabilities_def softmax.share_def comp_def)
qed (simp add: softmaxProbabilities_def)

lemma softmax_paths:
  "map (\<lambda>i. \<lparr>Hops = [ns_nodeIp (cs ! i)], Rtt = (if i < length (softmaxProbabilities cs t) then softmaxProbabilities cs t ! i else 0),
       RawRTT = ns_score (cs ! i)\<rparr>) [0 ..< length cs]
   = map (\<lambda>c. \<lparr>Hops = [ns_nodeIp c], Rtt = softmax.share t cs c, RawRTT = ns_score c\<rparr>) cs"
  by (rule nth_equalityI) (simp_all add: softmax_shares)

lemma Lyapunov_shares:
  fixes l :: LyapunovSolver and eps :: EndPoints
  defines "cs \<equiv> sort_Slice ns_score (List.map_filter (lyapunov_candidate l (ep_Source eps)) (map fst (ly_nodeTel l)))"
  assumes "nodes_ok (ly_nodeTel l)"
  shows "Lyapunov_Computing ip l eps = map (\<lambda>c. \<lparr>Hops = [ns_nodeIp c], Rtt = softmax.share softmaxTemp cs c, RawRTT = ns_score c\<rparr>) cs"
proof -
  have "cs = []" if "List.map_filter (lyapunov_candidate l (ep_Source eps)) (map fst (ly_nodeTel l)) = []"
    using that by (simp add: cs_def slice.srt_Nil)
  then show ?thesis
    unfolding Lyapunov_Computing_def Let_def collect_nodes_ok [OF assms(2)] length_0_conv cs_def [symmetric] softmax_paths by simp
qed

lemma lyapunov_known:
  assumes "nodes_ok (ly_nodeTel l)" "ip \<in> set (map fst (ly_nodeTel l))"
  shows "\<exists>c. lyapunov_candidate l src ip = Some c \<and> ns_nodeIp c = ip"
  by (rule nodes_ok_get [OF assms]) (simp add: lyapunov_candidate_def Let_def)

lemma joint_known:
  assumes "nodes_ok (jr_nodeTel r)" "ip \<in> set (map fst (jr_nodeTel r))"
  shows "\<exists>c. joint_candidate r src ip = Some c \<and> ns_nodeIp c = ip"
  by (rule nodes_ok_get [OF assms]) (simp add: joint_candidate_def Let_def)

lemma Lyapunov_distribution:
  assumes ok: "nodes_ok (ly_nodeTel l)"
  shows "distribution (map fst (ly_nodeTel l)) (Lyapunov_Computing ip l eps)"
    "sorted_wrt (\<lambda>p q. Rtt q \<le> Rtt p) (Lyapunov_Computing ip l eps)"
proof -
  let ?mf = "List.map_filter (lyapunov_candidate l (ep_Source eps)) (map fst (ly_nodeTel l))"
  let ?cs = "sort_Slice ns_score ?mf"
  have ne: "?cs \<noteq> []"
    using ok map_filter_known [OF lyapunov_known [OF ok, where src = "ep_Source eps"], of "map fst (ly_nodeTel l)"]
    by (auto simp: slice.srt_Nil nodes_ok_def)
  have ms: "mset (map ns_nodeIp ?cs) = mset (map fst (ly_nodeTel l))"
    unfolding slice.srt_map_mset by (simp only: map_filter_known [OF lyapunov_known [OF ok]])
  show "distribution (map fst (ly_nodeTel l)) (Lyapunov_Computing ip l eps)"
    unfolding Lyapunov_shares [OF ok] by (rule softmax.share_distribution [OF ne ms])
  have "sorted_wrt (\<lambda>c d. softmax.share softmaxTemp ?cs d \<le> softmax.share softmaxTemp ?cs c) ?cs"
    by (rule slice.srt_antimono) (simp add: softmax.share_le_iff [OF ne] exp_score_def softmaxTemp_def)
  then show "sorted_wrt (\<lambda>p q. Rtt q \<le> Rtt p) (Lyapunov_Computing ip l eps)"
    unfolding Lyapunov_shares [OF ok] by (simp add: sorted_wrt_map)
qed

lemma Joint_ranked:
  assumes ok: "nodes_ok (jr_nodeTel r)"
  shows "mset (map Hops (Joint_Computing ip r eps)) = mset (map (\<lambda>ip. [ip]) (map fst (jr_nodeTel r)))"
    "sorted (map Rtt (Joint_Computing ip r eps))"
proof -
  let ?mf = "List.map_filter (joint_candidate r (ep_Source eps)) (map fst (jr_nodeTel r))"
  have ne: "?mf \<noteq> []"
    using ok map_filter_known [OF joint_known [OF ok, where src = "ep_Source eps"], of "map fst (jr_nodeTel r)"]
    by (auto simp: nodes_ok_def)
  then have eq: "Joint_Computing ip r eps = map (\<lambda>c. \<lparr>Hops = [ns_nodeIp c], Rtt = ns_score c, RawRTT = 0\<rparr>) (sort_Slice ns_score ?mf)"
    by (simp add: Joint_Computing_def Let_def collect_nodes_ok [OF ok])
  have "mset (map Hops (Joint_Computing ip r eps)) = image_mset (\<lambda>ip. [ip]) (mset (map ns_nodeIp ?mf))"
    by (simp add: eq slice.srt_mset image_mset.compositionality comp_def)
  then show "mset (map Hops (Joint_Computing ip r eps)) = mset (map (\<lambda>ip. [ip]) (map fst (jr_nodeTel r)))"
    by (simp only: map_filter_known [OF joint_known [OF ok]] mset_map)
  show "sorted (map Rtt (Joint_Computing ip r eps))"
    unfolding eq using slice.srt_sorted [of ns_score ?mf] by (simp add: comp_def)
qed

lemma ewma_collect_fresh:
  assumes "distinct ips" "\<And>ip. ip \<in> set ips \<Longrightarrow> gm_get (ew_nodeTel r) ip \<noteq> None"
    "\<And>ip. ip \<in> set ips \<Longrightarrow> gm_get (cpuEWMA r) ip = None \<and> gm_get (latEWMA r) ip = None"
  shows "fst (ewma_collect src ips r) = map (fresh_score (ew_nodeTel r) (ew_edgeAgg r) src) ips
    \<and> ew_lambda (snd (ewma_collect src ips r)) = ew_lambda r"
  using assms
proof (induction ips arbitrary: r)
  case (Cons ip ips)
  obtain tel where t: "gm_get (ew_nodeTel r) ip = Some tel" using Cons.prems(2) by fastforce
  let ?r1 = "updateEWMACPU ip (cpu_usage tel) r"
  let ?r2 = "updateEWMALatency ip (ewma_latency (EWMA_GetNodeRT ?r1 src ip)) ?r1"
  have n: "gm_get (cpuEWMA r) ip = None" "gm_get (latEWMA r) ip = None" using Cons.prems(3) by simp_all
  have s: "ew_nodeTel ?r2 = ew_nodeTel r" "ew_edgeAgg ?r2 = ew_edgeAgg r" "ew_lambda ?r2 = ew_lambda r"
    using n by (simp_all add: updateEWMACPU_def updateEWMALatency_def)
  have "fst (ewma_collect src ips ?r2) = map (fresh_score (ew_nodeTel ?r2) (ew_edgeAgg ?r2) src) ips
      \<and> ew_lambda (snd (ewma_collect src ips ?r2)) = ew_lambda ?r2"
    using Cons.prems n by (intro Cons.IH) (auto simp: updateEWMACPU_def updateEWMALatency_def update_conv')
  then show ?case using t n s
    by (simp add: Let_def case_prod_unfold fresh_score_def getCPUEWMA_def getLatEWMA_def updateEWMACPU_def updateEWMALatency_def EWMA_GetNodeRT_def update_conv')
qed simp

lemma EWMA_shares:
  fixes eps :: EndPoints
  assumes ok: "nodes_ok (ew_nodeTel r)" and fresh: "cpuEWMA r = []" "latEWMA r = []"
  defines "cs \<equiv> exchange_sort es_combined (map (ewma_score (ew_lambda r)) (map (fresh_score (ew_nodeTel r) (ew_edgeAgg r) (ep_Source eps)) (map fst (ew_nodeTel r))))"
  shows "fst (EWMA_Computing ip eps r) = map (\<lambda>c. \<lparr>Hops = [es_nodeIp c], Rtt = ewma.share cs c, RawRTT = es_combined c\<rparr>) cs"
proof -
  have "fst (ewma_collect (ep_Source eps) (map fst (ew_nodeTel r)) r) = map (fresh_score (ew_nodeTel r) (ew_edgeAgg r) (ep_Source eps)) (map fst (ew_nodeTel r))
      \<and> ew_lambda (snd (ewma_collect (ep_Source eps) (map fst (ew_nodeTel r)) r)) = ew_lambda r"
    using ok by (intro ewma_collect_fresh) (simp_all add: nodes_ok_def fresh map_of_eq_None_iff)
  then show ?thesis using ok
    by (simp add: EWMA_Computing_def Let_def case_prod_unfold collect_nodes_ok [OF ok] cs_def ewma.share_def nodes_ok_def)
qed

lemma EWMA_distribution:
  assumes ok: "nodes_ok (ew_nodeTel r)" and fresh: "cpuEWMA r = []" "latEWMA r = []"
  shows "distribution (map fst (ew_nodeTel r)) (fst (EWMA_Computing ip eps r))"
  unfolding EWMA_shares [OF assms]
proof (rule ewma.share_distribution)
  let ?c0 = "map (ewma_score (ew_lambda r)) (map (fresh_score (ew_nodeTel r) (ew_edgeAgg r) (ep_Source eps)) (map fst (ew_nodeTel r)))"
  show "exchange_sort es_combined ?c0 \<noteq> []" using ok by (simp add: exch.srt_Nil nodes_ok_def)
  have "map es_nodeIp ?c0 = map fst (ew_nodeTel r)" by (simp add: ewma_score_def fresh_score_def Let_def comp_def)
  then show "mset (map es_nodeIp (exchange_sort es_combined ?c0)) = mset (map fst (ew_nodeTel r))"
    unfolding exch.srt_map_mset by (simp only:)
qed

lemma fresh_combined_pos:
  assumes "0 \<le> lam" "lam < 1"
  shows "0 < es_combined (ewma_score lam (fresh_score m a src ip))"
proof -
  have "0 \<le> cpu_usage t" for t by (simp add: cpu_usage_def)
  moreover have "0 < ewma_latency st" for st by (simp add: ewma_latency_def Let_def)
  ultimately show ?thesis using assms by (simp add: ewma_score_def fresh_score_def Let_def add_nonneg_pos)
qed

lemma EWMA_sorted:
  assumes ok: "nodes_ok (ew_nodeTel r)" and fresh: "cpuEWMA r = []" "latEWMA r = []" and l: "0 \<le> ew_lambda r" "ew_lambda r < 1"
  shows "sorted_wrt (\<lambda>p q. Rtt q \<le> Rtt p) (fst (EWMA_Computing ip eps r))"
proof -
  define c0 where "c0 = map (ewma_score (ew_lambda r)) (map (fresh_score (ew_nodeTel r) (ew_edgeAgg r) (ep_Source eps)) (map fst (ew_nodeTel r)))"
  let ?cs = "exchange_sort es_combined c0"
  have ne: "?cs \<noteq> []" using ok by (simp add: exch.srt_Nil nodes_ok_def c0_def)
  have pos: "0 < es_combined c" if "c \<in> set c0" for c
    using that fresh_combined_pos [OF l] by (auto simp: c0_def)
  have "ewma_weight d \<le> ewma_weight c" if "c \<in> set c0" "d \<in> set c0" "es_combined c \<le> es_combined d" for c d
    using pos [OF that(1)] pos [OF that(2)] that(3) by (simp add: ewma_weight_def frac_le)
  then have "sorted_wrt (\<lambda>c d. ewma.share ?cs d \<le> ewma.share ?cs c) ?cs"
    unfolding ewma.share_le_iff [OF ne] by (rule exch.srt_antimono)
  then show ?thesis unfolding EWMA_shares [OF ok fresh] c0_def [symmetric] by (simp add: sorted_wrt_map)
qed

end
