(* ===== verification/Go_Heap.thy ===== *)
theory Go_Heap
  imports Sky_Prelude
begin

text \<open>
  \<^verbatim>\<open>container/heap\<close> of the Go library, which the path search (\<^verbatim>\<open>k-shortest.go\<close>) and the aggregators
  run on their queues. The operations take the methods of \<^verbatim>\<open>heap.Interface\<close> as arguments, as the Go
  package does. The locale \<^verbatim>\<open>heap_interface\<close> states the contract of these methods over the list of
  abstract elements; under it the operations keep the heap order and the multiset of elements, and
  \<^verbatim>\<open>Pop\<close> returns a smallest one. Index arguments are natural numbers except for \<^verbatim>\<open>Remove\<close>, whose
  callers pass a stored index that may be -1; an index out of range is a panic.
\<close>

section \<open>Definitions\<close>

function heap_up :: "('h \<Rightarrow> nat \<Rightarrow> nat \<Rightarrow> bool) \<Rightarrow> ('h \<Rightarrow> nat \<Rightarrow> nat \<Rightarrow> 'h) \<Rightarrow> 'h \<Rightarrow> nat \<Rightarrow> 'h" where
  "heap_up Less Swap h j =
     (let i = (j - 1) div 2 in
      if i = j \<or> \<not> Less h j i then h else heap_up Less Swap (Swap h i j) i)"
  by pat_completeness auto
termination
  by (relation "measure (\<lambda>(Less, Swap, h, j). j)") auto

declare heap_up.simps [simp del]

text \<open>The flag says whether the element moved, \<^verbatim>\<open>i > i0\<close>.\<close>

function heap_down :: "('h \<Rightarrow> nat \<Rightarrow> nat \<Rightarrow> bool) \<Rightarrow> ('h \<Rightarrow> nat \<Rightarrow> nat \<Rightarrow> 'h) \<Rightarrow> 'h \<Rightarrow> nat \<Rightarrow> nat \<Rightarrow> 'h \<times> bool" where
  "heap_down Less Swap h i n =
     (let j1 = 2 * i + 1 in
      if j1 \<ge> n then (h, False)
      else let j = (if j1 + 1 < n \<and> Less h (j1 + 1) j1 then j1 + 1 else j1) in
        if \<not> Less h j i then (h, False)
        else (fst (heap_down Less Swap (Swap h i j) j n), True))"
  by pat_completeness auto
termination
  by (relation "measure (\<lambda>(Less, Swap, h, i, n). n - i)") auto

declare heap_down.simps [simp del]

definition heap_Push :: "('h \<Rightarrow> nat) \<Rightarrow> ('h \<Rightarrow> nat \<Rightarrow> nat \<Rightarrow> bool) \<Rightarrow> ('h \<Rightarrow> nat \<Rightarrow> nat \<Rightarrow> 'h)
    \<Rightarrow> ('h \<Rightarrow> 'x \<Rightarrow> 'h) \<Rightarrow> 'h \<Rightarrow> 'x \<Rightarrow> 'h" where
  "heap_Push Len Less Swap Push h x = (let h' = Push h x in heap_up Less Swap h' (Len h' - 1))"

definition heap_Pop :: "('h \<Rightarrow> nat) \<Rightarrow> ('h \<Rightarrow> nat \<Rightarrow> nat \<Rightarrow> bool) \<Rightarrow> ('h \<Rightarrow> nat \<Rightarrow> nat \<Rightarrow> 'h)
    \<Rightarrow> ('h \<Rightarrow> 'h \<times> 'x) \<Rightarrow> 'h \<Rightarrow> ('h \<times> 'x) result" where
  "heap_Pop Len Less Swap Pop h =
     (if Len h = 0 then Inl (GoPanic ''index out of range [-1]'')
      else let n = Len h - 1 in Inr (Pop (fst (heap_down Less Swap (Swap h 0 n) 0 n))))"

definition heap_Remove :: "('h \<Rightarrow> nat) \<Rightarrow> ('h \<Rightarrow> nat \<Rightarrow> nat \<Rightarrow> bool) \<Rightarrow> ('h \<Rightarrow> nat \<Rightarrow> nat \<Rightarrow> 'h)
    \<Rightarrow> ('h \<Rightarrow> 'h \<times> 'x) \<Rightarrow> 'h \<Rightarrow> int \<Rightarrow> ('h \<times> 'x) result" where
  "heap_Remove Len Less Swap Pop h i =
     (if i < 0 \<or> i \<ge> int (Len h) then Inl (GoPanic ''index out of range'')
      else let n = Len h - 1; k = nat i in
        if n \<noteq> k
        then let (h', moved) = heap_down Less Swap (Swap h k n) k n in
          Inr (Pop (if moved then h' else heap_up Less Swap h' k))
        else Inr (Pop h))"

text \<open>The heap order on a list of keys, on its first \<^term>\<open>n\<close> elements.\<close>

definition par :: "nat \<Rightarrow> nat" where
  "par i = (i - 1) div 2"

definition heap_ord :: "('e \<Rightarrow> 'k::linorder) \<Rightarrow> 'e list \<Rightarrow> nat \<Rightarrow> bool" where
  "heap_ord key xs n = (\<forall>a < n. 0 < a \<longrightarrow> key (xs ! par a) \<le> key (xs ! a))"

text \<open>
  The order except around the hole \<^term>\<open>k\<close>: \<^term>\<open>k\<close> may violate it against its parent and its
  children, but its children are not below its parent.
\<close>

definition heap_hole :: "('e \<Rightarrow> 'k::linorder) \<Rightarrow> 'e list \<Rightarrow> nat \<Rightarrow> nat \<Rightarrow> bool" where
  "heap_hole key xs n k =
     ((\<forall>a < n. 0 < a \<longrightarrow> a \<noteq> k \<longrightarrow> par a \<noteq> k \<longrightarrow> key (xs ! par a) \<le> key (xs ! a))
      \<and> (\<forall>a < n. 0 < a \<longrightarrow> par a = k \<longrightarrow> 0 < k \<longrightarrow> key (xs ! par k) \<le> key (xs ! a)))"

definition above_ok :: "('e \<Rightarrow> 'k::linorder) \<Rightarrow> 'e list \<Rightarrow> nat \<Rightarrow> bool" where
  "above_ok key xs k = (0 < k \<longrightarrow> key (xs ! par k) \<le> key (xs ! k))"

definition below_ok :: "('e \<Rightarrow> 'k::linorder) \<Rightarrow> 'e list \<Rightarrow> nat \<Rightarrow> nat \<Rightarrow> bool" where
  "below_ok key xs n k = (\<forall>a < n. 0 < a \<longrightarrow> par a = k \<longrightarrow> key (xs ! k) \<le> key (xs ! a))"

definition swap_at :: "'e list \<Rightarrow> nat \<Rightarrow> nat \<Rightarrow> 'e list" where
  "swap_at xs i j = xs[i := xs ! j, j := xs ! i]"

section \<open>Lemmas on lists with a hole\<close>

lemma par_less: "0 < a \<Longrightarrow> par a < a"
  by (auto simp: par_def)

lemma par_eq_iff: "0 < a \<Longrightarrow> par a = k \<longleftrightarrow> a = 2 * k + 1 \<or> a = 2 * k + 2"
  by (auto simp: par_def)

lemma heap_ord_hole: "heap_ord key xs n \<longleftrightarrow> heap_hole key xs n k \<and> (k < n \<longrightarrow> above_ok key xs k) \<and> below_ok key xs n k"
proof
  assume h: "heap_ord key xs n"
  have "key (xs ! par k) \<le> key (xs ! a)" if "a < n" "0 < a" "par a = k" "0 < k" for a
  proof -
    have "key (xs ! par k) \<le> key (xs ! k)" using h that par_less [of a] by (auto simp: heap_ord_def)
    also have "\<dots> \<le> key (xs ! a)" using h that by (auto simp: heap_ord_def)
    finally show ?thesis .
  qed
  with h show "heap_hole key xs n k \<and> (k < n \<longrightarrow> above_ok key xs k) \<and> below_ok key xs n k"
    by (auto simp: heap_ord_def heap_hole_def above_ok_def below_ok_def)
next
  assume h: "heap_hole key xs n k \<and> (k < n \<longrightarrow> above_ok key xs k) \<and> below_ok key xs n k"
  have "key (xs ! par a) \<le> key (xs ! a)" if "a < n" "0 < a" for a
    using h that by (cases "par a = k"; cases "a = k") (auto simp: heap_hole_def above_ok_def below_ok_def)
  then show "heap_ord key xs n" by (simp add: heap_ord_def)
qed

lemma heap_ord_min: "heap_ord key xs n \<Longrightarrow> a < n \<Longrightarrow> key (xs ! 0) \<le> key (xs ! a)"
proof (induction a rule: less_induct)
  case (less a)
  show ?case
  proof (cases "a = 0")
    case False
    then have "key (xs ! 0) \<le> key (xs ! par a)" using less par_less [of a] by auto
    also have "\<dots> \<le> key (xs ! a)" using less.prems False by (auto simp: heap_ord_def)
    finally show ?thesis .
  qed simp
qed

lemma length_swap_at [simp]: "length (swap_at xs i j) = length xs"
  by (simp add: swap_at_def)

lemma nth_swap_at:
  "i < length xs \<Longrightarrow> j < length xs \<Longrightarrow> a < length xs \<Longrightarrow>
     swap_at xs i j ! a = (if a = i then xs ! j else if a = j then xs ! i else xs ! a)"
  by (auto simp: swap_at_def nth_list_update)

lemma mset_swap_at [simp]: "i < length xs \<Longrightarrow> j < length xs \<Longrightarrow> mset (swap_at xs i j) = mset xs"
  unfolding swap_at_def by (cases "i = j") (simp_all add: mset_swap)

text \<open>One step of the upward sift moves the hole to the parent.\<close>

lemma hole_up:
  assumes "heap_hole key xs n j" "below_ok key xs n j" "0 < j" "j < n" "n \<le> length xs"
    "key (xs ! j) < key (xs ! par j)"
  shows "heap_hole key (swap_at xs (par j) j) n (par j) \<and> below_ok key (swap_at xs (par j) j) n (par j)"
proof -
  let ?p = "par j"
  have lt: "?p < j" using assms(3) by (rule par_less)
  have nth: "swap_at xs ?p j ! a = (if a = ?p then xs ! j else if a = j then xs ! ?p else xs ! a)"
    if "a < n" for a using that assms lt by (simp add: nth_swap_at)
  have ok: "key (xs ! par a) \<le> key (xs ! a)" if "a < n" "0 < a" "a \<noteq> j" "par a \<noteq> j" for a
    using assms(1) that by (auto simp: heap_hole_def)
  have gp: "key (xs ! ?p) \<le> key (xs ! a)" if "a < n" "0 < a" "par a = j" for a
    using assms(1,3) that by (auto simp: heap_hole_def)
  have pl: "par a < n" if "a < n" "0 < a" for a using par_less [OF that(2)] that(1) by simp
  show ?thesis
  proof
    have "key (swap_at xs ?p j ! par a) \<le> key (swap_at xs ?p j ! a)" if "a < n" "0 < a" "a \<noteq> ?p" "par a \<noteq> ?p" for a
      using that ok [of a] gp [of a] pl [of a] lt assms(4) by (auto simp: nth)
    moreover have "key (swap_at xs ?p j ! par ?p) \<le> key (swap_at xs ?p j ! a)"
      if a: "a < n" "0 < a" "par a = ?p" "0 < ?p" for a
    proof -
      have pp: "key (xs ! par ?p) \<le> key (xs ! ?p)" using ok [of ?p] a(4) lt assms(4) par_less [OF a(4)] by auto
      have "key (xs ! ?p) \<le> key (xs ! a)" if "a \<noteq> j" using ok [of a] a that lt by auto
      with pp a show ?thesis using lt assms(4) par_less [OF a(4)] par_less [OF a(2)] by (auto simp: nth intro: order_trans)
    qed
    ultimately show "heap_hole key (swap_at xs ?p j) n ?p" by (simp add: heap_hole_def)
    have "key (swap_at xs ?p j ! ?p) \<le> key (swap_at xs ?p j ! a)" if a: "a < n" "0 < a" "par a = ?p" for a
    proof (cases "a = j")
      case False
      have "key (xs ! j) \<le> key (xs ! ?p)" using assms(6) by simp
      also have "\<dots> \<le> key (xs ! a)" using ok [of a] a False lt by auto
      finally show ?thesis using a False lt assms(4) par_less [OF a(2)] by (simp add: nth)
    qed (use assms lt in \<open>simp add: nth\<close>)
    then show "below_ok key (swap_at xs ?p j) n ?p" by (simp add: below_ok_def)
  qed
qed

text \<open>One step of the downward sift moves the hole to the smaller child.\<close>

lemma hole_down:
  assumes "heap_hole key xs n k" "par j = k" "0 < j" "j < n" "n \<le> length xs" "key (xs ! j) < key (xs ! k)"
    "\<And>a. a < n \<Longrightarrow> 0 < a \<Longrightarrow> par a = k \<Longrightarrow> key (xs ! j) \<le> key (xs ! a)"
  shows "heap_hole key (swap_at xs k j) n j \<and> above_ok key (swap_at xs k j) j"
proof -
  have lt: "k < j" using par_less [OF assms(3)] assms(2) by simp
  have nth: "swap_at xs k j ! a = (if a = k then xs ! j else if a = j then xs ! k else xs ! a)"
    if "a < n" for a using that assms lt by (simp add: nth_swap_at)
  have ok: "key (xs ! par a) \<le> key (xs ! a)" if "a < n" "0 < a" "a \<noteq> k" "par a \<noteq> k" for a
    using assms(1) that by (auto simp: heap_hole_def)
  have gp: "key (xs ! par k) \<le> key (xs ! a)" if "a < n" "0 < a" "par a = k" "0 < k" for a
    using assms(1) that by (auto simp: heap_hole_def)
  have pl: "par a < n" if "a < n" "0 < a" for a using par_less [OF that(2)] that(1) by simp
  have "key (swap_at xs k j ! par a) \<le> key (swap_at xs k j ! a)" if "a < n" "0 < a" "a \<noteq> j" "par a \<noteq> j" for a
    using that ok [of a] gp [OF assms(4,3,2)] assms(7) [of a] pl [of a] par_less [of k] lt
    by (cases "a = k") (auto simp: nth)
  moreover have "key (swap_at xs k j ! par j) \<le> key (swap_at xs k j ! a)" if "a < n" "0 < a" "par a = j" for a
    using that ok [of a] par_less [of a] lt assms(2) by (auto simp: nth)
  ultimately have "heap_hole key (swap_at xs k j) n j" by (simp add: heap_hole_def)
  moreover have "above_ok key (swap_at xs k j) j" using assms lt by (simp add: above_ok_def nth)
  ultimately show ?thesis ..
qed

section \<open>The contract of heap.Interface\<close>

text \<open>
  \<^term>\<open>elems\<close> is the list of abstract elements, \<^term>\<open>inv\<close> an invariant of the representation that
  the methods keep (the stored indices agree with the positions), \<^term>\<open>fresh\<close> what a pushed value has
  to satisfy and \<^term>\<open>abs\<close> its abstract element.
\<close>

locale heap_interface =
  fixes Len :: "'h \<Rightarrow> nat" and Less :: "'h \<Rightarrow> nat \<Rightarrow> nat \<Rightarrow> bool" and Swap :: "'h \<Rightarrow> nat \<Rightarrow> nat \<Rightarrow> 'h"
    and Push :: "'h \<Rightarrow> 'x \<Rightarrow> 'h" and Pop :: "'h \<Rightarrow> 'h \<times> 'x"
    and elems :: "'h \<Rightarrow> 'e list" and abs :: "'h \<Rightarrow> 'x \<Rightarrow> 'e" and key :: "'e \<Rightarrow> 'k::linorder"
    and inv :: "'h \<Rightarrow> bool" and fresh :: "'h \<Rightarrow> 'x \<Rightarrow> bool"
  assumes Len_elems: "Len h = length (elems h)"
    and Less_key: "i < Len h \<Longrightarrow> j < Len h \<Longrightarrow> Less h i j \<longleftrightarrow> key (elems h ! i) < key (elems h ! j)"
    and Swap_elems: "inv h \<Longrightarrow> i < Len h \<Longrightarrow> j < Len h \<Longrightarrow> elems (Swap h i j) = swap_at (elems h) i j"
    and Swap_inv: "inv h \<Longrightarrow> i < Len h \<Longrightarrow> j < Len h \<Longrightarrow> inv (Swap h i j)"
    and Push_elems: "inv h \<Longrightarrow> fresh h x \<Longrightarrow> elems (Push h x) = elems h @ [abs h x]"
    and Push_inv: "inv h \<Longrightarrow> fresh h x \<Longrightarrow> inv (Push h x)"
    and Pop_elems: "inv h \<Longrightarrow> 0 < Len h \<Longrightarrow> Pop h = (h', x) \<Longrightarrow> elems h' = butlast (elems h) \<and> abs h' x = last (elems h)"
    and Pop_inv: "inv h \<Longrightarrow> 0 < Len h \<Longrightarrow> Pop h = (h', x) \<Longrightarrow> inv h' \<and> fresh h' x"
begin

definition heap_ok :: "'h \<Rightarrow> bool" where
  "heap_ok h = (inv h \<and> heap_ord key (elems h) (Len h))"

lemma up_correct:
  assumes "inv h" "heap_hole key (elems h) n j" "below_ok key (elems h) n j" "j < n" "n \<le> Len h"
  defines "h' \<equiv> heap_up Less Swap h j"
  shows "inv h' \<and> heap_ord key (elems h') n \<and> mset (elems h') = mset (elems h)
    \<and> (\<forall>a. n \<le> a \<longrightarrow> a < Len h \<longrightarrow> elems h' ! a = elems h ! a)"
  using assms(1-5) unfolding h'_def
proof (induction j arbitrary: h rule: less_induct)
  case (less j)
  show ?case
  proof (cases "par j = j \<or> \<not> Less h j (par j)")
    case True
    then have "heap_up Less Swap h j = h" by (simp add: heap_up.simps [of _ _ h j] par_def)
    moreover have "above_ok key (elems h) j"
      using True less.prems par_less [of j] Less_key [of j h "par j"] by (auto simp: above_ok_def)
    ultimately show ?thesis using less.prems heap_ord_hole [of key "elems h" n j] by simp
  next
    case False
    let ?h = "Swap h (par j) j"
    have j: "0 < j" using False by (auto simp: par_def)
    have lens: "par j < Len h" "j < Len h" using par_less [OF j] less.prems by auto
    have sw: "elems ?h = swap_at (elems h) (par j) j" "inv ?h"
      using lens less.prems by (simp_all add: Swap_elems Swap_inv)
    have "heap_hole key (elems ?h) n (par j) \<and> below_ok key (elems ?h) n (par j)"
      unfolding sw(1) using less.prems j False lens
      by (intro hole_up) (auto simp: Len_elems [symmetric] Less_key)
    then have "inv (heap_up Less Swap ?h (par j)) \<and> heap_ord key (elems (heap_up Less Swap ?h (par j))) n
        \<and> mset (elems (heap_up Less Swap ?h (par j))) = mset (elems ?h)
        \<and> (\<forall>a. n \<le> a \<longrightarrow> a < Len ?h \<longrightarrow> elems (heap_up Less Swap ?h (par j)) ! a = elems ?h ! a)"
      using less.prems sw par_less [OF j] by (intro less.IH) (auto simp: Len_elems)
    moreover have "heap_up Less Swap h j = heap_up Less Swap ?h (par j)"
      using False by (simp add: heap_up.simps [of _ _ h j] par_def Let_def)
    ultimately show ?thesis using sw lens less.prems par_less [OF j]
      by (auto simp: Len_elems nth_swap_at)
  qed
qed

lemma smaller_child:
  assumes "2 * k + 1 < n" "n \<le> Len h"
  defines "j \<equiv> (if 2 * k + 2 < n \<and> Less h (2 * k + 2) (2 * k + 1) then 2 * k + 2 else 2 * k + 1)"
  shows "j < n" "0 < j" "par j = k" "k < j"
    "\<And>a. a < n \<Longrightarrow> 0 < a \<Longrightarrow> par a = k \<Longrightarrow> key (elems h ! j) \<le> key (elems h ! a)"
proof -
  show "j < n" "0 < j" "par j = k" "k < j" using assms(1) by (auto simp: j_def par_def)
  show "key (elems h ! j) \<le> key (elems h ! a)" if "a < n" "0 < a" "par a = k" for a
  proof -
    have "a = 2 * k + 1 \<or> a = 2 * k + 2" using that par_eq_iff by blast
    then show ?thesis
      using that assms Less_key [of "2 * k + 2" h "2 * k + 1"] by (auto simp: j_def)
  qed
qed

text \<open>The step of the downward sift, and that nothing happens when the children are not smaller.\<close>

lemma down_step:
  assumes "inv h" "heap_hole key (elems h) n k" "k < n" "n \<le> Len h"
  obtains "heap_down Less Swap h k n = (h, False)" "below_ok key (elems h) n k"
  | j where "heap_down Less Swap h k n = (fst (heap_down Less Swap (Swap h k j) j n), True)"
      "k < j" "j < n" "heap_hole key (elems (Swap h k j)) n j" "above_ok key (elems (Swap h k j)) j"
proof (cases "2 * k + 1 < n")
  case False
  then have "below_ok key (elems h) n k" by (auto simp: below_ok_def par_eq_iff)
  with False that(1) show thesis by (simp add: heap_down.simps [of _ _ h k n])
next
  case True
  define j where "j = (if 2 * k + 2 < n \<and> Less h (2 * k + 2) (2 * k + 1) then 2 * k + 2 else 2 * k + 1)"
  note j = smaller_child [OF True assms(4), folded j_def]
  have dn: "heap_down Less Swap h k n =
      (if \<not> Less h j k then (h, False) else (fst (heap_down Less Swap (Swap h k j) j n), True))"
    using True by (simp add: heap_down.simps [of _ _ h k n] Let_def j_def)
  have key: "Less h j k \<longleftrightarrow> key (elems h ! j) < key (elems h ! k)"
    using j assms by (intro Less_key) auto
  show thesis
  proof (cases "Less h j k")
    case False
    then have "below_ok key (elems h) n k"
      using key j(5) by (force simp: below_ok_def not_less intro: order_trans)
    with False dn that(1) show thesis by simp
  next
    case less: True
    have "elems (Swap h k j) = swap_at (elems h) k j" using assms j by (simp add: Swap_elems)
    moreover have "heap_hole key (swap_at (elems h) k j) n j \<and> above_ok key (swap_at (elems h) k j) j"
      using assms j key less by (intro hole_down) (auto simp: Len_elems [symmetric])
    ultimately show thesis using that(2) [of j] dn less j by simp
  qed
qed

lemma down_correct:
  assumes "inv h" "heap_hole key (elems h) n k" "above_ok key (elems h) k" "k < n" "n \<le> Len h"
  defines "h' \<equiv> fst (heap_down Less Swap h k n)"
  shows "inv h' \<and> heap_ord key (elems h') n \<and> mset (elems h') = mset (elems h)
    \<and> (\<forall>a. n \<le> a \<longrightarrow> a < Len h \<longrightarrow> elems h' ! a = elems h ! a)"
  using assms(1-5) unfolding h'_def
proof (induction "n - k" arbitrary: h k rule: less_induct)
  case less
  show ?case
  proof (rule down_step [OF less.prems(1,2,4,5)])
    assume "heap_down Less Swap h k n = (h, False)" "below_ok key (elems h) n k"
    then show ?thesis using less.prems heap_ord_hole [of key "elems h" n k] by simp
  next
    fix j
    let ?h = "Swap h k j"
    assume j: "heap_down Less Swap h k n = (fst (heap_down Less Swap ?h j n), True)" "k < j" "j < n"
      "heap_hole key (elems ?h) n j" "above_ok key (elems ?h) j"
    have sw: "elems ?h = swap_at (elems h) k j" "inv ?h"
      using less.prems j by (simp_all add: Swap_elems Swap_inv)
    then have "inv (fst (heap_down Less Swap ?h j n)) \<and> heap_ord key (elems (fst (heap_down Less Swap ?h j n))) n
        \<and> mset (elems (fst (heap_down Less Swap ?h j n))) = mset (elems ?h)
        \<and> (\<forall>a. n \<le> a \<longrightarrow> a < Len ?h \<longrightarrow> elems (fst (heap_down Less Swap ?h j n)) ! a = elems ?h ! a)"
      using less.prems j by (intro less.hyps) (auto simp: Len_elems)
    then show ?thesis using sw j less.prems by (auto simp: Len_elems nth_swap_at)
  qed
qed

text \<open>Taking the last element off a heap whose order holds before it.\<close>

lemma pop_last:
  assumes "inv h" "heap_ord key (elems h) n" "Len h = Suc n"
  shows "\<exists>h' x. Pop h = (h', x) \<and> heap_ok h' \<and> fresh h' x \<and> abs h' x = elems h ! n
    \<and> mset (elems h) = add_mset (elems h ! n) (mset (elems h'))"
proof -
  obtain h' x where pop: "Pop h = (h', x)" by (cases "Pop h")
  have el: "elems h' = butlast (elems h)" "abs h' x = last (elems h)" "inv h'" "fresh h' x"
    using Pop_elems [OF assms(1) _ pop] Pop_inv [OF assms(1) _ pop] assms(3) by auto
  have len: "length (elems h) = Suc n" using assms(3) by (simp add: Len_elems)
  then have last: "last (elems h) = elems h ! n" by (cases "elems h" rule: rev_cases) (auto simp: nth_append)
  have "elems h = butlast (elems h) @ [last (elems h)]" using len by (cases "elems h" rule: rev_cases) auto
  then have "mset (elems h) = add_mset (elems h ! n) (mset (elems h'))"
    unfolding el(1) last [symmetric] by (metis mset_append mset_single_iff_right union_mset_add_mset_right add.right_neutral mset.simps)
  moreover have "heap_ord key (elems h') n"
    using assms(2) len by (auto simp: heap_ord_def el(1) nth_butlast par_def)
  ultimately show ?thesis using pop el len last by (auto simp: heap_ok_def Len_elems)
qed

lemma push_correct:
  assumes "heap_ok h" "fresh h x"
  defines "h' \<equiv> heap_Push Len Less Swap Push h x"
  shows "heap_ok h' \<and> mset (elems h') = add_mset (abs h x) (mset (elems h))"
proof -
  let ?h = "Push h x" and ?n = "Len h"
  have el: "elems ?h = elems h @ [abs h x]" "inv ?h"
    using assms by (simp_all add: heap_ok_def Push_elems Push_inv)
  then have len: "Len ?h = Suc ?n" by (simp add: Len_elems)
  have "heap_hole key (elems ?h) (Suc ?n) ?n" "below_ok key (elems ?h) (Suc ?n) ?n"
    using assms(1) par_less [of "Len h"] el(1)
    by (auto simp: heap_ok_def heap_hole_def heap_ord_def below_ok_def nth_append Len_elems less_Suc_eq dest: par_less)
  from up_correct [OF el(2) this] len
  have "inv h' \<and> heap_ord key (elems h') (Suc ?n) \<and> mset (elems h') = mset (elems ?h)"
    by (simp add: h'_def heap_Push_def Let_def)
  moreover from this have "Len h' = Suc ?n" using len by (metis Len_elems mset_eq_length)
  ultimately show ?thesis using el(1) by (simp add: heap_ok_def)
qed

lemma swap_last_hole:
  assumes "heap_ord key (elems h) (Suc n)" "inv h" "Len h = Suc n" "k < n"
  shows "heap_hole key (elems (Swap h k n)) n k" "elems (Swap h k n) ! n = elems h ! k"
proof -
  have sw: "elems (Swap h k n) = swap_at (elems h) k n" using assms by (simp add: Swap_elems)
  have nth: "elems (Swap h k n) ! a = (if a = k then elems h ! n else if a = n then elems h ! k else elems h ! a)"
    if "a \<le> n" for a using that assms by (simp add: sw nth_swap_at Len_elems)
  show "elems (Swap h k n) ! n = elems h ! k" using assms by (simp add: nth)
  have hole: "heap_hole key (elems h) (Suc n) k" using assms(1) heap_ord_hole by blast
  have pk: "0 < k \<Longrightarrow> elems (Swap h k n) ! par k = elems h ! par k"
    using assms(4) par_less [of k] nth [of "par k"] by auto
  show "heap_hole key (elems (Swap h k n)) n k"
    unfolding heap_hole_def
  proof (intro conjI allI impI)
    fix a
    assume a: "a < n" "0 < a" "a \<noteq> k" "par a \<noteq> k"
    then show "key (elems (Swap h k n) ! par a) \<le> key (elems (Swap h k n) ! a)"
      using hole par_less [OF a(2)] by (simp add: nth heap_hole_def)
  next
    fix a
    assume a: "a < n" "0 < a" "par a = k" "0 < k"
    then show "key (elems (Swap h k n) ! par k) \<le> key (elems (Swap h k n) ! a)"
      using hole par_less [OF a(2)] by (simp add: nth pk heap_hole_def)
  qed
qed

lemma pop_correct:
  assumes "heap_ok h" "0 < Len h"
  shows "\<exists>h' x. heap_Pop Len Less Swap Pop h = Inr (h', x) \<and> heap_ok h' \<and> fresh h' x
    \<and> mset (elems h) = add_mset (abs h' x) (mset (elems h'))
    \<and> (\<forall>e \<in> set (elems h). key (abs h' x) \<le> key e)"
proof -
  define n where "n = Len h - 1"
  have len: "Len h = Suc n" using assms(2) by (simp add: n_def)
  have h: "inv h" "heap_ord key (elems h) (Suc n)" using assms(1) len by (auto simp: heap_ok_def)
  let ?h1 = "Swap h 0 n"
  define h2 where "h2 = fst (heap_down Less Swap ?h1 0 n)"
  have sw: "inv ?h1" "elems ?h1 = swap_at (elems h) 0 n" using h len by (simp_all add: Swap_elems Swap_inv)
  then have len1: "Len ?h1 = Suc n" "mset (elems ?h1) = mset (elems h)" using len by (simp_all add: Len_elems)
  have h2: "inv h2 \<and> heap_ord key (elems h2) n \<and> mset (elems h2) = mset (elems h) \<and> elems h2 ! n = elems h ! 0"
  proof (cases "n = 0")
    case True
    then have "heap_down Less Swap ?h1 0 n = (?h1, False)" by (subst heap_down.simps) simp
    then have "h2 = ?h1" by (simp add: h2_def)
    then show ?thesis using sw len1 len True by (simp add: heap_ord_def swap_at_def Len_elems)
  next
    case False
    then show ?thesis unfolding h2_def
      using down_correct [OF sw(1) swap_last_hole(1) [OF h(2,1) len, of 0]] swap_last_hole(2) [OF h(2,1) len, of 0] len1
      by (simp add: above_ok_def)
  qed
  then have "length (elems h2) = length (elems h)" by (metis mset_eq_length)
  then have "Len h2 = Suc n" using len by (simp add: Len_elems)
  from pop_last [OF _ _ this] h2 obtain h' x where x: "Pop h2 = (h', x)" "heap_ok h'" "fresh h' x"
      "abs h' x = elems h ! 0" "mset (elems h) = add_mset (elems h ! 0) (mset (elems h'))"
    by metis
  have "\<forall>e \<in> set (elems h). key (elems h ! 0) \<le> key e"
    using heap_ord_min [OF h(2)] len by (auto simp: in_set_conv_nth Len_elems)
  moreover have "heap_Pop Len Less Swap Pop h = Inr (h', x)"
    using len x(1) by (simp add: heap_Pop_def h2_def)
  ultimately show ?thesis using x by auto
qed

lemma remove_correct:
  assumes "heap_ok h" "0 \<le> i" "i < int (Len h)"
  shows "\<exists>h' x. heap_Remove Len Less Swap Pop h i = Inr (h', x) \<and> heap_ok h' \<and> fresh h' x
    \<and> abs h' x = elems h ! nat i \<and> mset (elems h) = add_mset (abs h' x) (mset (elems h'))"
proof -
  define n where "n = Len h - 1"
  define k where "k = nat i"
  have len: "Len h = Suc n" "k < Suc n" using assms(2,3) by (simp_all add: n_def k_def)
  have h: "inv h" "heap_ord key (elems h) (Suc n)" using assms(1) len by (auto simp: heap_ok_def)
  define h2 where "h2 = (if n \<noteq> k then let (h', moved) = heap_down Less Swap (Swap h k n) k n in
      (if moved then h' else heap_up Less Swap h' k) else h)"
  have h2: "inv h2 \<and> heap_ord key (elems h2) n \<and> mset (elems h2) = mset (elems h) \<and> elems h2 ! n = elems h ! k"
  proof (cases "n = k")
    case True
    then show ?thesis using h by (simp add: h2_def heap_ord_def)
  next
    case False
    let ?h1 = "Swap h k n"
    have k: "k < n" using False len by simp
    have sw: "inv ?h1" "elems ?h1 = swap_at (elems h) k n" using h len by (simp_all add: Swap_elems Swap_inv)
    then have len1: "Len ?h1 = Suc n" "mset (elems ?h1) = mset (elems h)" using len by (simp_all add: Len_elems)
    note hole = swap_last_hole [OF h(2,1) len(1) k]
    have "inv h2 \<and> heap_ord key (elems h2) n \<and> mset (elems h2) = mset (elems ?h1) \<and> elems h2 ! n = elems ?h1 ! n"
    proof (rule down_step [OF sw(1) hole(1) k])
      show "n \<le> Len ?h1" using len1 by simp
      assume "heap_down Less Swap ?h1 k n = (?h1, False)" "below_ok key (elems ?h1) n k"
      then show ?thesis using up_correct [OF sw(1) hole(1) _ k] len1 False by (simp add: h2_def)
    next
      fix j
      let ?h = "Swap ?h1 k j"
      assume j: "heap_down Less Swap ?h1 k n = (fst (heap_down Less Swap ?h j n), True)" "k < j" "j < n"
        "heap_hole key (elems ?h) n j" "above_ok key (elems ?h) j"
      have "inv ?h" "elems ?h = swap_at (elems ?h1) k j" using sw len1 j k by (simp_all add: Swap_elems Swap_inv)
      then show ?thesis using down_correct [of ?h n j] j len1 False k
        by (simp add: h2_def Len_elems nth_swap_at)
    qed
    then show ?thesis using hole(2) len1 by simp
  qed
  then have "length (elems h2) = length (elems h)" by (metis mset_eq_length)
  then have "Len h2 = Suc n" using len by (simp add: Len_elems)
  from pop_last [OF _ _ this] h2 obtain h' x where x: "Pop h2 = (h', x)" "heap_ok h'" "fresh h' x"
      "abs h' x = elems h ! k" "mset (elems h) = add_mset (elems h ! k) (mset (elems h'))"
    by metis
  have "heap_Remove Len Less Swap Pop h i = Inr (Pop h2)"
    using assms(2,3) by (simp add: heap_Remove_def h2_def Let_def k_def n_def split_beta)
  with x show ?thesis unfolding k_def by auto
qed

end

end
