(* ===== verification/K_Shortest.thy ===== *)
theory K_Shortest
  imports Graph_Manager Go_Heap Proxy_Util
begin

text \<open>
  \<^verbatim>\<open>src/control-plane/routing/core-domain/k-shortest.go\<close>: the label-setting search \<^verbatim>\<open>findShortestPath\<close>, Yen's
  algorithm over it, and the solver that answers a routing request. The graph is a map from a node to its
  outgoing edges; floats are reals, the infinity of unreached nodes is \<^verbatim>\<open>PInf\<close>; queue entries are owned by
  the queue, so they are values. The two unbounded loops have fuel, and the theory \<^verbatim>\<open>Shortest_Path\<close> shows that the
  fuel suffices.
\<close>

section \<open>Definitions\<close>

datatype ext = Fin real | PInf

instantiation ext :: linorder
begin

definition less_eq_ext :: "ext \<Rightarrow> ext \<Rightarrow> bool" where
  "less_eq_ext x y = (case y of PInf \<Rightarrow> True | Fin b \<Rightarrow> (case x of PInf \<Rightarrow> False | Fin a \<Rightarrow> a \<le> b))"

definition less_ext :: "ext \<Rightarrow> ext \<Rightarrow> bool" where
  "less_ext x y = (x \<le> y \<and> \<not> y \<le> x)"

instance
  by standard (auto simp: less_eq_ext_def less_ext_def split: ext.splits)

end

fun fin_of :: "ext \<Rightarrow> real" where
  "fin_of (Fin a) = a"
| "fin_of PInf = 0"

fun ext_plus :: "ext \<Rightarrow> real \<Rightarrow> ext" where
  "ext_plus (Fin a) b = Fin (a + b)"
| "ext_plus PInf b = PInf"

record KShortestSolver =
  ks_edges :: "Edge list"
  ks_alpha :: real
  ks_k :: int
  ks_useLatency :: bool

definition NewKShortestSolverWithLatency :: "Edge list \<Rightarrow> int \<Rightarrow> bool \<Rightarrow> KShortestSolver" where
  "NewKShortestSolverWithLatency edges k useLatency =
     \<lparr>ks_edges = edges, ks_alpha = 1, ks_k = (if k \<le> 0 then 5 else k), ks_useLatency = useLatency\<rparr>"

definition NewKShortestSolver :: "Edge list \<Rightarrow> int \<Rightarrow> KShortestSolver" where
  "NewKShortestSolver edges k = NewKShortestSolverWithLatency edges k False"

record Path =
  p_hops :: "string list"
  p_cost :: real
  p_rawRTT :: real

type_synonym graph = "(string, Edge list) gomap"

subsection \<open>The priority queue\<close>

record PQNode =
  pq_node :: string
  pq_cost :: real
  pq_rawRTT :: real
  pq_index :: int

type_synonym PriorityQueue = "PQNode list"

definition PQ_Len :: "PriorityQueue \<Rightarrow> nat" where
  "PQ_Len pq = length pq"

definition PQ_Less :: "PriorityQueue \<Rightarrow> nat \<Rightarrow> nat \<Rightarrow> bool" where
  "PQ_Less pq i j = (pq_cost (pq ! i) < pq_cost (pq ! j))"

definition PQ_Swap :: "PriorityQueue \<Rightarrow> nat \<Rightarrow> nat \<Rightarrow> PriorityQueue" where
  "PQ_Swap pq i j = pq[i := (pq ! j)\<lparr>pq_index := int i\<rparr>, j := (pq ! i)\<lparr>pq_index := int j\<rparr>]"

definition PQ_Push :: "PriorityQueue \<Rightarrow> PQNode \<Rightarrow> PriorityQueue" where
  "PQ_Push pq x = pq @ [x\<lparr>pq_index := int (length pq)\<rparr>]"

definition PQ_Pop :: "PriorityQueue \<Rightarrow> PriorityQueue \<times> PQNode" where
  "PQ_Pop pq = (butlast pq, (last pq)\<lparr>pq_index := - 1\<rparr>)"

definition pq_push :: "PriorityQueue \<Rightarrow> PQNode \<Rightarrow> PriorityQueue" where
  "pq_push = heap_Push PQ_Len PQ_Less PQ_Swap PQ_Push"

definition pq_pop :: "PriorityQueue \<Rightarrow> (PriorityQueue \<times> PQNode) result" where
  "pq_pop = heap_Pop PQ_Len PQ_Less PQ_Swap PQ_Pop"

subsection \<open>Path helpers\<close>

fun has_dup_from :: "string list \<Rightarrow> string list \<Rightarrow> bool" where
  "has_dup_from seen [] = False"
| "has_dup_from seen (h # hs) = (if h \<in> set seen then True else has_dup_from (h # seen) hs)"

definition hasDuplicateNodes :: "string list \<Rightarrow> bool" where
  "hasDuplicateNodes hs = has_dup_from [] hs"

fun dedup_from :: "string \<Rightarrow> string list \<Rightarrow> string list" where
  "dedup_from p [] = []"
| "dedup_from p (h # hs) = (if h \<noteq> p then h # dedup_from h hs else dedup_from h hs)"

definition removeConsecutiveDuplicates :: "string list \<Rightarrow> string list" where
  "removeConsecutiveDuplicates hs =
     (if length hs \<le> 1 then hs else hd hs # dedup_from (hd hs) (tl hs))"

definition isInPath :: "string \<Rightarrow> string list \<Rightarrow> bool" where
  "isInPath n p = list_ex (\<lambda>m. m = n) p"

definition pathsSharePrefix :: "string list \<Rightarrow> string list \<Rightarrow> bool" where
  "pathsSharePrefix p1 p2 =
     (let (p1, p2) = (if length p1 < length p2 then (p2, p1) else (p1, p2)) in take (length p2) p1 = p2)"

definition path_str :: "string list \<Rightarrow> string" where
  "path_str hs = join ''->'' hs"

definition isPathInQueue :: "Path \<Rightarrow> PriorityQueue \<Rightarrow> bool" where
  "isPathInQueue p pq = list_ex (\<lambda>it. pq_node it = path_str (p_hops p)) pq"

definition isPathInList :: "Path \<Rightarrow> Path list \<Rightarrow> bool" where
  "isPathInList p ps = list_ex (\<lambda>q. path_str (p_hops q) = path_str (p_hops p)) ps"

definition ks_weight :: "KShortestSolver \<Rightarrow> Edge \<Rightarrow> real" where
  "ks_weight ks e = (if ks_useLatency ks then Latency e * ks_alpha ks else EdgeWeight e * ks_alpha ks)"

definition first_edge :: "graph \<Rightarrow> string \<Rightarrow> string \<Rightarrow> Edge option" where
  "first_edge g src dst = find (\<lambda>e. DestinationIp e = dst) (gm_list g src)"

fun calculatePathCost :: "KShortestSolver \<Rightarrow> string list \<Rightarrow> graph \<Rightarrow> real" where
  "calculatePathCost ks (u # v # p) g =
     (case first_edge g u v of Some e \<Rightarrow> ks_weight ks e | None \<Rightarrow> 0) + calculatePathCost ks (v # p) g"
| "calculatePathCost ks _ g = 0"

fun calculatePathRTT :: "string list \<Rightarrow> graph \<Rightarrow> real" where
  "calculatePathRTT (u # v # p) g =
     (case first_edge g u v of Some e \<Rightarrow> Latency e | None \<Rightarrow> 0) + calculatePathRTT (v # p) g"
| "calculatePathRTT _ g = 0"

definition ks_selectTopPaths :: "Path list \<Rightarrow> int \<Rightarrow> Path list" where
  "ks_selectTopPaths paths cnt =
     (if int (length paths) \<le> cnt then paths
      else let shortPaths = exchange_sort p_rawRTT (filter (\<lambda>p. length (p_hops p) \<le> 4) paths);
               longPaths = exchange_sort p_rawRTT (filter (\<lambda>p. \<not> length (p_hops p) \<le> 4) paths)
           in take (nat cnt) (shortPaths @ longPaths))"

subsection \<open>The search\<close>

text \<open>The labels of the search: reading a map at a missing key gives zero.\<close>

definition label :: "(string, ext) gomap \<Rightarrow> string \<Rightarrow> ext" where
  "label m n = (case gm_get m n of Some x \<Rightarrow> x | None \<Rightarrow> Fin 0)"

definition flag :: "(string, bool) gomap \<Rightarrow> string \<Rightarrow> bool" where
  "flag m n = (case gm_get m n of Some b \<Rightarrow> b | None \<Rightarrow> False)"

record search =
  s_dist :: "(string, ext) gomap"
  s_prev :: "(string, string) gomap"
  s_raw :: "(string, ext) gomap"
  s_pq :: PriorityQueue

definition init_label :: "(string, ext) gomap \<Rightarrow> string \<Rightarrow> (string, ext) gomap" where
  "init_label m n = (if n \<in> set (map fst m) then m else gm_set m n PInf)"

definition init_labels :: "graph \<Rightarrow> (string, ext) gomap" where
  "init_labels g = foldl init_label [] (map fst g @ concat (map (\<lambda>(n, es). map DestinationIp es) g))"

definition relax :: "KShortestSolver \<Rightarrow> (string, bool) gomap \<Rightarrow> (string, bool) gomap \<Rightarrow> string \<Rightarrow> real \<Rightarrow> search \<Rightarrow> Edge \<Rightarrow> search" where
  "relax ks forbiddenNodes forbiddenEdges currNode currCost st e =
     (let nextNode = DestinationIp e in
      if flag forbiddenNodes nextNode then st
      else if flag forbiddenEdges (edge_key currNode nextNode) then st
      else let newCost = currCost + ks_weight ks e;
               newRTT = ext_plus (label (s_raw st) currNode) (Latency e)
           in if Fin newCost < label (s_dist st) nextNode
              then st\<lparr>s_dist := gm_set (s_dist st) nextNode (Fin newCost),
                      s_raw := gm_set (s_raw st) nextNode newRTT,
                      s_prev := gm_set (s_prev st) nextNode currNode,
                      s_pq := pq_push (s_pq st) \<lparr>pq_node = nextNode, pq_cost = newCost, pq_rawRTT = 0, pq_index = 0\<rparr>\<rparr>
              else st)"

fun build_path :: "nat \<Rightarrow> (string, string) gomap \<Rightarrow> string \<Rightarrow> string list \<Rightarrow> string list result" where
  "build_path fuel prev n path =
     (if n = [] then Inr path
      else case fuel of 0 \<Rightarrow> Inl GoDiverges
           | Suc fuel' \<Rightarrow> build_path fuel' prev (case gm_get prev n of Some m \<Rightarrow> m | None \<Rightarrow> []) (n # path))"

declare build_path.simps [simp del]

definition has_consecutive :: "string list \<Rightarrow> bool" where
  "has_consecutive p = list_ex (\<lambda>i. p ! i = p ! Suc i) [0 ..< length p - 1]"

definition found_path :: "search \<Rightarrow> string \<Rightarrow> real \<Rightarrow> Path result" where
  "found_path st t currCost =
     bindr (build_path (length (s_prev st) + 2) (s_prev st) t []) (\<lambda>path.
       let path = (if has_consecutive path then removeConsecutiveDuplicates path else path) in
       Inr \<lparr>p_hops = path, p_cost = currCost, p_rawRTT = fin_of (label (s_raw st) t)\<rparr>)"

fun search_loop :: "nat \<Rightarrow> KShortestSolver \<Rightarrow> string \<Rightarrow> graph \<Rightarrow> (string, bool) gomap \<Rightarrow> (string, bool) gomap \<Rightarrow> search \<Rightarrow> Path result" where
  "search_loop fuel ks t g fN fE st =
     (case fuel of 0 \<Rightarrow> Inl GoDiverges
      | Suc fuel' \<Rightarrow>
          if length (s_pq st) > 0
          then bindr (pq_pop (s_pq st)) (\<lambda>(pq, u).
                 let st = st\<lparr>s_pq := pq\<rparr>; currNode = pq_node u; currCost = pq_cost u in
                 if Fin currCost > label (s_dist st) currNode then search_loop fuel' ks t g fN fE st
                 else if currNode = t then found_path st t currCost
                 else if label (s_dist st) t \<noteq> PInf then search_loop fuel' ks t g fN fE st
                 else search_loop fuel' ks t g fN fE (foldl (relax ks fN fE currNode currCost) st (gm_list g currNode)))
          else Inl (GoError ''no path found''))"

declare search_loop.simps [simp del]

definition edge_count :: "graph \<Rightarrow> nat" where
  "edge_count g = sum_list (map (length \<circ> snd) g)"

definition findShortestPath :: "KShortestSolver \<Rightarrow> string \<Rightarrow> string \<Rightarrow> graph \<Rightarrow> (string, bool) gomap \<Rightarrow> (string, bool) gomap \<Rightarrow> Path result" where
  "findShortestPath ks s t g fN fE =
     (let m = gm_set (init_labels g) s (Fin 0) in
      search_loop (edge_count g + 2) ks t g fN fE
        \<lparr>s_dist = m, s_prev = [], s_raw = m,
         s_pq = pq_push [] \<lparr>pq_node = s, pq_cost = 0, pq_rawRTT = 0, pq_index = 0\<rparr>\<rparr>)"

subsection \<open>Yen's algorithm\<close>

text \<open>The edges of the spur node that are left for a spur path, first without those back into the root path, then without those the found paths with this root took.\<close>

definition spur_edges :: "Path list \<Rightarrow> nat \<Rightarrow> string list \<Rightarrow> Edge list \<Rightarrow> Edge list" where
  "spur_edges A j rootPath es =
     foldl (\<lambda>es p. if length (p_hops p) > j \<and> pathsSharePrefix (p_hops p) rootPath \<and> j + 1 < length (p_hops p)
                   then filter (\<lambda>e. DestinationIp e \<noteq> p_hops p ! (j + 1)) es else es)
       (filter (\<lambda>e. \<not> isInPath (DestinationIp e) rootPath) es) A"

definition root_flags :: "string list \<Rightarrow> (string, bool) gomap" where
  "root_flags ns = foldl (\<lambda>m n. gm_set m n True) [] ns"

text \<open>One spur node of one found path: the graph copy and the candidates after it.\<close>

definition yen_spur :: "KShortestSolver \<Rightarrow> string \<Rightarrow> Path list \<Rightarrow> Path \<Rightarrow> nat \<Rightarrow> graph \<times> PriorityQueue \<Rightarrow> (graph \<times> PriorityQueue) result" where
  "yen_spur ks t A prevPath j gB =
     (let (g, B) = gB; spurNode = p_hops prevPath ! j; rootPath = take (j + 1) (p_hops prevPath) in
      case gm_get g spurNode of
        None \<Rightarrow> Inr (g, B)
      | Some originalEdges \<Rightarrow>
          let forbiddenNodes = root_flags (butlast rootPath);
              g1 = gm_set g spurNode (spur_edges A j rootPath originalEdges);
              restored = gm_set g1 spurNode originalEdges
          in if spurNode = t \<or> isInPath t rootPath then Inr (restored, B)
             else case findShortestPath ks spurNode t g1 forbiddenNodes [] of
                    Inl (GoError _) \<Rightarrow> Inr (restored, B)
                  | Inl f \<Rightarrow> Inl f
                  | Inr spurPath \<Rightarrow>
                      if hasDuplicateNodes (p_hops spurPath) then Inr (g1, B)
                      else let completePath = \<lparr>p_hops = removeConsecutiveDuplicates (butlast rootPath @ p_hops spurPath),
                                 p_cost = calculatePathCost ks rootPath g1 + p_cost spurPath,
                                 p_rawRTT = calculatePathRTT rootPath g1 + p_rawRTT spurPath\<rparr>;
                               B' = (if \<not> hasDuplicateNodes (p_hops completePath)
                                        \<and> \<not> isPathInList completePath A \<and> \<not> isPathInQueue completePath B
                                     then pq_push B \<lparr>pq_node = path_str (p_hops completePath), pq_cost = p_cost completePath,
                                                     pq_rawRTT = p_rawRTT completePath, pq_index = 0\<rparr>
                                     else B)
                           in Inr (restored, B'))"

fun yen_spurs :: "KShortestSolver \<Rightarrow> string \<Rightarrow> Path list \<Rightarrow> (Path \<times> nat) list \<Rightarrow> graph \<times> PriorityQueue \<Rightarrow> (graph \<times> PriorityQueue) result" where
  "yen_spurs ks t A [] gB = Inr gB"
| "yen_spurs ks t A ((p, j) # pjs) gB = bindr (yen_spur ks t A p j gB) (yen_spurs ks t A pjs)"

definition spur_points :: "Path list \<Rightarrow> (Path \<times> nat) list" where
  "spur_points A = concat (map (\<lambda>p. map (Pair p) [0 ..< length (p_hops p) - 1]) A)"

fun yen_loop :: "nat \<Rightarrow> KShortestSolver \<Rightarrow> string \<Rightarrow> Path list \<Rightarrow> graph \<times> PriorityQueue \<Rightarrow> Path list result" where
  "yen_loop fuel ks t A gB =
     (if int (length A) < ks_k ks
      then case fuel of 0 \<Rightarrow> Inl GoDiverges
           | Suc fuel' \<Rightarrow>
               bindr (yen_spurs ks t A (spur_points A) gB) (\<lambda>(g, B).
                 if length B = 0 then Inr A
                 else bindr (pq_pop B) (\<lambda>(B', shortest).
                   let newPath = \<lparr>p_hops = removeConsecutiveDuplicates (split (pq_node shortest) ''->''),
                                  p_cost = pq_cost shortest, p_rawRTT = pq_rawRTT shortest\<rparr>
                   in yen_loop fuel' ks t (if \<not> isPathInList newPath A then A @ [newPath] else A) (g, B')))
      else Inr A)"

declare yen_loop.simps [simp del]

definition dedup_path :: "Path \<Rightarrow> Path" where
  "dedup_path p = p\<lparr>p_hops := removeConsecutiveDuplicates (p_hops p)\<rparr>"

definition yensAlgorithm :: "KShortestSolver \<Rightarrow> string \<Rightarrow> string \<Rightarrow> graph \<Rightarrow> Path list result" where
  "yensAlgorithm ks s t g =
     bindr (findShortestPath ks s t g [] []) (\<lambda>firstPath.
     bindr (yen_loop (nat (ks_k ks)) ks t [dedup_path firstPath] (g, [])) (\<lambda>A.
       Inr (map dedup_path (exchange_sort p_cost A))))"

subsection \<open>The solver\<close>

definition build_graph :: "Edge list \<Rightarrow> graph" where
  "build_graph es = foldl (\<lambda>g e. gm_set g (SourceIp e) (gm_list g (SourceIp e) @ [e])) [] es"

definition graph_nodes :: "Edge list \<Rightarrow> string list" where
  "graph_nodes es = concat (map (\<lambda>e. [SourceIp e, DestinationIp e]) es)"

definition KS_Computing :: "KShortestSolver \<Rightarrow> string \<Rightarrow> string \<Rightarrow> PathInfo list result" where
  "KS_Computing ks s t =
     (if s \<notin> set (graph_nodes (ks_edges ks)) then Inl (GoError ''start node not found'')
      else if t \<notin> set (graph_nodes (ks_edges ks)) then Inl (GoError ''end node not found'')
      else bindr (yensAlgorithm ks s t (build_graph (ks_edges ks))) (\<lambda>paths.
        Inr (map (\<lambda>p. \<lparr>Hops = p_hops p, Rtt = p_cost p, RawRTT = 0\<rparr>) paths)))"

section \<open>The queue implements heap.Interface\<close>

text \<open>What the queue holds, without the positions it maintains.\<close>

definition pq_key :: "PQNode \<Rightarrow> string \<times> real \<times> real" where
  "pq_key x = (pq_node x, pq_cost x, pq_rawRTT x)"

definition pq_elems :: "PriorityQueue \<Rightarrow> (string \<times> real \<times> real) list" where
  "pq_elems pq = map pq_key pq"

definition pq_inv :: "PriorityQueue \<Rightarrow> bool" where
  "pq_inv pq = (\<forall>i < length pq. pq_index (pq ! i) = int i)"

lemma pq_key_index [simp]: "pq_key (x\<lparr>pq_index := i\<rparr>) = pq_key x"
  by (simp add: pq_key_def)

interpretation pqi: heap_interface PQ_Len PQ_Less PQ_Swap PQ_Push PQ_Pop pq_elems "\<lambda>_. pq_key" "fst \<circ> snd" pq_inv "\<lambda>_ _. True"
proof
  show "PQ_Len h = length (pq_elems h)" for h by (simp add: PQ_Len_def pq_elems_def)
next
  fix h i j assume "i < PQ_Len h" "j < PQ_Len h"
  then show "PQ_Less h i j = ((fst \<circ> snd) (pq_elems h ! i) < (fst \<circ> snd) (pq_elems h ! j))"
    by (simp add: PQ_Len_def PQ_Less_def pq_elems_def pq_key_def)
next
  fix h i j assume ij: "pq_inv h" "i < PQ_Len h" "j < PQ_Len h"
  then show "pq_elems (PQ_Swap h i j) = swap_at (pq_elems h) i j"
    by (simp add: PQ_Len_def PQ_Swap_def pq_elems_def swap_at_def map_update)
  show "pq_inv (PQ_Swap h i j)" using ij by (auto simp: PQ_Len_def PQ_Swap_def pq_inv_def nth_list_update)
next
  fix h x assume "pq_inv h"
  then show "pq_elems (PQ_Push h x) = pq_elems h @ [pq_key x]" "pq_inv (PQ_Push h x)"
    by (auto simp: PQ_Push_def pq_elems_def pq_inv_def nth_append less_Suc_eq)
next
  fix h h' x assume a: "pq_inv h" "0 < PQ_Len h" "PQ_Pop h = (h', x)"
  then show "pq_elems h' = butlast (pq_elems h) \<and> pq_key x = last (pq_elems h)"
    by (auto simp: PQ_Len_def PQ_Pop_def pq_elems_def map_butlast last_map)
  show "pq_inv h' \<and> True" using a by (auto simp: PQ_Pop_def pq_inv_def nth_butlast)
qed

lemma pq_push_correct:
  assumes "pqi.heap_ok pq"
  shows "pqi.heap_ok (pq_push pq x)" "mset (pq_elems (pq_push pq x)) = add_mset (pq_key x) (mset (pq_elems pq))"
  using pqi.push_correct [OF assms, of x] by (simp_all add: pq_push_def)

lemma pq_pop_correct:
  assumes "pqi.heap_ok pq" "0 < length pq"
  obtains pq' x where "pq_pop pq = Inr (pq', x)" "pqi.heap_ok pq'"
    "mset (pq_elems pq) = add_mset (pq_key x) (mset (pq_elems pq'))" "\<And>e. e \<in> set (pq_elems pq) \<Longrightarrow> pq_cost x \<le> fst (snd e)"
  using pqi.pop_correct [OF assms(1)] assms(2) by (auto simp: pq_pop_def PQ_Len_def pq_key_def)

lemma pq_empty: "pqi.heap_ok []" "pq_elems [] = []" "length (pq_elems pq) = length pq"
  by (simp_all add: pqi.heap_ok_def pq_inv_def pq_elems_def heap_ord_def PQ_Len_def)

end
