(* ===== verification/Shortest_Path.thy ===== *)
theory Shortest_Path
  imports K_Shortest
begin

text \<open>
  Correctness of \<^verbatim>\<open>findShortestPath\<close>: with non-negative weights it ends within its fuel, and finds a simple path
  whose cost and latency are the sums over its edges exactly when the end can be reached around the
  forbidden nodes.
\<close>

section \<open>Definitions\<close>

text \<open>Walks over the edges of the graph that do not enter a forbidden node.\<close>

fun walk :: "graph \<Rightarrow> (string, bool) gomap \<Rightarrow> string list \<Rightarrow> bool" where
  "walk g fN [] = False"
| "walk g fN [u] = True"
| "walk g fN (u # v # p) = ((\<exists>e \<in> set (gm_list g u). DestinationIp e = v) \<and> \<not> flag fN v \<and> walk g fN (v # p))"

definition reachable :: "graph \<Rightarrow> (string, bool) gomap \<Rightarrow> string \<Rightarrow> string \<Rightarrow> bool" where
  "reachable g fN s t = (\<exists>p. walk g fN p \<and> hd p = s \<and> last p = t)"

text \<open>Graphs with named nodes, non-negative weights and no parallel edges.\<close>

definition graph_ok :: "KShortestSolver \<Rightarrow> graph \<Rightarrow> bool" where
  "graph_ok ks g = (gm_ok g \<and> (\<forall>(n, es) \<in> set g. n \<noteq> [] \<and> distinct (map DestinationIp es)
     \<and> (\<forall>e \<in> set es. 0 \<le> ks_weight ks e \<and> DestinationIp e \<noteq> [])))"

text \<open>What a path promises: a simple walk between its ends with the cost and latency of its edges.\<close>

definition path_ok :: "KShortestSolver \<Rightarrow> graph \<Rightarrow> (string, bool) gomap \<Rightarrow> string \<Rightarrow> string \<Rightarrow> Path \<Rightarrow> bool" where
  "path_ok ks g fN s t p = (walk g fN (p_hops p) \<and> hd (p_hops p) = s \<and> last (p_hops p) = t \<and> distinct (p_hops p)
     \<and> p_cost p = calculatePathCost ks (p_hops p) g \<and> p_rawRTT p = calculatePathRTT (p_hops p) g)"

definition graph_names :: "string \<Rightarrow> graph \<Rightarrow> string set" where
  "graph_names s g = insert s (fst ` set g \<union> (\<Union>(n, es) \<in> set g. DestinationIp ` set es))"

abbreviation D :: "search \<Rightarrow> string \<Rightarrow> ext" where
  "D st n \<equiv> label (s_dist st) n"

abbreviation R :: "search \<Rightarrow> string \<Rightarrow> ext" where
  "R st n \<equiv> label (s_raw st) n"

definition reached :: "string \<Rightarrow> search \<Rightarrow> string \<Rightarrow> bool" where
  "reached s st n = (n = s \<or> gm_get (s_prev st) n \<noteq> None)"

abbreviation entries :: "search \<Rightarrow> (string \<times> real \<times> real) list" where
  "entries st \<equiv> pq_elems (s_pq st)"

text \<open>
  The invariant of the search, for the nodes \<^term>\<open>X\<close> expanded so far in their order: a reached node has a
  predecessor among them over an edge that accounts for its labels; expanded nodes have labels no larger
  than anything still queued and no queued entry of their own that is current; queued entries are distinct
  and never better than the labels; the nodes of \<^term>\<open>K\<close> that are reached and not expanded have a current entry.
\<close>

definition tree_ok :: "KShortestSolver \<Rightarrow> graph \<Rightarrow> (string, bool) gomap \<Rightarrow> string \<Rightarrow> string list \<Rightarrow> search \<Rightarrow> bool" where
  "tree_ok ks g fN s X st = (D st s = Fin 0 \<and> R st s = Fin 0 \<and> gm_get (s_prev st) s = None
     \<and> (\<forall>n \<in> graph_names s g. (D st n = PInf) = (\<not> reached s st n))
     \<and> (\<forall>n m. gm_get (s_prev st) n = Some m \<longrightarrow> m \<in> set X \<and> n \<in> graph_names s g
         \<and> (\<exists>e d r. e \<in> set (gm_list g m) \<and> DestinationIp e = n \<and> \<not> flag fN n \<and> D st m = Fin d \<and> R st m = Fin r
             \<and> D st n = Fin (d + ks_weight ks e) \<and> R st n = Fin (r + Latency e)))
     \<and> distinct X \<and> (\<forall>i < length X. X ! i = s \<or> (\<exists>m \<in> set (take i X). gm_get (s_prev st) (X ! i) = Some m)))"

definition queue_ok :: "graph \<Rightarrow> string \<Rightarrow> string \<Rightarrow> string list \<Rightarrow> string set \<Rightarrow> search \<Rightarrow> bool" where
  "queue_ok g s t X K st = (pqi.heap_ok (s_pq st) \<and> t \<notin> set X
     \<and> distinct (map (\<lambda>e. (fst e, fst (snd e))) (entries st))
     \<and> (\<forall>(n, c, _) \<in> set (entries st). reached s st n \<and> n \<in> graph_names s g \<and> D st n \<le> Fin c
         \<and> (n \<in> set X \<longrightarrow> D st n < Fin c) \<and> (\<forall>x \<in> set X. D st x \<le> Fin c))
     \<and> (\<forall>n \<in> K. reached s st n \<and> n \<notin> set X \<longrightarrow> (\<exists>c r. (n, c, r) \<in> set (entries st) \<and> D st n = Fin c)))"

definition closed_under :: "graph \<Rightarrow> (string, bool) gomap \<Rightarrow> string \<Rightarrow> string list \<Rightarrow> search \<Rightarrow> bool" where
  "closed_under g fN s X st = (\<forall>x \<in> set X. \<forall>e \<in> set (gm_list g x). \<not> flag fN (DestinationIp e) \<longrightarrow> reached s st (DestinationIp e))"

text \<open>Edges of nodes not yet expanded: with the queue's length the measure of the loop.\<close>

definition edges_left :: "graph \<Rightarrow> string list \<Rightarrow> nat" where
  "edges_left g X = sum_list (map (\<lambda>(n, es). if n \<in> set X then 0 else length es) g)"

text \<open>The invariant while the edges of the node \<^term>\<open>u\<close>, reached at cost \<^term>\<open>c\<close>, are relaxed.\<close>

definition expanding :: "KShortestSolver \<Rightarrow> graph \<Rightarrow> (string, bool) gomap \<Rightarrow> string \<Rightarrow> string \<Rightarrow> string list \<Rightarrow> string \<Rightarrow> real \<Rightarrow> search \<Rightarrow> bool" where
  "expanding ks g fN s t X u c st = (tree_ok ks g fN s X st \<and> queue_ok g s t X UNIV st \<and> u \<in> set X \<and> D st u = Fin c
     \<and> (\<forall>x \<in> set X. D st x \<le> Fin c))"

text \<open>A path back to the start that \<^verbatim>\<open>build_path\<close> follows, within the nodes \<^term>\<open>Y\<close>.\<close>

definition chain :: "KShortestSolver \<Rightarrow> graph \<Rightarrow> (string, bool) gomap \<Rightarrow> string \<Rightarrow> search \<Rightarrow> string set \<Rightarrow> string \<Rightarrow> string list \<Rightarrow> bool" where
  "chain ks g fN s st Y n hs = (walk g fN hs \<and> hd hs = s \<and> last hs = n \<and> distinct hs \<and> set hs \<subseteq> Y
     \<and> D st n = Fin (calculatePathCost ks hs g) \<and> R st n = Fin (calculatePathRTT hs g)
     \<and> (\<forall>fuel path. length hs \<le> fuel \<longrightarrow> build_path fuel (s_prev st) n path = Inr (hs @ path)))"

text \<open>The state after a better way to \<^term>\<open>v\<close>, from \<^term>\<open>u\<close>, is recorded.\<close>

definition improve :: "search \<Rightarrow> string \<Rightarrow> string \<Rightarrow> real \<Rightarrow> real \<Rightarrow> search" where
  "improve st v u c r = st\<lparr>s_dist := gm_set (s_dist st) v (Fin c), s_raw := gm_set (s_raw st) v (Fin r),
     s_prev := gm_set (s_prev st) v u, s_pq := pq_push (s_pq st) \<lparr>pq_node = v, pq_cost = c, pq_rawRTT = 0, pq_index = 0\<rparr>\<rparr>"

text \<open>The promise of a search.\<close>

definition search_ok :: "KShortestSolver \<Rightarrow> graph \<Rightarrow> (string, bool) gomap \<Rightarrow> string \<Rightarrow> string \<Rightarrow> Path result \<Rightarrow> bool" where
  "search_ok ks g fN s t r = (case r of Inr p \<Rightarrow> path_ok ks g fN s t p | Inl (GoError _) \<Rightarrow> \<not> reachable g fN s t | _ \<Rightarrow> False)"

text \<open>A sample graph.\<close>

definition ex_edge :: "string \<Rightarrow> string \<Rightarrow> real \<Rightarrow> Edge" where
  "ex_edge src dst w = \<lparr>SourceIp = src, DestinationIp = dst, EdgeWeight = w, Load = 0, Latency = w, Loss = 0\<rparr>"

definition ex_graph :: graph where
  "ex_graph = [(''s'', [ex_edge ''s'' ''t'' 10, ex_edge ''s'' ''a'' 1]), (''a'', [ex_edge ''a'' ''t'' 1])]"

definition ex_solver :: KShortestSolver where
  "ex_solver = NewKShortestSolver [ex_edge ''s'' ''t'' 10, ex_edge ''s'' ''a'' 1, ex_edge ''a'' ''t'' 1] 1"

section \<open>Lemmas: walks and their costs\<close>

lemma flag_simps [simp]:
  "flag (gm_set m k b) n = (if n = k then b else flag m n)" "flag (gm_del m k) n = (n \<noteq> k \<and> flag m n)"
  by (simp_all add: flag_def update_conv' delete_conv')

lemma flag_Nil [simp]: "\<not> flag [] n"
  by (simp add: flag_def)

lemma ext_simps [simp]:
  "Fin a \<le> Fin b \<longleftrightarrow> a \<le> b" "Fin a < Fin b \<longleftrightarrow> a < b" "Fin a < PInf" "Fin a \<le> PInf" "\<not> PInf < x" "PInf \<le> x \<longleftrightarrow> x = PInf"
  by (auto simp: less_ext_def less_eq_ext_def split: ext.splits)

lemma label_set [simp]: "label (gm_set m k v) n = (if n = k then v else label m n)"
  by (simp add: label_def update_conv')

lemma walk_not_Nil: "walk g fN p \<Longrightarrow> p \<noteq> []"
  by (cases p) auto

lemma walk_snoc: "walk g fN p \<Longrightarrow> e \<in> set (gm_list g (last p)) \<Longrightarrow> \<not> flag fN (DestinationIp e) \<Longrightarrow> walk g fN (p @ [DestinationIp e])"
  by (induction p rule: walk.induct) auto

lemma calculatePathCost_snoc:
  "p \<noteq> [] \<Longrightarrow> calculatePathCost ks (p @ [v]) g
     = calculatePathCost ks p g + (case first_edge g (last p) v of Some e \<Rightarrow> ks_weight ks e | None \<Rightarrow> 0)"
  by (induction ks p g rule: calculatePathCost.induct) auto

lemma calculatePathRTT_snoc:
  "p \<noteq> [] \<Longrightarrow> calculatePathRTT (p @ [v]) g
     = calculatePathRTT p g + (case first_edge g (last p) v of Some e \<Rightarrow> Latency e | None \<Rightarrow> 0)"
  by (induction p g rule: calculatePathRTT.induct) auto

lemma gm_list_mem: "e \<in> set (gm_list g u) \<Longrightarrow> \<exists>es. gm_get g u = Some es \<and> e \<in> set es"
  by (cases "gm_get g u") auto

lemma graph_okD:
  assumes "graph_ok ks g" "e \<in> set (gm_list g u)"
  shows "0 \<le> ks_weight ks e" "DestinationIp e \<noteq> []" "u \<noteq> []" "DestinationIp e \<in> graph_names s g" "u \<in> graph_names s g"
proof -
  obtain es where es: "gm_get g u = Some es" "e \<in> set es" using gm_list_mem [OF assms(2)] by blast
  have mem: "(u, es) \<in> set g" using es(1) by (rule map_of_SomeD)
  then show "0 \<le> ks_weight ks e" "DestinationIp e \<noteq> []" "u \<noteq> []" using assms(1) es(2) unfolding graph_ok_def by blast+
  have "u \<in> fst ` set g" using mem by (rule rev_image_eqI) simp
  then show "u \<in> graph_names s g" unfolding graph_names_def by blast
  show "DestinationIp e \<in> graph_names s g" using mem es(2) unfolding graph_names_def by blast
qed

lemma first_edge_unique:
  assumes "graph_ok ks g" "e \<in> set (gm_list g u)"
  shows "first_edge g u (DestinationIp e) = Some e"
proof -
  obtain es where es: "gm_get g u = Some es" "e \<in> set es" using gm_list_mem [OF assms(2)] by blast
  then have "(u, es) \<in> set g" using map_of_SomeD by fast
  then have "distinct (map DestinationIp es)" using assms(1) by (auto simp: graph_ok_def)
  then have "find (\<lambda>x. DestinationIp x = DestinationIp e) es = Some e" using es(2) by (induction es) auto
  then show ?thesis using es(1) by (simp add: first_edge_def)
qed

lemma walk_closed:
  assumes "walk g fN p" "hd p \<in> C" "\<And>x e. x \<in> C \<Longrightarrow> e \<in> set (gm_list g x) \<Longrightarrow> \<not> flag fN (DestinationIp e) \<Longrightarrow> DestinationIp e \<in> C"
  shows "last p \<in> C"
  using assms by (induction g fN p rule: walk.induct) auto

section \<open>Lemmas: following the predecessors\<close>

lemma tree_prev:
  assumes "tree_ok ks g fN s X st" "gm_get (s_prev st) n = Some m"
  obtains e d r where "m \<in> set X" "n \<in> graph_names s g" "e \<in> set (gm_list g m)" "DestinationIp e = n" "\<not> flag fN n" "D st m = Fin d"
    "R st m = Fin r" "D st n = Fin (d + ks_weight ks e)" "R st n = Fin (r + Latency e)"
  using assms unfolding tree_ok_def by blast

lemma chain_start:
  assumes "tree_ok ks g fN s X st" "s \<noteq> []" "s \<in> Y"
  shows "chain ks g fN s st Y s [s]"
proof -
  have "build_path (Suc k) (s_prev st) s path = Inr ([s] @ path)" for k path
    using assms(1,2) by (simp add: tree_ok_def build_path.simps [of "Suc k"] build_path.simps [of k])
  then have "build_path fuel (s_prev st) s path = Inr ([s] @ path)" if "length [s] \<le> fuel" for fuel path
    using that by (cases fuel) auto
  then show ?thesis using assms by (auto simp: chain_def tree_ok_def)
qed

lemma chain_step:
  assumes g: "graph_ok ks g" and inv: "tree_ok ks g fN s X st" and n: "gm_get (s_prev st) n = Some m"
    and c: "chain ks g fN s st Y m hs" and Y: "n \<notin> Y"
  shows "chain ks g fN s st (insert n Y) n (hs @ [n])"
proof -
  obtain e d r where e: "e \<in> set (gm_list g m)" "DestinationIp e = n" "\<not> flag fN n" "D st m = Fin d" "R st m = Fin r"
    "D st n = Fin (d + ks_weight ks e)" "R st n = Fin (r + Latency e)" using tree_prev [OF inv n] by metis
  have hs: "hs \<noteq> []" "last hs = m" "walk g fN hs" using c walk_not_Nil by (auto simp: chain_def)
  have fe: "first_edge g m n = Some e" using first_edge_unique [OF g e(1)] e(2) by simp
  have "n \<noteq> []" using graph_okD(2) [OF g e(1)] e(2) by simp
  then have "build_path fuel (s_prev st) n path = Inr ((hs @ [n]) @ path)" if "length (hs @ [n]) \<le> fuel" for fuel path
    using that c n by (cases fuel) (auto simp: chain_def build_path.simps [of "Suc _"])
  moreover have "walk g fN (hs @ [n])" using walk_snoc [OF hs(3), of e] e hs(2) by simp
  ultimately show ?thesis
    using c Y e fe hs by (auto simp: chain_def calculatePathCost_snoc calculatePathRTT_snoc)
qed

lemma chain_expanded:
  assumes g: "graph_ok ks g" and inv: "tree_ok ks g fN s X st" and s: "s \<noteq> []"
  shows "i < length X \<Longrightarrow> \<exists>hs. chain ks g fN s st (set (take (Suc i) X)) (X ! i) hs"
proof (induction i rule: less_induct)
  case (less i)
  have T: "set (take (Suc i) X) = insert (X ! i) (set (take i X))" using less.prems by (simp add: take_Suc_conv_app_nth)
  show ?case
  proof (cases "X ! i = s")
    case True
    then show ?thesis using chain_start [OF inv s, of "set (take (Suc i) X)"] T by auto
  next
    case False
    then obtain m where m: "m \<in> set (take i X)" "gm_get (s_prev st) (X ! i) = Some m"
      using inv less.prems by (auto simp: tree_ok_def)
    then obtain j where j: "j < i" "X ! j = m" using less.prems by (auto simp: in_set_conv_nth)
    then obtain hs where "chain ks g fN s st (set (take (Suc j) X)) m hs" using less.IH [of j] less.prems by auto
    moreover have "set (take (Suc j) X) \<subseteq> set (take i X)" using j by (simp add: set_take_subset_set_take)
    ultimately have c: "chain ks g fN s st (set (take i X)) m hs" by (auto simp: chain_def)
    have "X ! i \<notin> set (take i X)" using inv less.prems
      by (auto simp: tree_ok_def in_set_conv_nth nth_eq_iff_index_eq)
    from chain_step [OF g inv m(2) c this] T show ?thesis by auto
  qed
qed

lemma found_path_correct:
  assumes g: "graph_ok ks g" and inv: "tree_ok ks g fN s X st" and s: "s \<noteq> []" and t: "reached s st t" "t \<notin> set X"
    and c: "D st t = Fin c"
  shows "\<exists>p. found_path st t c = Inr p \<and> path_ok ks g fN s t p"
proof -
  have "\<exists>hs. chain ks g fN s st (insert t (set X)) t hs"
  proof (cases "t = s")
    case True
    then show ?thesis using chain_start [OF inv s] by blast
  next
    case False
    then obtain m where m: "gm_get (s_prev st) t = Some m" using t(1) by (auto simp: reached_def)
    then have "m \<in> set X" using tree_prev [OF inv] by metis
    then obtain i where i: "i < length X" "X ! i = m" by (auto simp: in_set_conv_nth)
    obtain hs where "chain ks g fN s st (set (take (Suc i) X)) m hs" using chain_expanded [OF g inv s i(1)] i(2) by auto
    moreover have "set (take (Suc i) X) \<subseteq> set X" by (rule set_take_subset)
    ultimately have "chain ks g fN s st (set X) m hs" by (auto simp: chain_def)
    from chain_step [OF g inv m this t(2)] show ?thesis by blast
  qed
  then obtain hs where hs: "chain ks g fN s st (insert t (set X)) t hs" by blast
  have X: "set X \<subseteq> insert s (fst ` set (s_prev st))"
  proof
    fix x assume "x \<in> set X"
    then obtain i where "i < length X" "X ! i = x" by (auto simp: in_set_conv_nth)
    then show "x \<in> insert s (fst ` set (s_prev st))" using inv unfolding tree_ok_def by (force dest: map_of_SomeD)
  qed
  have "length hs = card (set hs)" using hs by (simp add: chain_def distinct_card)
  also have "\<dots> \<le> card (insert t (insert s (fst ` set (s_prev st))))"
    using hs X by (intro card_mono) (auto simp: chain_def)
  also have "\<dots> \<le> card (fst ` set (s_prev st)) + 2" by (simp add: card_insert_if)
  also have "\<dots> \<le> length (s_prev st) + 2" using card_length [of "map fst (s_prev st)"] by simp
  finally have "build_path (length (s_prev st) + 2) (s_prev st) t [] = Inr hs" using hs by (simp add: chain_def)
  moreover have "\<not> has_consecutive hs"
    using hs by (auto simp: chain_def has_consecutive_def list_ex_iff nth_eq_iff_index_eq)
  ultimately show ?thesis using hs c by (simp add: found_path_def path_ok_def chain_def)
qed

section \<open>Lemmas: one edge, one node\<close>

lemma reached_fin:
  assumes "tree_ok ks g fN s X st" "reached s st n"
  shows "\<exists>d r. D st n = Fin d \<and> R st n = Fin r"
proof (cases "n = s")
  case True
  then show ?thesis using assms(1) by (auto simp: tree_ok_def)
next
  case False
  then obtain m where "gm_get (s_prev st) n = Some m" using assms(2) by (auto simp: reached_def)
  from tree_prev [OF assms(1) this] show ?thesis by metis
qed

lemma expanded_reached: "tree_ok ks g fN s X st \<Longrightarrow> x \<in> set X \<Longrightarrow> reached s st x"
  unfolding tree_ok_def reached_def in_set_conv_nth by fastforce

lemma start_expanded: "tree_ok ks g fN s X st \<Longrightarrow> X \<noteq> [] \<Longrightarrow> s \<in> set X"
  unfolding tree_ok_def by (metis length_greater_0_conv list.set_intros(1) hd_conv_nth hd_in_set take0 empty_iff list.set(1))

lemma pq_push_set: "pqi.heap_ok pq \<Longrightarrow> set (pq_elems (pq_push pq x)) = insert (pq_key x) (set (pq_elems pq))"
  using arg_cong [OF pq_push_correct(2), of pq set_mset x] by simp

lemma length_pq_push: "pqi.heap_ok pq \<Longrightarrow> length (pq_push pq x) = Suc (length pq)"
  using arg_cong [OF pq_push_correct(2), of pq size x] by (simp add: pq_empty)

lemma improve_simps:
  "reached s (improve st v u c r) n \<longleftrightarrow> reached s st n \<or> n = v"
  "n \<noteq> v \<Longrightarrow> D (improve st v u c r) n = D st n" "n \<noteq> v \<Longrightarrow> R (improve st v u c r) n = R st n"
  "n \<noteq> v \<Longrightarrow> gm_get (s_prev (improve st v u c r)) n = gm_get (s_prev st) n"
  "D (improve st v u c r) v = Fin c" "R (improve st v u c r) v = Fin r" "gm_get (s_prev (improve st v u c r)) v = Some u"
  by (auto simp: reached_def improve_def update_conv')

lemma improve_tree:
  assumes tr: "tree_ok ks g fN s X st" and u: "u \<in> set X" "D st u = Fin c" "R st u = Fin r" and v: "v \<notin> set X" "v \<in> graph_names s g"
    and e: "e \<in> set (gm_list g u)" "DestinationIp e = v" "\<not> flag fN v"
  shows "tree_ok ks g fN s X (improve st v u (c + ks_weight ks e) (r + Latency e))" (is "tree_ok ks g fN s X ?st")
  unfolding tree_ok_def
proof (intro conjI allI ballI impI)
  have "X \<noteq> []" using u(1) by auto
  then have sv: "s \<noteq> v" using start_expanded [OF tr] v(1) by blast
  show "D ?st s = Fin 0" "R ?st s = Fin 0" "gm_get (s_prev ?st) s = None" "distinct X"
    using tr sv by (auto simp: improve_simps tree_ok_def)
  show "(D ?st n = PInf) = (\<not> reached s ?st n)" if "n \<in> graph_names s g" for n
    using that tr by (cases "n = v") (simp_all add: improve_simps tree_ok_def)
  show "X ! i = s \<or> (\<exists>m \<in> set (take i X). gm_get (s_prev ?st) (X ! i) = Some m)" if "i < length X" for i
  proof -
    have "X ! i \<noteq> v" using v that nth_mem by blast
    then show ?thesis using tr that by (simp add: improve_simps tree_ok_def)
  qed
next
  fix n m assume nm: "gm_get (s_prev ?st) n = Some m"
  have uv: "u \<noteq> v" using u v by blast
  have "m \<in> set X \<and> n \<in> graph_names s g \<and> (\<exists>e d r. e \<in> set (gm_list g m) \<and> DestinationIp e = n \<and> \<not> flag fN n \<and> D ?st m = Fin d
    \<and> R ?st m = Fin r \<and> D ?st n = Fin (d + ks_weight ks e) \<and> R ?st n = Fin (r + Latency e))"
  proof (cases "n = v")
    case True
    then show ?thesis using nm u v e uv by (auto simp: improve_simps)
  next
    case False
    then have "gm_get (s_prev st) n = Some m" using nm by (simp add: improve_simps)
    from tree_prev [OF tr this] obtain e' d r' where h: "m \<in> set X" "n \<in> graph_names s g" "e' \<in> set (gm_list g m)" "DestinationIp e' = n"
      "\<not> flag fN n" "D st m = Fin d" "R st m = Fin r'" "D st n = Fin (d + ks_weight ks e')" "R st n = Fin (r' + Latency e')" by metis
    have "m \<noteq> v" using h(1) v by blast
    with h False show ?thesis by (auto simp: improve_simps)
  qed
  then show "m \<in> set X" "n \<in> graph_names s g" "\<exists>e d r. e \<in> set (gm_list g m) \<and> DestinationIp e = n \<and> \<not> flag fN n \<and> D ?st m = Fin d
    \<and> R ?st m = Fin r \<and> D ?st n = Fin (d + ks_weight ks e) \<and> R ?st n = Fin (r + Latency e)" by blast+
qed

lemma improve_queue:
  assumes qu: "queue_ok g s t X UNIV st" and v: "v \<notin> set X" "v \<in> graph_names s g"
    and better: "Fin c < D st v" and mx: "\<And>x. x \<in> set X \<Longrightarrow> D st x \<le> Fin c"
  shows "queue_ok g s t X UNIV (improve st v u c r)" (is "queue_ok g s t X UNIV ?st")
proof -
  let ?x = "\<lparr>pq_node = v, pq_cost = c, pq_rawRTT = 0, pq_index = 0\<rparr>" and ?f = "\<lambda>e :: string \<times> real \<times> real. (fst e, fst (snd e))"
  have hp: "pqi.heap_ok (s_pq st)" and tX: "t \<notin> set X" and ds: "distinct (map ?f (entries st))"
    and ent: "\<And>n c' r'. (n, c', r') \<in> set (entries st) \<Longrightarrow> reached s st n \<and> n \<in> graph_names s g \<and> D st n \<le> Fin c'
         \<and> (n \<in> set X \<longrightarrow> D st n < Fin c') \<and> (\<forall>x \<in> set X. D st x \<le> Fin c')"
    and cur: "\<And>n. reached s st n \<Longrightarrow> n \<notin> set X \<Longrightarrow> \<exists>c r. (n, c, r) \<in> set (entries st) \<and> D st n = Fin c"
    using qu by (auto simp: queue_ok_def)
  have st: "s_pq ?st = pq_push (s_pq st) ?x" by (simp add: improve_def)
  have el: "set (entries ?st) = insert (v, c, 0) (set (entries st))" using pq_push_set [OF hp, of ?x] by (simp add: st pq_key_def)
  have X: "D ?st x = D st x" if "x \<in> set X" for x using that v(1) by (intro improve_simps(2)) blast
  have new: "(v, c, r') \<notin> set (entries st)" for r' using ent [of v c r'] better by (meson leD)
  have "mset (map ?f (entries ?st)) = mset (map ?f ((v, c, 0) # entries st))"
    using pq_push_correct(2) [OF hp, of ?x] by (simp add: st pq_key_def)
  moreover have "distinct (map ?f ((v, c, 0) # entries st))" using ds new by (force simp: image_iff)
  ultimately have "distinct (map ?f (entries ?st))" using mset_eq_imp_distinct_iff by blast
  moreover have "\<forall>(n, c', r') \<in> set (entries ?st). reached s ?st n \<and> n \<in> graph_names s g \<and> D ?st n \<le> Fin c'
         \<and> (n \<in> set X \<longrightarrow> D ?st n < Fin c') \<and> (\<forall>x \<in> set X. D ?st x \<le> Fin c')"
  proof (intro ballI, clarify)
    fix n c' r' assume m: "(n, c', r') \<in> set (entries ?st)"
    show "reached s ?st n \<and> n \<in> graph_names s g \<and> D ?st n \<le> Fin c' \<and> (n \<in> set X \<longrightarrow> D ?st n < Fin c') \<and> (\<forall>x \<in> set X. D ?st x \<le> Fin c')"
    proof (cases "(n, c', r') \<in> set (entries st)")
      case True
      have "D ?st n \<le> D st n" using better by (cases "n = v") (auto simp: improve_simps)
      then show ?thesis using ent [OF True] X by (auto simp: improve_simps(1))
    next
      case False
      then have "n = v" "c' = c" using m el by auto
      then show ?thesis using v mx X by (auto simp: improve_simps(1,5))
    qed
  qed
  moreover have "\<exists>c r. (n, c, r) \<in> set (entries ?st) \<and> D ?st n = Fin c" if "reached s ?st n" "n \<notin> set X" for n
    using that cur [of n] el by (cases "n = v") (auto simp: improve_simps)
  ultimately show ?thesis using pq_push_correct(1) [OF hp, of ?x] tX by (simp add: queue_ok_def st)
qed

lemma relax_step:
  assumes g: "graph_ok ks g" and inv: "expanding ks g fN s t X u c st" and e: "e \<in> set (gm_list g u)"
  defines "st' \<equiv> relax ks fN [] u c st e"
  shows "expanding ks g fN s t X u c st' \<and> length (s_pq st') \<le> Suc (length (s_pq st))
    \<and> (\<forall>n. reached s st n \<longrightarrow> reached s st' n) \<and> (\<not> flag fN (DestinationIp e) \<longrightarrow> reached s st' (DestinationIp e))"
proof (cases "\<not> flag fN (DestinationIp e) \<and> Fin (c + ks_weight ks e) < D st (DestinationIp e)")
  case False
  then have "st' = st" by (auto simp: st'_def relax_def Let_def)
  moreover have "reached s st (DestinationIp e)" if "\<not> flag fN (DestinationIp e)"
    using that False inv graph_okD(4) [OF g e, of s] by (cases "D st (DestinationIp e)") (auto simp: expanding_def tree_ok_def)
  ultimately show ?thesis using inv by simp
next
  case True
  let ?v = "DestinationIp e" and ?c = "c + ks_weight ks e"
  have tr: "tree_ok ks g fN s X st" and qu: "queue_ok g s t X UNIV st" and u: "u \<in> set X" "D st u = Fin c"
    and mx: "\<And>x. x \<in> set X \<Longrightarrow> D st x \<le> Fin c" using inv by (auto simp: expanding_def)
  have w: "0 \<le> ks_weight ks e" "?v \<in> graph_names s g" using graph_okD [OF g e] by auto
  then have mx': "D st x \<le> Fin ?c" if "x \<in> set X" for x using mx [OF that] by (cases "D st x") auto
  then have vX: "?v \<notin> set X" using True by (meson leD)
  obtain r where r: "R st u = Fin r" using reached_fin [OF tr expanded_reached [OF tr u(1)]] by blast
  have st': "st' = improve st ?v u ?c (r + Latency e)" using True r by (simp add: st'_def relax_def Let_def improve_def)
  have "tree_ok ks g fN s X st'" unfolding st' using tr u r vX w e True by (intro improve_tree) auto
  moreover have "queue_ok g s t X UNIV st'" unfolding st' using qu vX w(2) True mx' by (intro improve_queue) auto
  moreover have "D st' x = D st x" if "x \<in> set X" for x unfolding st' using that vX by (intro improve_simps(2)) blast
  moreover have "length (s_pq st') = Suc (length (s_pq st))" using qu by (simp add: st' improve_def length_pq_push queue_ok_def)
  ultimately show ?thesis using u mx by (auto simp: expanding_def st' improve_simps(1))
qed

lemma relax_all:
  assumes g: "graph_ok ks g" and es: "set es \<subseteq> set (gm_list g u)" and inv: "expanding ks g fN s t X u c st"
  defines "st' \<equiv> foldl (relax ks fN [] u c) st es"
  shows "expanding ks g fN s t X u c st' \<and> length (s_pq st') \<le> length es + length (s_pq st)
    \<and> (\<forall>n. reached s st n \<longrightarrow> reached s st' n) \<and> (\<forall>e \<in> set es. \<not> flag fN (DestinationIp e) \<longrightarrow> reached s st' (DestinationIp e))"
  using es inv unfolding st'_def
proof (induction es arbitrary: st)
  case (Cons e es)
  let ?st = "relax ks fN [] u c st e"
  have st: "expanding ks g fN s t X u c ?st" "length (s_pq ?st) \<le> Suc (length (s_pq st))" "\<And>n. reached s st n \<Longrightarrow> reached s ?st n"
    "\<not> flag fN (DestinationIp e) \<Longrightarrow> reached s ?st (DestinationIp e)"
    using relax_step [OF g Cons.prems(2), of e] Cons.prems(1) by auto
  from Cons.IH [OF _ st(1)] Cons.prems(1) st show ?case by (auto intro: order_trans)
qed simp

section \<open>Lemmas: the loop\<close>

lemma popped_simps [simp]: "reached s (st\<lparr>s_pq := pq\<rparr>) n = reached s st n" "tree_ok ks g fN s X (st\<lparr>s_pq := pq\<rparr>) = tree_ok ks g fN s X st"
  by (simp_all add: reached_def tree_ok_def)

lemma queue_okD:
  assumes "queue_ok g s t X K st"
  shows "pqi.heap_ok (s_pq st)" "t \<notin> set X" "distinct (map (\<lambda>e. (fst e, fst (snd e))) (entries st))"
    "\<And>n c r. (n, c, r) \<in> set (entries st) \<Longrightarrow> reached s st n \<and> n \<in> graph_names s g \<and> D st n \<le> Fin c
         \<and> (n \<in> set X \<longrightarrow> D st n < Fin c) \<and> (\<forall>x \<in> set X. D st x \<le> Fin c)"
    "\<And>n. n \<in> K \<Longrightarrow> reached s st n \<Longrightarrow> n \<notin> set X \<Longrightarrow> \<exists>c r. (n, c, r) \<in> set (entries st) \<and> D st n = Fin c"
  using assms by (auto simp: queue_ok_def)

lemma queue_pop:
  assumes qu: "queue_ok g s t X K st" and ms: "mset (entries st) = add_mset (pq_key x) (mset (pq_elems pq))" and hp: "pqi.heap_ok pq"
    and K: "K' \<subseteq> K" "pq_node x \<in> K' \<Longrightarrow> D st (pq_node x) \<noteq> Fin (pq_cost x)"
  shows "queue_ok g s t X K' (st\<lparr>s_pq := pq\<rparr>)"
proof -
  let ?f = "\<lambda>e :: string \<times> real \<times> real. (fst e, fst (snd e))"
  have el: "set (entries st) = insert (pq_key x) (set (pq_elems pq))" using arg_cong [OF ms, of set_mset] by simp
  have "mset (map ?f (entries st)) = mset (map ?f (pq_key x # pq_elems pq))" using ms by simp
  moreover have "distinct (map ?f (entries st))" by (rule queue_okD(3) [OF qu])
  ultimately have "distinct (map ?f (pq_key x # pq_elems pq))" using mset_eq_imp_distinct_iff by blast
  then have ds: "distinct (map ?f (pq_elems pq))" by simp
  have cur: "\<exists>c r. (n, c, r) \<in> set (pq_elems pq) \<and> D st n = Fin c" if n: "n \<in> K'" "reached s st n" "n \<notin> set X" for n
  proof -
    obtain c r where c: "(n, c, r) \<in> set (entries st)" "D st n = Fin c"
      using queue_okD(5) [OF qu, of n] n K(1) by blast
    then have "(n, c, r) \<noteq> pq_key x" using K(2) n(1) by (auto simp: pq_key_def)
    then show ?thesis using c el by blast
  qed
  have "\<forall>(n, c, _) \<in> set (pq_elems pq). reached s st n \<and> n \<in> graph_names s g \<and> D st n \<le> Fin c
         \<and> (n \<in> set X \<longrightarrow> D st n < Fin c) \<and> (\<forall>x \<in> set X. D st x \<le> Fin c)"
    using queue_okD(4) [OF qu] el by auto
  then show ?thesis using hp ds cur queue_okD(2) [OF qu] by (simp add: queue_ok_def)
qed

lemma queue_expand:
  assumes qu: "queue_ok g s t X K st" and ms: "mset (entries st) = add_mset (pq_key x) (mset (pq_elems pq))" and hp: "pqi.heap_ok pq"
    and K: "K = UNIV" and x: "D st (pq_node x) = Fin (pq_cost x)" "pq_node x \<noteq> t"
    and mn: "\<And>e. e \<in> set (entries st) \<Longrightarrow> pq_cost x \<le> fst (snd e)"
  shows "queue_ok g s t (X @ [pq_node x]) UNIV (st\<lparr>s_pq := pq\<rparr>)"
proof -
  let ?n = "pq_node x" and ?f = "\<lambda>e :: string \<times> real \<times> real. (fst e, fst (snd e))"
  have el: "set (entries st) = insert (pq_key x) (set (pq_elems pq))" using arg_cong [OF ms, of set_mset] by simp
  have q: "queue_ok g s t X (UNIV - {?n}) (st\<lparr>s_pq := pq\<rparr>)" by (rule queue_pop [OF qu ms hp]) (auto simp: K)
  have "mset (map ?f (entries st)) = mset (map ?f (pq_key x # pq_elems pq))" using ms by simp
  then have "distinct (map ?f (pq_key x # pq_elems pq))" using queue_okD(3) [OF qu] mset_eq_imp_distinct_iff by blast
  then have "c \<noteq> pq_cost x" if "(?n, c, r) \<in> set (pq_elems pq)" for c r using that by (force simp: pq_key_def)
  moreover have "pq_cost x \<le> c" if "(n, c, r) \<in> set (pq_elems pq)" for n c r using mn [of "(n, c, r)"] that el by auto
  ultimately have "\<forall>(n, c, r) \<in> set (pq_elems pq). (n = ?n \<longrightarrow> D st n < Fin c) \<and> D st ?n \<le> Fin c"
    unfolding x(1) by (fastforce simp: x(1) less_le)
  with q x(2) show ?thesis unfolding queue_ok_def by auto
qed

lemma edges_left_simps:
  "edges_left [] X = 0" "edges_left ((m, es) # g) X = (if m \<in> set X then 0 else length es) + edges_left g X"
  by (simp_all add: edges_left_def)

lemma edges_left_other: "n \<notin> fst ` set g \<Longrightarrow> edges_left g (X @ [n]) = edges_left g X"
  by (induction g) (auto simp: edges_left_simps)

lemma edges_left_expand:
  assumes "gm_ok g" "n \<notin> set X"
  shows "edges_left g (X @ [n]) + length (gm_list g n) = edges_left g X"
  using assms(1)
proof (induction g)
  case (Cons p g)
  obtain m es where p: "p = (m, es)" by (cases p)
  show ?case
  proof (cases "m = n")
    case True
    then show ?thesis using Cons.prems assms(2) edges_left_other [of n g X] by (simp add: p edges_left_simps gm_list_def)
  next
    case False
    then show ?thesis using Cons by (simp add: p edges_left_simps gm_list_def)
  qed
qed (simp add: edges_left_simps)

lemma pop_current:
  assumes "queue_ok g s t X K st" "pq_key x \<in> set (entries st)" "\<not> Fin (pq_cost x) > D st (pq_node x)"
  shows "D st (pq_node x) = Fin (pq_cost x)" "pq_node x \<notin> set X" "reached s st (pq_node x)" "\<And>y. y \<in> set X \<Longrightarrow> D st y \<le> Fin (pq_cost x)"
proof -
  let ?n = "pq_node x" and ?c = "pq_cost x"
  have e: "reached s st ?n" "D st ?n \<le> Fin ?c" "?n \<in> set X \<Longrightarrow> D st ?n < Fin ?c" "\<And>y. y \<in> set X \<Longrightarrow> D st y \<le> Fin ?c"
    using queue_okD(4) [OF assms(1) assms(2) [unfolded pq_key_def]] by auto
  show "reached s st ?n" "\<And>y. y \<in> set X \<Longrightarrow> D st y \<le> Fin ?c" by (fact e)+
  show "D st ?n = Fin ?c" "?n \<notin> set X" using e assms(3) by auto
qed

lemma no_path_left:
  assumes g: "graph_ok ks g" and tr: "tree_ok ks g fN s X st" and qu: "queue_ok g s t X UNIV st" and cl: "closed_under g fN s X st"
    and e: "entries st = []" and t: "t \<in> graph_names s g"
  shows "\<not> reachable g fN s t"
proof
  assume "reachable g fN s t"
  then obtain p where p: "walk g fN p" "hd p = s" "last p = t" by (auto simp: reachable_def)
  have X: "n \<in> set X" if "reached s st n" for n using that qu e by (auto simp: queue_ok_def)
  have "last p \<in> set X"
  proof (rule walk_closed [OF p(1)])
    show "hd p \<in> set X" using X [of s] p(2) by (simp add: reached_def)
    show "DestinationIp e \<in> set X" if "x \<in> set X" "e \<in> set (gm_list g x)" "\<not> flag fN (DestinationIp e)" for x e
      using that cl X by (auto simp: closed_under_def)
  qed
  with p qu show False by (simp add: queue_ok_def)
qed

lemma expand_node:
  assumes tr: "tree_ok ks g fN s X st" and qu: "queue_ok g s t (X @ [n]) UNIV st" and n: "D st n = Fin c" "n \<notin> set X" "reached s st n"
    and mx: "\<And>y. y \<in> set X \<Longrightarrow> D st y \<le> Fin c"
  shows "expanding ks g fN s t (X @ [n]) n c st"
proof -
  have pm: "m \<in> set X" if "gm_get (s_prev st) k = Some m" for k m using tree_prev [OF tr that] by metis
  have "(X @ [n]) ! i = s \<or> (\<exists>m \<in> set (take i (X @ [n])). gm_get (s_prev st) ((X @ [n]) ! i) = Some m)" if "i < length (X @ [n])" for i
  proof (cases "i < length X")
    case True
    then show ?thesis using tr by (auto simp: tree_ok_def nth_append)
  next
    case False
    then have "i = length X" using that by simp
    then show ?thesis using n(3) pm by (auto simp: reached_def nth_append)
  qed
  then have "tree_ok ks g fN s (X @ [n]) st" using tr n(2) pm unfolding tree_ok_def by auto
  then show ?thesis using qu n mx by (simp add: expanding_def)
qed

lemma loop_correct:
  assumes g: "graph_ok ks g" and s: "s \<noteq> []" and t: "t \<in> graph_names s g"
    and "tree_ok ks g fN s X st" "queue_ok g s t X K st"
    and "K = UNIV \<and> closed_under g fN s X st \<or> K = {t} \<and> D st t \<noteq> PInf"
    and "length (s_pq st) + edges_left g X < fuel"
  shows "search_ok ks g fN s t (search_loop fuel ks t g fN [] st)"
  using assms(4-7)
proof (induction fuel arbitrary: X K st)
  case (Suc fuel)
  note tr = Suc.prems(1) and qu = Suc.prems(2)
  have tt: "(D st t = PInf) = (\<not> reached s st t)" using tr t by (simp add: tree_ok_def)
  note hp = queue_okD(1) [OF qu] and tX = queue_okD(2) [OF qu]
  note loop = search_loop.simps [of "Suc fuel" ks t g fN "[]" st, simplified]
  show ?case
  proof (cases "s_pq st = []")
    case True
    then have e: "entries st = []" by (simp add: pq_empty)
    have "\<not> reached s st t" using queue_okD(5) [OF qu, of t] e tX Suc.prems(3) by auto
    then have "K = UNIV" "closed_under g fN s X st" using Suc.prems(3) tt by auto
    then have "\<not> reachable g fN s t" using no_path_left [OF g tr _ _ e t] qu by simp
    then show ?thesis using True by (simp add: loop search_ok_def)
  next
    case False
    obtain pq x where p: "pq_pop (s_pq st) = Inr (pq, x)" "pqi.heap_ok pq" "mset (entries st) = add_mset (pq_key x) (mset (pq_elems pq))"
      and mn: "\<And>e. e \<in> set (entries st) \<Longrightarrow> pq_cost x \<le> fst (snd e)"
      using pq_pop_correct [OF hp] False by auto
    let ?st = "st\<lparr>s_pq := pq\<rparr>" and ?n = "pq_node x" and ?c = "pq_cost x"
    have mem: "pq_key x \<in> set (entries st)" using arg_cong [OF p(3), of set_mset] by simp
    have len: "length (s_pq st) = Suc (length pq)" using arg_cong [OF p(3), of size] by (simp add: pq_empty)
    consider "Fin ?c > D st ?n" | "\<not> Fin ?c > D st ?n" "?n = t" | "\<not> Fin ?c > D st ?n" "?n \<noteq> t" "D st t \<noteq> PInf"
      | "\<not> Fin ?c > D st ?n" "?n \<noteq> t" "D st t = PInf" by blast
    then show ?thesis
    proof cases
      case 1
      have "queue_ok g s t X K ?st" by (rule queue_pop [OF qu p(3,2)]) (use 1 in auto)
      then have "search_ok ks g fN s t (search_loop fuel ks t g fN [] ?st)"
        using Suc.prems(1,3,4) len by (intro Suc.IH) (auto simp: closed_under_def)
      then show ?thesis using False 1 by (simp add: loop p(1))
    next
      case 2
      note cur = pop_current [OF qu mem 2(1)]
      have "\<exists>p. found_path ?st t ?c = Inr p \<and> path_ok ks g fN s t p"
        by (rule found_path_correct [OF g _ s]) (use tr cur 2 tX in auto)
      then show ?thesis using False 2 by (auto simp: loop p(1) search_ok_def)
    next
      case 3
      have "queue_ok g s t X {t} ?st" by (rule queue_pop [OF qu p(3,2)]) (use 3 Suc.prems(3) in auto)
      then have "search_ok ks g fN s t (search_loop fuel ks t g fN [] ?st)"
        using Suc.prems(1,4) len 3 by (intro Suc.IH) auto
      then show ?thesis using False 3 by (simp add: loop p(1))
    next
      case 4
      note cur = pop_current [OF qu mem 4(1)]
      have K: "K = UNIV" "closed_under g fN s X st" using Suc.prems(3) 4(3) by auto
      have "queue_ok g s t (X @ [?n]) UNIV ?st" using queue_expand [OF qu p(3,2) K(1) cur(1) 4(2) mn] .
      then have ex: "expanding ks g fN s t (X @ [?n]) ?n ?c ?st" using cur tr by (intro expand_node) auto
      let ?st' = "foldl (relax ks fN [] ?n ?c) ?st (gm_list g ?n)"
      note r = relax_all [OF g order_refl ex]
      have "closed_under g fN s (X @ [?n]) ?st'" using r K(2) by (auto simp: closed_under_def)
      moreover have "edges_left g (X @ [?n]) + length (gm_list g ?n) = edges_left g X"
        using g cur(2) by (intro edges_left_expand) (simp_all add: graph_ok_def)
      ultimately have "search_ok ks g fN s t (search_loop fuel ks t g fN [] ?st')"
        using r Suc.prems(4) len by (intro Suc.IH) (auto simp: expanding_def)
      then show ?thesis using False 4 by (simp add: loop p(1) Let_def)
    qed
  qed
qed simp

section \<open>Lemmas: the whole search\<close>

lemma init_label_get:
  "gm_get (init_label m a) n = (case gm_get m n of Some x \<Rightarrow> Some x | None \<Rightarrow> if n = a then Some PInf else None)"
proof (cases "gm_get m a")
  case None
  then have "a \<notin> set (map fst m)" by (simp add: map_of_eq_None_iff)
  with None show ?thesis by (auto simp: init_label_def update_conv' split: option.splits)
next
  case (Some x)
  then have "a \<in> set (map fst m)" by (metis map_of_eq_None_iff option.distinct(1) list.set_map)
  with Some show ?thesis by (auto simp: init_label_def split: option.splits)
qed

lemma init_labels_get:
  "gm_get (init_labels g) n = (if n \<in> fst ` set g \<union> (\<Union>(n, es) \<in> set g. DestinationIp ` set es) then Some PInf else None)"
proof -
  have "gm_get (foldl init_label m ns) n = (case gm_get m n of Some x \<Rightarrow> Some x | None \<Rightarrow> if n \<in> set ns then Some PInf else None)" for m ns
    by (induction ns arbitrary: m) (auto simp: init_label_get split: option.splits)
  then show ?thesis by (auto simp: init_labels_def)
qed

lemma edges_left_all: "edges_left g [] = edge_count g"
  by (induction g) (auto simp: edges_left_simps edge_count_def)

lemma unknown_unreachable:
  assumes "graph_ok ks g" "t \<notin> graph_names s g"
  shows "\<not> reachable g fN s t"
proof
  assume "reachable g fN s t"
  then obtain p where p: "walk g fN p" "hd p = s" "last p = t" by (auto simp: reachable_def)
  have "hd p \<in> graph_names s g" by (simp add: p(2) graph_names_def)
  then have "last p \<in> graph_names s g" using graph_okD(4) [OF assms(1)] by (rule walk_closed [OF p(1)])
  with p assms(2) show False by simp
qed

lemma findShortestPath_correct:
  assumes g: "graph_ok ks g" and s: "s \<noteq> []"
  shows "search_ok ks g fN s t (findShortestPath ks s t g fN [])"
proof -
  let ?m = "gm_set (init_labels g) s (Fin 0)" and ?x = "\<lparr>pq_node = s, pq_cost = 0, pq_rawRTT = 0, pq_index = 0\<rparr>"
  define st where "st = \<lparr>s_dist = ?m, s_prev = [], s_raw = ?m, s_pq = pq_push [] ?x\<rparr>"
  have hp: "pqi.heap_ok (s_pq st)" "mset (entries st) = {#(s, 0, 0)#}" "length (s_pq st) = 1"
    using pq_push_correct [OF pq_empty(1), of ?x] length_pq_push [OF pq_empty(1), of ?x] by (simp_all add: st_def pq_key_def pq_empty)
  have e: "entries st = [(s, 0, 0)]" using hp(2) by simp
  have fsp: "findShortestPath ks s t g fN [] = search_loop (edge_count g + 2) ks t g fN [] st"
    by (simp add: findShortestPath_def st_def Let_def)
  have D0: "D st n = (if n = s then Fin 0 else case gm_get (init_labels g) n of Some x \<Rightarrow> x | None \<Rightarrow> Fin 0)" for n
    by (simp add: st_def label_def update_conv')
  have R0: "R st s = Fin 0" by (simp add: st_def)
  have rc: "reached s st n \<longleftrightarrow> n = s" for n by (simp add: reached_def st_def)
  show ?thesis
  proof (cases "t \<in> graph_names s g")
    case True
    have "tree_ok ks g fN s [] st"
      unfolding tree_ok_def by (auto simp: D0 R0 rc init_labels_get graph_names_def) (simp_all add: st_def)
    moreover have "queue_ok g s t [] UNIV st" using hp(1) by (simp add: queue_ok_def e rc D0 graph_names_def)
    moreover have "closed_under g fN s [] st" by (simp add: closed_under_def)
    ultimately show ?thesis unfolding fsp using g s True hp(3) by (intro loop_correct) (auto simp: edges_left_all)
  next
    case False
    then have t: "t \<noteq> s" "D st t = Fin 0" by (auto simp: graph_names_def D0 init_labels_get)
    obtain pq x where p: "pq_pop (s_pq st) = Inr (pq, x)" "add_mset (pq_key x) (mset (pq_elems pq)) = {#(s, 0, 0)#}"
      using pq_pop_correct [OF hp(1)] hp(2,3) by (metis less_numeral_extra(1))
    then have x: "pq_node x = s" "pq_cost x = 0" "pq = []" by (auto simp: pq_key_def pq_elems_def)
    have "search_loop (Suc k) ks t g fN [] (st\<lparr>s_pq := []\<rparr>) = Inl (GoError ''no path found'')" for k
      by (simp add: search_loop.simps [of "Suc k"])
    then have "findShortestPath ks s t g fN [] = Inl (GoError ''no path found'')"
      unfolding fsp using hp(3) t D0 [of s] by (simp add: search_loop.simps [of "Suc (Suc _)" _ _ _ _ _ st] p(1) x)
    then show ?thesis using unknown_unreachable [OF g False] by (simp add: search_ok_def)
  qed
qed

section \<open>Properties\<close>

text \<open>
  C19: In a graph with named nodes, non-negative weights and no parallel edges, \<^verbatim>\<open>findShortestPath\<close> ends, returns
  an error exactly when the end cannot be reached around the forbidden nodes, and otherwise returns a simple
  path of edges from start to end that enters no forbidden node, with the sum of its weights as cost and
  the sum of its latencies as latency.
\<close>

theorem search_finds_path:
  assumes "graph_ok ks g" "s \<noteq> []"
  shows "case findShortestPath ks s t g fN [] of
      Inr p \<Rightarrow> path_ok ks g fN s t p
    | Inl (GoError _) \<Rightarrow> \<not> reachable g fN s t
    | Inl _ \<Rightarrow> False"
  using findShortestPath_correct [OF assms, of fN t]
  by (auto simp: search_ok_def split: sum.splits fault.splits)

theorem search_finds_path_witness:
  "\<exists>p. findShortestPath ex_solver ''s'' ''t'' ex_graph [] [] = Inr p \<and> path_ok ex_solver ex_graph [] ''s'' ''t'' p"
proof -
  have g: "graph_ok ex_solver ex_graph" by (simp add: graph_ok_def ex_graph_def ex_edge_def ex_solver_def ks_weight_def
      NewKShortestSolver_def NewKShortestSolverWithLatency_def)
  have "walk ex_graph [] [''s'', ''t'']" by (simp add: ex_graph_def ex_edge_def)
  then have "reachable ex_graph [] ''s'' ''t''" unfolding reachable_def by (intro exI [of _ "[''s'', ''t'']"]) simp
  with search_finds_path [OF g, of "''s''" "[]" "''t''"] show ?thesis by (auto split: sum.splits fault.splits)
qed


end
