(* ===== verification/Yen_Paths.thy ===== *)
theory Yen_Paths
  imports Shortest_Path
begin

text \<open>
  Correctness of \<^verbatim>\<open>yensAlgorithm\<close> and of the solver built on it: the paths of the result are simple, different
  paths from start to end, in order of cost, at least one when the end can be reached and at most as many as
  asked for.
\<close>

section \<open>Definitions\<close>

text \<open>Node names that survive the joining and splitting of paths at arrows.\<close>

definition arrow_free :: "string \<Rightarrow> bool" where
  "arrow_free n = (CHR ''>'' \<notin> set n)"

definition names_ok :: "string \<Rightarrow> graph \<Rightarrow> bool" where
  "names_ok s g = (\<forall>n \<in> graph_names s g. arrow_free n)"

text \<open>Candidates: the entries of the queue stand for paths by their joined names.\<close>

definition cand_ok :: "KShortestSolver \<Rightarrow> graph \<Rightarrow> string \<Rightarrow> string \<Rightarrow> string \<times> real \<times> real \<Rightarrow> bool" where
  "cand_ok ks g s t e = (\<exists>p. path_ok ks g [] s t p \<and> e = (path_str (p_hops p), p_cost p, p_rawRTT p))"

definition yen_inv :: "KShortestSolver \<Rightarrow> graph \<Rightarrow> string \<Rightarrow> string \<Rightarrow> Path list \<Rightarrow> PriorityQueue \<Rightarrow> bool" where
  "yen_inv ks g s t A B = (A \<noteq> [] \<and> (\<forall>p \<in> set A. path_ok ks g [] s t p) \<and> pqi.heap_ok B
     \<and> (\<forall>e \<in> set (pq_elems B). cand_ok ks g s t e)
     \<and> distinct (map (path_str \<circ> p_hops) A @ map fst (pq_elems B)))"

text \<open>Edge lists the solver can be given: named ends, no parallel edges, non-negative weights.\<close>

definition edges_ok :: "KShortestSolver \<Rightarrow> Edge list \<Rightarrow> bool" where
  "edges_ok ks es = (distinct (map (\<lambda>e. (SourceIp e, DestinationIp e)) es)
     \<and> (\<forall>e \<in> set es. 0 \<le> ks_weight ks e \<and> SourceIp e \<noteq> [] \<and> DestinationIp e \<noteq> []
         \<and> arrow_free (SourceIp e) \<and> arrow_free (DestinationIp e)))"

section \<open>Lemmas: the path helpers\<close>

lemma hasDuplicateNodes_iff: "hasDuplicateNodes hs \<longleftrightarrow> \<not> distinct hs"
proof -
  have "has_dup_from seen hs \<longleftrightarrow> \<not> (distinct hs \<and> set hs \<inter> set seen = {})" for seen
    by (induction hs arbitrary: seen) auto
  then show ?thesis by (simp add: hasDuplicateNodes_def)
qed

lemma dedup_from_id: "distinct (p # hs) \<Longrightarrow> dedup_from p hs = hs"
  by (induction hs arbitrary: p) auto

lemma removeConsecutiveDuplicates_id: "distinct hs \<Longrightarrow> removeConsecutiveDuplicates hs = hs"
  by (cases hs) (auto simp: removeConsecutiveDuplicates_def dedup_from_id)

lemma dedup_path_id: "distinct (p_hops p) \<Longrightarrow> dedup_path p = p"
  by (simp add: dedup_path_def removeConsecutiveDuplicates_id)

lemma isPathInList_iff: "isPathInList p ps \<longleftrightarrow> path_str (p_hops p) \<in> (path_str \<circ> p_hops) ` set ps"
  unfolding isPathInList_def list_ex_iff image_iff comp_def by metis

lemma isPathInQueue_iff: "isPathInQueue p B \<longleftrightarrow> path_str (p_hops p) \<in> fst ` set (pq_elems B)"
  by (auto simp: isPathInQueue_def list_ex_iff image_iff pq_elems_def pq_key_def) force+

lemma isInPath_iff: "isInPath n p \<longleftrightarrow> n \<in> set p"
  by (auto simp: isInPath_def list_ex_iff)

lemma arrow_sep: "arrow_free n \<Longrightarrow> sep_safe ''->'' n"
  unfolding arrow_free_def by (rule sep_safe_arrow)

lemma split_path_str: "hs \<noteq> [] \<Longrightarrow> \<forall>h \<in> set hs. arrow_free h \<Longrightarrow> split (path_str hs) ''->'' = hs"
  unfolding path_str_def by (rule split_join) (auto intro: arrow_sep)

lemma path_str_inj: "hs \<noteq> [] \<Longrightarrow> hs' \<noteq> [] \<Longrightarrow> \<forall>h \<in> set hs. arrow_free h \<Longrightarrow> \<forall>h \<in> set hs'. arrow_free h \<Longrightarrow>
    path_str hs = path_str hs' \<longleftrightarrow> hs = hs'"
  by (metis split_path_str)

section \<open>Lemmas: walks in parts of the graph\<close>

lemma walk_names:
  assumes "graph_ok ks g" "walk g fN p" "hd p = s"
  shows "set p \<subseteq> graph_names s g"
proof -
  have "walk g fN p \<Longrightarrow> hd p \<in> graph_names s g \<Longrightarrow> set p \<subseteq> graph_names s g"
    using graph_okD(4) [OF assms(1)] by (induction g fN p rule: walk.induct) auto
  then show ?thesis using assms by (simp add: graph_names_def)
qed

lemma walk_unflagged: "walk g fN p \<Longrightarrow> walk g [] p" "walk g fN p \<Longrightarrow> v \<in> set (tl p) \<Longrightarrow> \<not> flag fN v"
  by (induction g fN p rule: walk.induct) (auto split: list.splits)

lemma walk_append: "walk g fN p \<Longrightarrow> walk g fN q \<Longrightarrow> last p = hd q \<Longrightarrow> walk g fN (butlast p @ q)"
proof (induction g fN p rule: walk.induct)
  case (3 g fN u v p)
  then show ?case by (cases p; cases q) auto
qed auto

lemma walk_take: "walk g fN p \<Longrightarrow> walk g fN (take (Suc j) p)"
proof (induction g fN p arbitrary: j rule: walk.induct)
  case (3 g fN u v p)
  then show ?case by (cases j) auto
qed auto

lemma cost_append:
  "p \<noteq> [] \<Longrightarrow> q \<noteq> [] \<Longrightarrow> last p = hd q \<Longrightarrow> calculatePathCost ks (butlast p @ q) g = calculatePathCost ks p g + calculatePathCost ks q g"
  "p \<noteq> [] \<Longrightarrow> q \<noteq> [] \<Longrightarrow> last p = hd q \<Longrightarrow> calculatePathRTT (butlast p @ q) g = calculatePathRTT p g + calculatePathRTT q g"
proof (induction p)
  case (Cons u p)
  case 1
  then show ?case using Cons.IH(1) by (cases p; cases "tl p"; cases q) auto
next
  case (Cons u p)
  case 2
  then show ?case using Cons.IH(2) by (cases p; cases "tl p"; cases q) auto
qed auto

lemma cost_cong:
  assumes "\<forall>u \<in> set (butlast p). gm_list g' u = gm_list g u"
  shows "calculatePathCost ks p g' = calculatePathCost ks p g" "calculatePathRTT p g' = calculatePathRTT p g"
proof -
  show "calculatePathCost ks p g' = calculatePathCost ks p g"
    using assms by (induction ks p g rule: calculatePathCost.induct) (auto simp: first_edge_def)
  show "calculatePathRTT p g' = calculatePathRTT p g"
    using assms by (induction p g rule: calculatePathRTT.induct) (auto simp: first_edge_def)
qed

lemma walk_subgraph:
  assumes g: "graph_ok ks g" "graph_ok ks g'" and sub: "\<And>u. set (gm_list g' u) \<subseteq> set (gm_list g u)" and w: "walk g' fN p"
  shows "walk g fN p" "calculatePathCost ks p g' = calculatePathCost ks p g" "calculatePathRTT p g' = calculatePathRTT p g"
proof -
  have fe: "first_edge g' u v = first_edge g u v" if "\<exists>e \<in> set (gm_list g' u). DestinationIp e = v" for u v
    using that first_edge_unique [OF g(1)] first_edge_unique [OF g(2)] sub [of u] by auto
  show "walk g fN p" using w sub by (induction g' fN p rule: walk.induct) auto
  show "calculatePathCost ks p g' = calculatePathCost ks p g" "calculatePathRTT p g' = calculatePathRTT p g"
    using w fe by (induction g' fN p rule: walk.induct) auto
qed

section \<open>Lemmas: spur nodes\<close>

lemma foldl_filter: "\<exists>P'. foldl (\<lambda>es p. if C p then filter (Q p) es else es) (filter P es) ps = filter P' es"
proof (induction ps arbitrary: P)
  case (Cons p ps)
  have "(if C p then filter (Q p) (filter P es) else filter P es) = filter (\<lambda>x. P x \<and> (C p \<longrightarrow> Q p x)) es" by simp
  then show ?case using Cons.IH [of "\<lambda>x. P x \<and> (C p \<longrightarrow> Q p x)"] by simp
qed auto

lemma spur_edges_filter: "\<exists>P. spur_edges A j rt es = filter P es"
  unfolding spur_edges_def by (rule foldl_filter)

lemma gm_set_restore: "gm_get g k = Some v \<Longrightarrow> gm_set (gm_set g k x) k v = g"
  by (induction g) (auto split: if_splits)

lemma spur_graph_ok:
  assumes g: "graph_ok ks g" and n: "gm_get g n = Some es"
  shows "graph_ok ks (gm_set g n (filter P es))"
proof -
  define ok where "ok = (\<lambda>(n :: string, es). n \<noteq> [] \<and> distinct (map DestinationIp es) \<and> (\<forall>e \<in> set es. 0 \<le> ks_weight ks e \<and> DestinationIp e \<noteq> []))"
  have g': "gm_ok g" "\<forall>x \<in> set g. ok x" using g by (auto simp: graph_ok_def ok_def)
  have "(n, es) \<in> set g" using n by (rule map_of_SomeD)
  with g'(2) have "ok (n, es)" by blast
  then have "ok (n, filter P es)" by (auto simp: ok_def distinct_map_filter)
  with g'(2) have "\<forall>x \<in> set (gm_set g n (filter P es)). ok x" using set_update_sub [of n "filter P es" g] by blast
  then show ?thesis using g'(1) unfolding graph_ok_def ok_def by (auto simp: distinct_update)
qed

lemma root_flags_iff: "flag (root_flags ns) n \<longleftrightarrow> n \<in> set ns"
proof -
  have "flag (foldl (\<lambda>m n. gm_set m n True) m ns) n \<longleftrightarrow> n \<in> set ns \<or> flag m n" for m
    by (induction ns arbitrary: m) (auto simp: flag_def update_conv')
  then show ?thesis by (simp add: root_flags_def)
qed

text \<open>A root of a found path and a spur path around it make a path of the graph.\<close>

lemma spur_complete:
  fixes P
  assumes g: "graph_ok ks g" and p: "path_ok ks g [] s t p" and j: "Suc j < length (p_hops p)"
    and n: "gm_get g (p_hops p ! j) = Some es"
  defines "rt \<equiv> take (j + 1) (p_hops p)" and "g' \<equiv> gm_set g (p_hops p ! j) (filter P es)"
  assumes q: "path_ok ks g' (root_flags (butlast rt)) (p_hops p ! j) t q"
  shows "path_ok ks g [] s t \<lparr>p_hops = butlast rt @ p_hops q, p_cost = calculatePathCost ks rt g' + p_cost q,
      p_rawRTT = calculatePathRTT rt g' + p_rawRTT q\<rparr>"
proof -
  let ?n = "p_hops p ! j" and ?q = "p_hops q"
  have P: "walk g [] (p_hops p)" "hd (p_hops p) = s" "distinct (p_hops p)" using p by (auto simp: path_ok_def)
  have Q: "walk g' (root_flags (butlast rt)) ?q" "hd ?q = ?n" "last ?q = t" "distinct ?q"
    "p_cost q = calculatePathCost ks ?q g'" "p_rawRTT q = calculatePathRTT ?q g'" using q by (auto simp: path_ok_def)
  have g': "graph_ok ks g'" unfolding g'_def by (rule spur_graph_ok [OF g n])
  have sub: "set (gm_list g' u) \<subseteq> set (gm_list g u)" for u using n by (auto simp: g'_def)
  note wq = walk_subgraph [OF g g' sub Q(1)]
  have rt: "walk g [] rt" "rt \<noteq> []" "last rt = ?n" "hd rt = s" "distinct rt" "butlast rt = take j (p_hops p)" "?q \<noteq> []"
  proof -
    have eq: "rt = take j (p_hops p) @ [?n]" using j by (simp add: rt_def take_Suc_conv_app_nth)
    show "walk g [] rt" using walk_take [OF P(1), of j] by (simp add: rt_def)
    show "rt \<noteq> []" "last rt = ?n" "butlast rt = take j (p_hops p)" by (simp_all add: eq)
    show "distinct rt" using P(3) by (simp add: rt_def)
    show "hd rt = s" using P(2) j by (cases "p_hops p") (auto simp: rt_def)
    show "?q \<noteq> []" using Q(1) by (rule walk_not_Nil)
  qed
  have nb: "?n \<notin> set (butlast rt)" using P(3) j unfolding rt(6) by (auto simp: in_set_conv_nth nth_eq_iff_index_eq)
  then have c: "calculatePathCost ks rt g' = calculatePathCost ks rt g" "calculatePathRTT rt g' = calculatePathRTT rt g"
    by (auto intro!: cost_cong simp: g'_def)
  have "set (tl ?q) \<inter> set (butlast rt) = {}" using walk_unflagged(2) [OF Q(1)] by (auto simp: root_flags_iff)
  moreover have "set ?q = insert ?n (set (tl ?q))" using rt(7) Q(2) by (cases ?q) auto
  ultimately have "distinct (butlast rt @ ?q)" using rt(5) Q(4) nb by (auto simp: distinct_butlast)
  moreover have "walk g [] (butlast rt @ ?q)" using walk_append [OF rt(1) walk_unflagged(1) [OF wq(1)]] rt(3) Q(2) by simp
  moreover have "hd (butlast rt @ ?q) = s" using rt(2,3,4) Q(2) by (cases rt) (auto split: if_splits)
  moreover have "last (butlast rt @ ?q) = t" using Q(3) rt(7) by simp
  ultimately show ?thesis
    using Q(2,5,6) wq(2,3) c cost_append [of rt ?q] rt(2,3,7) by (simp add: path_ok_def)
qed

lemma yen_invD:
  assumes "yen_inv ks g s t A B"
  shows "A \<noteq> []" "\<And>p. p \<in> set A \<Longrightarrow> path_ok ks g [] s t p" "pqi.heap_ok B" "\<And>e. e \<in> set (pq_elems B) \<Longrightarrow> cand_ok ks g s t e"
    "distinct (map (path_str \<circ> p_hops) A)" "distinct (map fst (pq_elems B))"
    "(path_str \<circ> p_hops) ` set A \<inter> fst ` set (pq_elems B) = {}"
  using assms by (auto simp: yen_inv_def)

lemma push_candidate:
  assumes inv: "yen_inv ks g s t A B" and c: "path_ok ks g [] s t c" "\<not> isPathInList c A" "\<not> isPathInQueue c B"
  shows "yen_inv ks g s t A (pq_push B \<lparr>pq_node = path_str (p_hops c), pq_cost = p_cost c, pq_rawRTT = p_rawRTT c, pq_index = 0\<rparr>)"
    (is "yen_inv ks g s t A ?B")
proof -
  note i = yen_invD [OF inv]
  let ?e = "(path_str (p_hops c), p_cost c, p_rawRTT c)"
  have m: "mset (pq_elems ?B) = mset (?e # pq_elems B)" using pq_push_correct(2) [OF i(3)] by (simp add: pq_key_def)
  have el: "set (pq_elems ?B) = insert ?e (set (pq_elems B))" using mset_eq_setD [OF m] by simp
  have "mset (map fst (pq_elems ?B)) = mset (map fst (?e # pq_elems B))" using m by (metis mset_map)
  moreover have "distinct (map fst (?e # pq_elems B))" using i(6) c(3) by (simp add: isPathInQueue_iff)
  ultimately have "distinct (map fst (pq_elems ?B))" using mset_eq_imp_distinct_iff by blast
  moreover have "(path_str \<circ> p_hops) ` set A \<inter> fst ` set (pq_elems ?B) = {}" using i(7) c(2) el by (auto simp: isPathInList_iff)
  moreover have "\<forall>e \<in> set (pq_elems ?B). cand_ok ks g s t e" using i(4) c(1) el by (auto simp: cand_ok_def)
  ultimately show ?thesis using i pq_push_correct(1) [OF i(3)] by (simp add: yen_inv_def)
qed

lemma yen_spur_correct:
  assumes g: "graph_ok ks g" and inv: "yen_inv ks g s t A B" and p: "p \<in> set A" and j: "j < length (p_hops p) - 1"
  shows "\<exists>B'. yen_spur ks t A p j (g, B) = Inr (g, B') \<and> yen_inv ks g s t A B'"
proof (cases "gm_get g (p_hops p ! j)")
  case None
  then show ?thesis using inv by (simp add: yen_spur_def Let_def)
next
  case (Some es)
  let ?n = "p_hops p ! j" and ?rt = "take (j + 1) (p_hops p)"
  obtain P where P: "spur_edges A j ?rt es = filter P es" using spur_edges_filter by blast
  let ?g = "gm_set g ?n (filter P es)"
  have pk: "path_ok ks g [] s t p" by (rule yen_invD(2) [OF inv p])
  have rst: "gm_set ?g ?n es = g" by (rule gm_set_restore) fact
  have j': "Suc j < length (p_hops p)" using j by simp
  have n: "?n \<noteq> []" using map_of_SomeD [OF Some] g by (auto simp: graph_ok_def)
  show ?thesis
  proof (cases "?n = t \<or> isInPath t ?rt")
    case True
    then show ?thesis using Some inv P rst by (simp add: yen_spur_def Let_def)
  next
    case False
    let ?f = "findShortestPath ks ?n t ?g (root_flags (butlast ?rt)) []"
    have "search_ok ks ?g (root_flags (butlast ?rt)) ?n t ?f" by (rule findShortestPath_correct [OF spur_graph_ok [OF g Some] n])
    then consider m where "?f = Inl (GoError m)" | q where "?f = Inr q" "path_ok ks ?g (root_flags (butlast ?rt)) ?n t q"
      by (auto simp: search_ok_def split: sum.splits fault.splits)
    then show ?thesis
    proof cases
      case 1
      then show ?thesis using Some inv P rst False by (simp add: yen_spur_def Let_def)
    next
      case 2
      let ?c = "\<lparr>p_hops = butlast ?rt @ p_hops q, p_cost = calculatePathCost ks ?rt ?g + p_cost q,
        p_rawRTT = calculatePathRTT ?rt ?g + p_rawRTT q\<rparr>"
      have c: "path_ok ks g [] s t ?c" by (rule spur_complete [OF g pk j' Some 2(2)])
      then have d: "distinct (butlast ?rt @ p_hops q)" "distinct (p_hops q)" by (auto simp: path_ok_def)
      let ?B = "if \<not> isPathInList ?c A \<and> \<not> isPathInQueue ?c B then pq_push B \<lparr>pq_node = path_str (p_hops ?c), pq_cost = p_cost ?c,
        pq_rawRTT = p_rawRTT ?c, pq_index = 0\<rparr> else B"
      have "yen_spur ks t A p j (g, B) = Inr (g, ?B)"
        using Some P rst False 2(1) d unfolding yen_spur_def Let_def
        by (simp add: hasDuplicateNodes_iff removeConsecutiveDuplicates_id)
      moreover have "yen_inv ks g s t A ?B" using push_candidate [OF inv c] inv by simp
      ultimately show ?thesis by blast
    qed
  qed
qed

lemma yen_spurs_correct:
  assumes g: "graph_ok ks g" and inv: "yen_inv ks g s t A B" and pjs: "\<forall>(p, j) \<in> set pjs. p \<in> set A \<and> j < length (p_hops p) - 1"
  shows "\<exists>B'. yen_spurs ks t A pjs (g, B) = Inr (g, B') \<and> yen_inv ks g s t A B'"
  using inv pjs
proof (induction pjs arbitrary: B)
  case (Cons pj pjs)
  obtain p j where pj: "pj = (p, j)" by (cases pj)
  then obtain B1 where "yen_spur ks t A p j (g, B) = Inr (g, B1)" "yen_inv ks g s t A B1"
    using yen_spur_correct [OF g Cons.prems(1), of p j] Cons.prems(2) by auto
  with Cons.IH [of B1] Cons.prems(2) show ?case by (auto simp: pj)
qed simp

section \<open>Lemmas: the algorithm\<close>

lemma path_names:
  assumes "graph_ok ks g" "names_ok s g" "path_ok ks g [] s t p"
  shows "p_hops p \<noteq> []" "\<forall>h \<in> set (p_hops p). arrow_free h"
  using assms walk_names [OF assms(1), of "[]" "p_hops p" s] walk_not_Nil [of g "[]" "p_hops p"]
  by (auto simp: path_ok_def names_ok_def)

lemma pop_candidate:
  assumes g: "graph_ok ks g" "names_ok s g" and inv: "yen_inv ks g s t A B" and B: "0 < length B"
  shows "\<exists>B' x p. pq_pop B = Inr (B', x) \<and> p = \<lparr>p_hops = removeConsecutiveDuplicates (split (pq_node x) ''->''), p_cost = pq_cost x,
      p_rawRTT = pq_rawRTT x\<rparr> \<and> \<not> isPathInList p A \<and> yen_inv ks g s t (A @ [p]) B'"
proof -
  note i = yen_invD [OF inv]
  obtain B' x where b: "pq_pop B = Inr (B', x)" "pqi.heap_ok B'" "mset (pq_elems B) = mset (pq_key x # pq_elems B')"
    using pq_pop_correct [OF i(3) B] by (metis mset.simps(2))
  have el: "set (pq_elems B) = insert (pq_key x) (set (pq_elems B'))" using mset_eq_setD [OF b(3)] by simp
  then have "cand_ok ks g s t (pq_key x)" using i(4) by blast
  then obtain p where p: "path_ok ks g [] s t p" "pq_node x = path_str (p_hops p)" "pq_cost x = p_cost p" "pq_rawRTT x = p_rawRTT p"
    by (auto simp: cand_ok_def pq_key_def)
  have "removeConsecutiveDuplicates (split (pq_node x) ''->'') = p_hops p"
    using split_path_str [OF path_names [OF g p(1)]] p(1,2) by (simp add: removeConsecutiveDuplicates_id path_ok_def)
  then have eq: "p = \<lparr>p_hops = removeConsecutiveDuplicates (split (pq_node x) ''->''), p_cost = pq_cost x, p_rawRTT = pq_rawRTT x\<rparr>"
    using p(3,4) by simp
  have fx: "fst (pq_key x) = path_str (p_hops p)" by (simp add: pq_key_def p(2))
  then have nA: "\<not> isPathInList p A" using i(7) el by (auto simp: isPathInList_iff)
  have "mset (map fst (pq_elems B)) = mset (map fst (pq_key x # pq_elems B'))" using b(3) by (metis mset_map)
  then have "distinct (map fst (pq_key x # pq_elems B'))" using i(6) mset_eq_imp_distinct_iff by blast
  then have "yen_inv ks g s t (A @ [p]) B'"
    using i b(2) el p(1) nA fx by (auto simp: yen_inv_def isPathInList_iff image_iff)
  with b(1) eq nA show ?thesis by blast
qed

lemma yen_loop_correct:
  assumes g: "graph_ok ks g" "names_ok s g" and inv: "yen_inv ks g s t A B"
    and fuel: "ks_k ks \<le> int (length A + fuel)" and k: "int (length A) \<le> ks_k ks"
  shows "\<exists>A'. yen_loop fuel ks t A (g, B) = Inr A' \<and> (\<exists>B'. yen_inv ks g s t A' B') \<and> int (length A') \<le> ks_k ks"
  using inv fuel k
proof (induction fuel arbitrary: A B)
  case 0
  then show ?case by (auto simp: yen_loop.simps [of 0])
next
  case (Suc fuel)
  show ?case
  proof (cases "int (length A) < ks_k ks")
    case True
    have "\<forall>(p, j) \<in> set (spur_points A). p \<in> set A \<and> j < length (p_hops p) - 1" by (auto simp: spur_points_def)
    from yen_spurs_correct [OF g(1) Suc.prems(1) this] obtain B1 where
      B1: "yen_spurs ks t A (spur_points A) (g, B) = Inr (g, B1)" "yen_inv ks g s t A B1" by blast
    show ?thesis
    proof (cases "length B1 = 0")
      case L: True
      then show ?thesis using True B1 Suc.prems by (auto simp: yen_loop.simps [of "Suc fuel"])
    next
      case False
      obtain B' x p where x: "pq_pop B1 = Inr (B', x)" "p = \<lparr>p_hops = removeConsecutiveDuplicates (split (pq_node x) ''->''), p_cost = pq_cost x,
          p_rawRTT = pq_rawRTT x\<rparr>" "\<not> isPathInList p A" "yen_inv ks g s t (A @ [p]) B'"
        using pop_candidate [OF g B1(2)] False by auto
      have "yen_loop (Suc fuel) ks t A (g, B) = yen_loop fuel ks t (A @ [p]) (g, B')"
        using True B1(1) False x(1,3) unfolding x(2) by (simp add: yen_loop.simps [of "Suc fuel"])
      with Suc.IH [OF x(4)] Suc.prems True show ?thesis by auto
    qed
  next
    case False
    then show ?thesis using Suc.prems by (auto simp: yen_loop.simps [of "Suc fuel"])
  qed
qed

text \<open>What the algorithm promises.\<close>

lemma yensAlgorithm_correct:
  assumes g: "graph_ok ks g" "names_ok s g" and s: "s \<noteq> []" and k: "0 < ks_k ks"
  shows "(\<exists>m. yensAlgorithm ks s t g = Inl (GoError m) \<and> \<not> reachable g [] s t)
    \<or> (\<exists>ps. yensAlgorithm ks s t g = Inr ps \<and> ps \<noteq> [] \<and> int (length ps) \<le> ks_k ks \<and> sorted (map p_cost ps)
        \<and> distinct (map p_hops ps) \<and> (\<forall>p \<in> set ps. path_ok ks g [] s t p))"
proof -
  have "search_ok ks g [] s t (findShortestPath ks s t g [] [])" by (rule findShortestPath_correct [OF g(1) s])
  then consider m where "findShortestPath ks s t g [] [] = Inl (GoError m)" "\<not> reachable g [] s t"
    | p where "findShortestPath ks s t g [] [] = Inr p" "path_ok ks g [] s t p"
    by (auto simp: search_ok_def split: sum.splits fault.splits)
  then show ?thesis
  proof cases
    case 1
    then show ?thesis by (simp add: yensAlgorithm_def)
  next
    case 2
    have d: "dedup_path p = p" using 2(2) by (simp add: dedup_path_id path_ok_def)
    have "yen_inv ks g s t [p] []" using 2(2) by (simp add: yen_inv_def pq_empty)
    from yen_loop_correct [OF g this, of "nat (ks_k ks)"] k obtain A B where
      A: "yen_loop (nat (ks_k ks)) ks t [p] (g, []) = Inr A" "yen_inv ks g s t A B" "int (length A) \<le> ks_k ks" by auto
    note i = yen_invD [OF A(2)]
    let ?ps = "exchange_sort p_cost A"
    have "map dedup_path ?ps = ?ps" using i(2) by (intro map_idI dedup_path_id) (auto simp: path_ok_def)
    moreover have "distinct (map p_hops A)" using i(5) by (metis distinct_map map_map)
    then have "distinct (map p_hops ?ps)"
      using mset_eq_imp_distinct_iff [of "map p_hops ?ps" "map p_hops A"] by simp
    moreover have "?ps \<noteq> []" using i(1) by (metis length_0_conv length_exchange_sort)
    ultimately show ?thesis using A i(2) 2(1) d by (auto simp: yensAlgorithm_def sorted_exchange_sort)
  qed
qed

section \<open>Lemmas: the solver's graph\<close>

lemma build_graph_spec:
  "gm_ok (build_graph es)" "gm_list (build_graph es) u = filter (\<lambda>e. SourceIp e = u) es"
  "fst ` set (build_graph es) = SourceIp ` set es"
proof -
  let ?f = "\<lambda>g e. gm_set g (SourceIp e) (gm_list g (SourceIp e) @ [e])"
  have "gm_ok g \<Longrightarrow> gm_ok (foldl ?f g es)" for g by (induction es arbitrary: g) (auto simp: distinct_update)
  then show "gm_ok (build_graph es)" by (simp add: build_graph_def)
  have "gm_list (foldl ?f g es) u = gm_list g u @ filter (\<lambda>e. SourceIp e = u) es" for g
    by (induction es arbitrary: g) auto
  then show "gm_list (build_graph es) u = filter (\<lambda>e. SourceIp e = u) es" by (simp add: build_graph_def)
  have "fst ` set (foldl ?f g es) = fst ` set g \<union> SourceIp ` set es" for g
    by (induction es arbitrary: g) (auto simp: dom_update)
  then show "fst ` set (build_graph es) = SourceIp ` set es" by (simp add: build_graph_def)
qed

lemma build_graph_mem:
  assumes "(n, es') \<in> set (build_graph es)"
  shows "es' = filter (\<lambda>e. SourceIp e = n) es" "n \<in> SourceIp ` set es"
proof -
  have "gm_get (build_graph es) n = Some es'" using assms build_graph_spec(1) by (simp add: map_of_is_SomeI)
  then show "es' = filter (\<lambda>e. SourceIp e = n) es" using build_graph_spec(2) [of es n] by simp
  show "n \<in> SourceIp ` set es" using assms build_graph_spec(3) by force
qed

lemma distinct_dests: "distinct (map (\<lambda>e. (SourceIp e, DestinationIp e)) es) \<Longrightarrow> distinct (map DestinationIp (filter (\<lambda>e. SourceIp e = n) es))"
  by (induction es) (force simp: image_iff)+

lemma build_graph_ok:
  assumes "edges_ok ks es"
  shows "graph_ok ks (build_graph es)" "s \<in> set (graph_nodes es) \<Longrightarrow> names_ok s (build_graph es)" "s \<in> set (graph_nodes es) \<Longrightarrow> s \<noteq> []"
proof -
  have "n \<noteq> [] \<and> distinct (map DestinationIp es') \<and> (\<forall>e \<in> set es'. 0 \<le> ks_weight ks e \<and> DestinationIp e \<noteq> [])"
    if "(n, es') \<in> set (build_graph es)" for n es'
    using build_graph_mem [OF that] assms distinct_dests [of es n] by (auto simp: edges_ok_def)
  then show "graph_ok ks (build_graph es)" using build_graph_spec(1) by (auto simp: graph_ok_def)
  assume s: "s \<in> set (graph_nodes es)"
  show "s \<noteq> []" using s assms by (auto simp: graph_nodes_def edges_ok_def)
  have "graph_names s (build_graph es) \<subseteq> insert s (SourceIp ` set es \<union> DestinationIp ` set es)"
    unfolding graph_names_def build_graph_spec(3) using build_graph_mem(1) by fastforce
  moreover have "arrow_free n" if "n \<in> insert s (SourceIp ` set es \<union> DestinationIp ` set es)" for n
    using that s assms by (auto simp: graph_nodes_def edges_ok_def)
  ultimately show "names_ok s (build_graph es)" by (auto simp: names_ok_def)
qed

lemma graph_nodes_iff: "n \<in> set (graph_nodes es) \<longleftrightarrow> n \<in> SourceIp ` set es \<union> DestinationIp ` set es"
  by (auto simp: graph_nodes_def)

lemma KS_Computing_correct:
  assumes "edges_ok ks (ks_edges ks)" "0 < ks_k ks"
  defines "g \<equiv> build_graph (ks_edges ks)"
  shows "case KS_Computing ks s t of
      Inr ps \<Rightarrow> ps \<noteq> [] \<and> int (length ps) \<le> ks_k ks \<and> sorted (map Rtt ps) \<and> distinct (map Hops ps)
        \<and> (\<forall>p \<in> set ps. walk g [] (Hops p) \<and> hd (Hops p) = s \<and> last (Hops p) = t \<and> distinct (Hops p)
             \<and> Rtt p = calculatePathCost ks (Hops p) g)
    | Inl (GoError _) \<Rightarrow> s \<notin> set (graph_nodes (ks_edges ks)) \<or> t \<notin> set (graph_nodes (ks_edges ks)) \<or> \<not> reachable g [] s t
    | Inl _ \<Rightarrow> False"
proof (cases "s \<in> set (graph_nodes (ks_edges ks)) \<and> t \<in> set (graph_nodes (ks_edges ks))")
  case False
  then show ?thesis by (auto simp: KS_Computing_def)
next
  case True
  note ok = build_graph_ok [OF assms(1), folded g_def]
  consider m where "yensAlgorithm ks s t g = Inl (GoError m)" "\<not> reachable g [] s t"
    | ps where "yensAlgorithm ks s t g = Inr ps" "ps \<noteq> []" "int (length ps) \<le> ks_k ks" "sorted (map p_cost ps)" "distinct (map p_hops ps)"
      "\<forall>p \<in> set ps. path_ok ks g [] s t p"
    using yensAlgorithm_correct [OF ok(1) ok(2) ok(3) assms(2), of s t] True by blast
  then show ?thesis
  proof cases
    case 1
    then show ?thesis using True by (simp add: KS_Computing_def g_def)
  next
    case 2
    then show ?thesis using True by (auto simp: KS_Computing_def g_def path_ok_def comp_def)
  qed
qed

section \<open>Properties\<close>

text \<open>
  C18: The solver for k shortest paths ends on every edge list with named ends, no parallel edges and
  non-negative weights. It fails exactly when start or end is unknown or the end cannot be reached; otherwise
  it gives at least one and at most k paths, all different, in order of cost, each a simple path of edges from
  start to end whose reported cost is the sum of its weights.
\<close>

theorem k_shortest_correct:
  assumes "edges_ok ks (ks_edges ks)" "0 < ks_k ks"
  defines "g \<equiv> build_graph (ks_edges ks)"
  shows "case KS_Computing ks s t of
      Inr ps \<Rightarrow> ps \<noteq> [] \<and> int (length ps) \<le> ks_k ks \<and> sorted (map Rtt ps) \<and> distinct (map Hops ps)
        \<and> (\<forall>p \<in> set ps. walk g [] (Hops p) \<and> hd (Hops p) = s \<and> last (Hops p) = t \<and> distinct (Hops p)
             \<and> Rtt p = calculatePathCost ks (Hops p) g)
    | Inl (GoError _) \<Rightarrow> s \<notin> set (graph_nodes (ks_edges ks)) \<or> t \<notin> set (graph_nodes (ks_edges ks)) \<or> \<not> reachable g [] s t
    | Inl _ \<Rightarrow> False"
  using KS_Computing_correct [OF assms(1, 2), of s t] unfolding g_def .

theorem k_shortest_correct_witness:
  "\<exists>ps. KS_Computing (ex_solver\<lparr>ks_k := 2\<rparr>) ''s'' ''t'' = Inr ps \<and> ps \<noteq> [] \<and> length ps \<le> 2 \<and> sorted (map Rtt ps)"
proof -
  have e: "edges_ok (ex_solver\<lparr>ks_k := 2\<rparr>) (ks_edges (ex_solver\<lparr>ks_k := 2\<rparr>))"
    by (simp add: edges_ok_def ex_edge_def ex_solver_def NewKShortestSolver_def NewKShortestSolverWithLatency_def ks_weight_def arrow_free_def)
  have "walk (build_graph (ks_edges (ex_solver\<lparr>ks_k := 2\<rparr>))) [] [''s'', ''t'']" by code_simp
  then have "reachable (build_graph (ks_edges (ex_solver\<lparr>ks_k := 2\<rparr>))) [] ''s'' ''t''"
    unfolding reachable_def by (intro exI [of _ "[''s'', ''t'']"]) simp
  moreover have "''s'' \<in> set (graph_nodes (ks_edges (ex_solver\<lparr>ks_k := 2\<rparr>)))" "''t'' \<in> set (graph_nodes (ks_edges (ex_solver\<lparr>ks_k := 2\<rparr>)))"
    by code_simp+
  ultimately show ?thesis using k_shortest_correct [OF e, of "''s''" "''t''"] by (auto split: sum.splits fault.splits)
qed

end
