(* ===== verification/Live_Net.thy ===== *)
theory Live_Net
  imports Yen_Paths
begin

text \<open>
  \<^verbatim>\<open>src/control-plane/routing/core-domain/livenet.go\<close>: five paths of Yen's algorithm, those of more than ten
  hops dropped, the rest ranked by their raw latency.
\<close>

section \<open>Definitions\<close>

record LiveStyleSolver =
  ls_edges :: "Edge list"
  ls_k :: int

definition NewLiveStyleSolver :: "Edge list \<Rightarrow> int \<Rightarrow> LiveStyleSolver" where
  "NewLiveStyleSolver es k = \<lparr>ls_edges = es, ls_k = (if k \<le> 0 then 2 else k)\<rparr>"

definition ls_selectTopPaths :: "Path list \<Rightarrow> int \<Rightarrow> Path list" where
  "ls_selectTopPaths paths cnt =
     (let validPaths = exchange_sort p_rawRTT (filter (\<lambda>p. int (length (p_hops p)) - 1 \<le> 10) paths)
      in if int (length validPaths) > cnt then take (nat cnt) validPaths else validPaths)"

definition LS_Computing :: "LiveStyleSolver \<Rightarrow> string \<Rightarrow> string \<Rightarrow> PathInfo list result" where
  "LS_Computing ls s t =
     (if s \<notin> set (graph_nodes (ls_edges ls)) then Inl (GoError ''start node not found'')
      else if t \<notin> set (graph_nodes (ls_edges ls)) then Inl (GoError ''end node not found'')
      else bindr (yensAlgorithm (NewKShortestSolver (ls_edges ls) 5) s t (build_graph (ls_edges ls))) (\<lambda>paths.
        Inr (map (\<lambda>p. \<lparr>Hops = p_hops p, Rtt = p_cost p, RawRTT = p_rawRTT p\<rparr>) (ls_selectTopPaths paths (ls_k ls)))))"

section \<open>Lemmas\<close>

lemma ls_select_props:
  fixes ps :: "Path list" and k :: int
  assumes "distinct (map p_hops ps)"
  defines "qs \<equiv> ls_selectTopPaths ps k"
  shows "distinct (map p_hops qs)" "sorted (map p_rawRTT qs)" "set qs \<subseteq> {p \<in> set ps. length (p_hops p) \<le> 11}"
    "0 < k \<Longrightarrow> int (length qs) \<le> k"
proof -
  let ?f = "filter (\<lambda>p. int (length (p_hops p)) - 1 \<le> 10) ps"
  let ?v = "exchange_sort p_rawRTT ?f"
  have "qs = take (if int (length ?v) > k then nat k else length ?v) ?v" by (simp add: qs_def ls_selectTopPaths_def Let_def)
  then obtain n where q: "qs = take n ?v" and n: "0 < k \<Longrightarrow> int n \<le> k" by (auto split: if_splits)
  have "mset (map p_hops ?v) = mset (map p_hops ?f)" by simp
  then have "distinct (map p_hops ?v)" using assms(1) distinct_map_filter mset_eq_imp_distinct_iff by blast
  then show "distinct (map p_hops qs)" by (simp add: q take_map [symmetric])
  show "sorted (map p_rawRTT qs)" using sorted_exchange_sort [of p_rawRTT ?f] by (simp add: q take_map [symmetric] sorted_wrt_take)
  have "set qs \<subseteq> set ?v" unfolding q by (rule set_take_subset)
  then show "set qs \<subseteq> {p \<in> set ps. length (p_hops p) \<le> 11}" by auto
  show "int (length qs) \<le> k" if "0 < k" using n [OF that] by (simp add: q)
qed

lemma live_style_correct:
  assumes "edges_ok (NewKShortestSolver (ls_edges ls) 5) (ls_edges ls)" "0 < ls_k ls"
  defines "g \<equiv> build_graph (ls_edges ls)"
  shows "case LS_Computing ls s t of
      Inr ps \<Rightarrow> int (length ps) \<le> ls_k ls \<and> sorted (map RawRTT ps) \<and> distinct (map Hops ps)
        \<and> (\<forall>p \<in> set ps. walk g [] (Hops p) \<and> hd (Hops p) = s \<and> last (Hops p) = t \<and> distinct (Hops p)
             \<and> RawRTT p = calculatePathRTT (Hops p) g \<and> length (Hops p) \<le> 11)
    | Inl (GoError _) \<Rightarrow> s \<notin> set (graph_nodes (ls_edges ls)) \<or> t \<notin> set (graph_nodes (ls_edges ls)) \<or> \<not> reachable g [] s t
    | Inl _ \<Rightarrow> False"
proof (cases "s \<in> set (graph_nodes (ls_edges ls)) \<and> t \<in> set (graph_nodes (ls_edges ls))")
  case False
  then show ?thesis by (auto simp: LS_Computing_def)
next
  case True
  let ?ks = "NewKShortestSolver (ls_edges ls) 5"
  note ok = build_graph_ok [OF assms(1), folded g_def]
  have k: "0 < ks_k ?ks" by (simp add: NewKShortestSolver_def NewKShortestSolverWithLatency_def)
  consider m where "yensAlgorithm ?ks s t g = Inl (GoError m)" "\<not> reachable g [] s t"
    | ps where "yensAlgorithm ?ks s t g = Inr ps" "distinct (map p_hops ps)" "\<forall>p \<in> set ps. path_ok ?ks g [] s t p"
    using yensAlgorithm_correct [OF ok(1) ok(2) ok(3) k, of s t] True by blast
  then show ?thesis
  proof cases
    case 1
    then show ?thesis using True by (simp add: LS_Computing_def g_def)
  next
    case 2
    have "LS_Computing ls s t = Inr (map (\<lambda>p. \<lparr>Hops = p_hops p, Rtt = p_cost p, RawRTT = p_rawRTT p\<rparr>) (ls_selectTopPaths ps (ls_k ls)))"
      using True 2(1) by (simp add: LS_Computing_def g_def)
    then show ?thesis using ls_select_props [OF 2(2), of "ls_k ls"] 2(3) assms(2)
      by (auto simp: path_ok_def comp_def)
  qed
qed

end
