(* ===== verification/Go_Rand.thy ===== *)
theory Go_Rand
  imports Sky_Prelude
begin

text \<open>
  The parts of Go's \<^verbatim>\<open>math/rand\<close> and \<^verbatim>\<open>math/rand/v2\<close> that the solvers use. A source of randomness is an oracle: it
  says what the n-th draw gives for each kind of draw. What the package promises of the draws is \<^verbatim>\<open>rand_ok\<close>.
\<close>

section \<open>Definitions\<close>

record rng =
  perm_at :: "nat \<Rightarrow> nat \<Rightarrow> nat list"
  float_at :: "nat \<Rightarrow> real"
  int_at :: "nat \<Rightarrow> nat \<Rightarrow> nat"
  draws :: nat

definition rand_Perm :: "nat \<Rightarrow> rng \<Rightarrow> nat list \<times> rng" where
  "rand_Perm n r = (perm_at r (draws r) n, r\<lparr>draws := Suc (draws r)\<rparr>)"

definition rand_Float64 :: "rng \<Rightarrow> real \<times> rng" where
  "rand_Float64 r = (float_at r (draws r), r\<lparr>draws := Suc (draws r)\<rparr>)"

definition rand_Intn :: "nat \<Rightarrow> rng \<Rightarrow> nat \<times> rng" where
  "rand_Intn n r = (int_at r (draws r) n, r\<lparr>draws := Suc (draws r)\<rparr>)"

definition rand_ok :: "rng \<Rightarrow> bool" where
  "rand_ok r = ((\<forall>k n. distinct (perm_at r k n) \<and> set (perm_at r k n) = {0 ..< n})
     \<and> (\<forall>k. 0 \<le> float_at r k \<and> float_at r k < 1) \<and> (\<forall>k n. 0 < n \<longrightarrow> int_at r k n < n))"

text \<open>The shuffle of Fisher and Yates, from the last position down to the second.\<close>

fun shuffle_from :: "nat \<Rightarrow> 'a list \<Rightarrow> rng \<Rightarrow> 'a list \<times> rng" where
  "shuffle_from 0 xs r = (xs, r)"
| "shuffle_from (Suc j) xs r =
     (let (k, r) = rand_Intn (Suc j + 1) r in shuffle_from j (xs[Suc j := xs ! k, k := xs ! Suc j]) r)"

definition rand_Shuffle :: "'a list \<Rightarrow> rng \<Rightarrow> 'a list \<times> rng" where
  "rand_Shuffle xs r = shuffle_from (length xs - 1) xs r"

definition ex_rng :: rng where
  "ex_rng = \<lparr>perm_at = (\<lambda>_ n. [0 ..< n]), float_at = (\<lambda>_. 0), int_at = (\<lambda>_ _. 0), draws = 0\<rparr>"

section \<open>Lemmas\<close>

lemma rand_Perm_ok:
  assumes "rand_ok r"
  shows "rand_ok (snd (rand_Perm n r))" "set (map ((!) xs) (fst (rand_Perm (length xs) r))) = set xs"
  using assms nth_image [of "length xs" xs] by (simp_all add: rand_Perm_def rand_ok_def)

lemma rand_Float64_ok:
  assumes "rand_ok r"
  shows "rand_ok (snd (rand_Float64 r))" "0 \<le> fst (rand_Float64 r)" "fst (rand_Float64 r) < 1"
  using assms by (auto simp: rand_Float64_def rand_ok_def)

lemma rand_Intn_ok:
  assumes "rand_ok r"
  shows "rand_ok (snd (rand_Intn n r))" "0 < n \<Longrightarrow> fst (rand_Intn n r) < n"
  using assms by (auto simp: rand_Intn_def rand_ok_def)

lemma shuffle_from_ok:
  assumes "rand_ok r" "j < length xs"
  shows "rand_ok (snd (shuffle_from j xs r)) \<and> mset (fst (shuffle_from j xs r)) = mset xs"
  using assms
proof (induction j arbitrary: xs r)
  case (Suc j)
  let ?k = "fst (rand_Intn (Suc j + 1) r)" and ?r = "snd (rand_Intn (Suc j + 1) r)"
  have k: "?k < length xs" "rand_ok ?r" using rand_Intn_ok [OF Suc.prems(1), of "Suc j + 1"] Suc.prems(2) by linarith+
  have eq: "shuffle_from (Suc j) xs r = shuffle_from j (xs[Suc j := xs ! ?k, ?k := xs ! Suc j]) ?r"
    by (simp add: Let_def case_prod_unfold)
  show ?case unfolding eq using Suc.IH [OF k(2)] Suc.prems(2) k(1) by (simp add: mset_swap)
qed simp

lemma rand_Shuffle_ok:
  assumes "rand_ok r"
  shows "rand_ok (snd (rand_Shuffle xs r))" "mset (fst (rand_Shuffle xs r)) = mset xs" "set (fst (rand_Shuffle xs r)) = set xs"
proof -
  have a: "rand_ok (snd (rand_Shuffle xs r)) \<and> mset (fst (rand_Shuffle xs r)) = mset xs"
  proof (cases xs)
    case Nil
    then show ?thesis using assms by (simp add: rand_Shuffle_def)
  next
    case (Cons y ys)
    then show ?thesis using shuffle_from_ok [OF assms, of "length xs - 1" xs] by (simp add: rand_Shuffle_def)
  qed
  then show "rand_ok (snd (rand_Shuffle xs r))" "mset (fst (rand_Shuffle xs r)) = mset xs" by simp_all
  then show "set (fst (rand_Shuffle xs r)) = set xs" by (metis set_mset_mset)
qed

lemma ex_rng_ok: "rand_ok ex_rng"
  by (simp add: rand_ok_def ex_rng_def)

end
