(* ===== verification/One_Wan.thy ===== *)
theory One_Wan
  imports Yen_Paths Go_Rand
begin

text \<open>
  \<^verbatim>\<open>src/control-plane/routing/core-domain/onewan-multi.go\<close>: candidate paths to several destinations by a randomised
  depth-first search, and the choice among them by sampling. Random draws come from the oracle of \<^verbatim>\<open>Go_Rand\<close>. The recursion of the search is on the levels left below the depth limit.
\<close>

section \<open>Definitions\<close>

definition ow_maxHops :: nat where "ow_maxHops = 30"

record ONEWANSolver =
  ow_edges :: "Edge list"
  ow_alpha :: real
  ow_maxPaths :: int

definition NewONEWANSolver :: "Edge list \<Rightarrow> int \<Rightarrow> ONEWANSolver" where
  "NewONEWANSolver es maxPaths = \<lparr>ow_edges = es, ow_alpha = 1, ow_maxPaths = maxPaths\<rparr>"

record destCandidates =
  dc_end :: string
  dc_paths :: "PathInfo list"
  dc_probs :: "real list"

subsection \<open>The randomised search\<close>

record dfs_state =
  d_visited :: "(string, bool) gomap"
  d_hops :: "string list"
  d_total :: real
  d_rng :: rng

definition dfs_enter :: "string \<Rightarrow> dfs_state \<Rightarrow> dfs_state" where
  "dfs_enter n st = st\<lparr>d_visited := gm_set (d_visited st) n True, d_hops := d_hops st @ [n]\<rparr>"

definition dfs_leave :: "string \<Rightarrow> dfs_state \<Rightarrow> dfs_state" where
  "dfs_leave n st = st\<lparr>d_hops := butlast (d_hops st), d_visited := gm_del (d_visited st) n\<rparr>"

text \<open>The loop over the shuffled edges of a node; the recursive call is its first argument.\<close>

fun dfs_loop :: "(string \<Rightarrow> dfs_state \<Rightarrow> bool \<times> dfs_state) \<Rightarrow> Edge list \<Rightarrow> dfs_state \<Rightarrow> bool \<times> dfs_state" where
  "dfs_loop dfs [] st = (False, st)"
| "dfs_loop dfs (e # es) st =
     (if \<not> flag (d_visited st) (DestinationIp e)
      then let (found, st') = dfs (DestinationIp e) st in
           if found then (True, st'\<lparr>d_total := d_total st' + Latency e\<rparr>) else dfs_loop dfs es st'
      else dfs_loop dfs es st)"

primrec dfs :: "nat \<Rightarrow> string \<Rightarrow> graph \<Rightarrow> string \<Rightarrow> dfs_state \<Rightarrow> bool \<times> dfs_state" where
  "dfs 0 t g n st = (False, st)"
| "dfs (Suc left) t g n st =
     (let st = dfs_enter n st in
      if n = t then (True, st)
      else let neighbors = gm_list g n in
           if length neighbors = 0 then (False, dfs_leave n st)
           else let (indices, r) = rand_Perm (length neighbors) (d_rng st);
                    (found, st) = dfs_loop (dfs left t g) (map (\<lambda>i. neighbors ! i) indices) (st\<lparr>d_rng := r\<rparr>)
                in if found then (True, st) else (False, dfs_leave n st))"

definition dfsRandomPath :: "string \<Rightarrow> string \<Rightarrow> graph \<Rightarrow> nat \<Rightarrow> rng \<Rightarrow> Path option \<times> rng" where
  "dfsRandomPath s t g maxHops r =
     (let (found, st) = dfs (Suc maxHops) t g s \<lparr>d_visited = [], d_hops = [], d_total = 0, d_rng = r\<rparr>
      in (if found then Some \<lparr>p_hops = d_hops st, p_cost = d_total st, p_rawRTT = d_total st\<rparr> else None, d_rng st))"

fun dfs_attempts :: "nat \<Rightarrow> string \<Rightarrow> string \<Rightarrow> graph \<Rightarrow> int \<Rightarrow> (string, bool) gomap \<Rightarrow> Path list \<Rightarrow> rng \<Rightarrow> Path list \<times> rng" where
  "dfs_attempts 0 s t g maxPaths usedPaths paths r = (paths, r)"
| "dfs_attempts (Suc n) s t g maxPaths usedPaths paths r =
     (if int (length paths) < maxPaths
      then let (path, r) = dfsRandomPath s t g 15 r in
           (case path of
              Some p \<Rightarrow>
                if \<not> flag usedPaths (path_str (p_hops p))
                then dfs_attempts n s t g maxPaths (gm_set usedPaths (path_str (p_hops p)) True) (paths @ [p]) r
                else dfs_attempts n s t g maxPaths usedPaths paths r
            | None \<Rightarrow> dfs_attempts n s t g maxPaths usedPaths paths r)
      else (paths, r))"

definition randomDFSPaths :: "string \<Rightarrow> string \<Rightarrow> graph \<Rightarrow> int \<Rightarrow> rng \<Rightarrow> Path list \<times> rng" where
  "randomDFSPaths s t g maxPaths r =
     (let (paths, r) = dfs_attempts 100 s t g maxPaths [] [] r in (exchange_sort p_cost paths, r))"

subsection \<open>Candidates\<close>

definition deduplicateHops :: "string list \<Rightarrow> string list" where
  "deduplicateHops hs = (if length hs \<le> 1 then hs else hd hs # dedup_from (hd hs) (tl hs))"

definition filterPathsByHops :: "PathInfo list \<Rightarrow> nat \<Rightarrow> PathInfo list" where
  "filterPathsByHops paths maxHops = filter (\<lambda>p. int (length (Hops p)) - 1 \<le> int maxHops) paths"

definition path_infos :: "Path list \<Rightarrow> PathInfo list" where
  "path_infos paths = List.map_filter (\<lambda>p. let cleanHops = deduplicateHops (p_hops p) in
     if int (length cleanHops) - 1 > int ow_maxHops then None
     else Some \<lparr>Hops = cleanHops, Rtt = p_cost p, RawRTT = p_rawRTT p\<rparr>) paths"

fun candidates_for :: "ONEWANSolver \<Rightarrow> string \<Rightarrow> string list \<Rightarrow> string list \<Rightarrow> graph \<Rightarrow> rng \<Rightarrow> destCandidates list \<times> rng" where
  "candidates_for os s [] nodes g r = ([], r)"
| "candidates_for os s (t # ts) nodes g r =
     (if t \<notin> set nodes then candidates_for os s ts nodes g r
      else let (paths, r) = randomDFSPaths s t g (ow_maxPaths os) r in
           if length paths = 0 then candidates_for os s ts nodes g r
           else let pathInfos = filterPathsByHops (path_infos paths) ow_maxHops in
                if length pathInfos = 0 then candidates_for os s ts nodes g r
                else let pathInfos = (if int (length pathInfos) > ow_maxPaths os then take (nat (ow_maxPaths os)) pathInfos else pathInfos);
                         (dcs, r) = candidates_for os s ts nodes g r
                     in (\<lparr>dc_end = t, dc_paths = pathInfos, dc_probs = []\<rparr> # dcs, r))"

definition generateCandidatePaths :: "ONEWANSolver \<Rightarrow> string \<Rightarrow> string list \<Rightarrow> string list \<Rightarrow> graph \<Rightarrow> rng \<Rightarrow> destCandidates list result \<times> rng" where
  "generateCandidatePaths os s ts nodes g r =
     (let (allCandidates, r) = candidates_for os s ts nodes g r
      in (if length allCandidates = 0 then Inl (GoError ''no paths found'') else Inr allCandidates, r))"

subsection \<open>Sampling\<close>

definition set_probs :: "destCandidates \<Rightarrow> destCandidates" where
  "set_probs dc =
     (if length (dc_paths dc) = 0 then dc
      else let total = sum_list (map (\<lambda>p. if RawRTT p > 0 then 1 / RawRTT p else 0) (dc_paths dc))
           in dc\<lparr>dc_probs := map (\<lambda>p. if RawRTT p > 0 \<and> total > 0 then (1 / RawRTT p) / total
                                      else 1 / real (length (dc_paths dc))) (dc_paths dc)\<rparr>)"

definition edgeLoadMap :: "Edge list \<Rightarrow> (string, real) gomap" where
  "edgeLoadMap es = foldl (\<lambda>m e. gm_set m (edge_key (SourceIp e) (DestinationIp e)) (Load e)) [] es"

definition gm_real :: "(string, real) gomap \<Rightarrow> string \<Rightarrow> real" where
  "gm_real m k = (case gm_get m k of Some x \<Rightarrow> x | None \<Rightarrow> 0)"

definition total_prob :: "nat list \<Rightarrow> real list \<Rightarrow> real" where
  "total_prob sel probs = sum_list (map (\<lambda>i. if i \<notin> set sel then probs ! i else 0) [0 ..< length probs])"

fun pick_index :: "nat list \<Rightarrow> real \<Rightarrow> real \<Rightarrow> nat \<Rightarrow> real list \<Rightarrow> nat" where
  "pick_index sel r cumulative i [] = 0"
| "pick_index sel r cumulative i (prob # probs) =
     (if i \<in> set sel then pick_index sel r cumulative (Suc i) probs
      else if r \<le> cumulative + prob then i
      else pick_index sel r (cumulative + prob) (Suc i) probs)"

definition hop_keys :: "string list \<Rightarrow> string list" where
  "hop_keys hops = map (\<lambda>i. edge_key (hops ! i) (hops ! (i + 1))) [0 ..< length hops - 1]"

definition add_usage :: "(string, real) gomap \<Rightarrow> string list \<Rightarrow> (string, real) gomap" where
  "add_usage m hops = foldl (\<lambda>m k. gm_set m k (gm_real m k + 1)) m (hop_keys hops)"

record selection =
  sel_paths :: "PathInfo list"
  sel_usage :: "(string, real) gomap"
  sel_rng :: rng

fun select_loop :: "nat \<Rightarrow> nat list \<Rightarrow> destCandidates \<Rightarrow> selection \<Rightarrow> selection" where
  "select_loop 0 sel dc st = st"
| "select_loop (Suc n) sel dc st =
     (let (x, r) = rand_Float64 (sel_rng st);
          i = pick_index sel (x * total_prob sel (dc_probs dc)) 0 0 (dc_probs dc);
          p = dc_paths dc ! i
      in select_loop n (i # sel) dc
           (st\<lparr>sel_paths := sel_paths st @ [p], sel_usage := add_usage (sel_usage st) (Hops p), sel_rng := r\<rparr>))"

definition select_dest :: "selection \<Rightarrow> destCandidates \<Rightarrow> selection" where
  "select_dest st dc =
     (let pathsPerDest = 2 in
      if length (dc_paths dc) = 0 then st else select_loop (min pathsPerDest (length (dc_paths dc))) [] dc st)"

text \<open>The score of a selection: latencies, and for every edge used a penalty quadratic in its use.\<close>

definition score_edge :: "(string, real) gomap \<Rightarrow> (string, real) gomap \<Rightarrow> real \<times> string list \<Rightarrow> string \<Rightarrow> real \<times> string list" where
  "score_edge usage loads sp k =
     (let (score, processed) = sp; loadWeight = 5 in
      if k \<notin> set processed
      then (score + gm_real usage k * gm_real usage k * max (gm_real loads k) 1 * loadWeight, k # processed)
      else (score, processed))"

definition score_path :: "(string, real) gomap \<Rightarrow> (string, real) gomap \<Rightarrow> real \<times> string list \<Rightarrow> PathInfo \<Rightarrow> real \<times> string list" where
  "score_path usage loads sp p = foldl (score_edge usage loads) (fst sp + RawRTT p, snd sp) (hop_keys (Hops p))"

definition score_selection :: "(string, real) gomap \<Rightarrow> selection \<Rightarrow> real" where
  "score_selection loads st = fst (foldl (score_path (sel_usage st) loads) (0, []) (sel_paths st))"

fun sample_loop :: "nat \<Rightarrow> destCandidates list \<Rightarrow> (string, real) gomap \<Rightarrow> rng \<Rightarrow> (PathInfo list \<times> real) list \<times> rng" where
  "sample_loop 0 dcs loads r = ([], r)"
| "sample_loop (Suc n) dcs loads r =
     (let st = foldl select_dest \<lparr>sel_paths = [], sel_usage = [], sel_rng = r\<rparr> dcs;
          (sols, r') = sample_loop n dcs loads (sel_rng st)
      in ((sel_paths st, score_selection loads st) # sols, r'))"

definition better :: "PathInfo list \<times> real \<Rightarrow> PathInfo list \<times> real \<Rightarrow> PathInfo list \<times> real" where
  "better best sol = (if snd sol < snd best then sol else best)"

definition beamSearchSelection :: "ONEWANSolver \<Rightarrow> destCandidates list \<Rightarrow> rng \<Rightarrow> PathInfo list \<times> rng" where
  "beamSearchSelection os allCandidates r =
     (let numIterations = 100;
          (allSolutions, r') = sample_loop numIterations (map set_probs allCandidates) (edgeLoadMap (ow_edges os)) r;
          bestSolution = foldl better (hd allSolutions) (tl allSolutions)
      in (fst bestSolution, r'))"

definition OW_ComputingMulti :: "ONEWANSolver \<Rightarrow> string \<Rightarrow> string list \<Rightarrow> rng \<Rightarrow> PathInfo list result \<times> rng" where
  "OW_ComputingMulti os s ts r =
     (let g = build_graph (ow_edges os); nodes = graph_nodes (ow_edges os) in
      if s \<notin> set nodes then (Inl (GoError ''start node not found''), r)
      else case generateCandidatePaths os s ts nodes g r of
             (Inl f, r) \<Rightarrow> (Inl f, r)
           | (Inr allCandidates, r) \<Rightarrow> (let (ps, r) = beamSearchSelection os allCandidates r in (Inr ps, r)))"

text \<open>A simple path from \<^term>\<open>u\<close> to \<^term>\<open>t\<close> of at most \<^term>\<open>n\<close> nodes that avoids the nodes \<^term>\<open>V\<close>.\<close>

definition spath :: "graph \<Rightarrow> string set \<Rightarrow> nat \<Rightarrow> string \<Rightarrow> string \<Rightarrow> string list \<Rightarrow> bool" where
  "spath g V n u t p = (walk g [] p \<and> hd p = u \<and> last p = t \<and> distinct p \<and> set p \<inter> V = {} \<and> length p \<le> n)"

definition vis_ok :: "dfs_state \<Rightarrow> bool" where
  "vis_ok st = (gm_ok (d_visited st) \<and> (\<forall>(k, b) \<in> set (d_visited st). b) \<and> rand_ok (d_rng st))"

abbreviation vis :: "dfs_state \<Rightarrow> string set" where
  "vis st \<equiv> fst ` set (d_visited st)"

text \<open>No two edges of a node lead to the same node.\<close>

definition no_parallel :: "graph \<Rightarrow> bool" where
  "no_parallel g = (\<forall>u. distinct (map DestinationIp (gm_list g u)))"

text \<open>What a search below \<^term>\<open>u\<close> delivers: a path it has appended, or the state it began in and no path.\<close>

definition dfs_post :: "graph \<Rightarrow> string \<Rightarrow> nat \<Rightarrow> string \<Rightarrow> dfs_state \<Rightarrow> bool \<times> dfs_state \<Rightarrow> bool" where
  "dfs_post g t n u st res = (rand_ok (d_rng (snd res))
     \<and> (if fst res
        then \<exists>p. spath g (vis st) n u t p \<and> d_hops (snd res) = d_hops st @ p
               \<and> d_total (snd res) = d_total st + calculatePathRTT p g
        else snd res = st\<lparr>d_rng := d_rng (snd res)\<rparr> \<and> (\<forall>p. \<not> spath g (vis st) n u t p)))"

text \<open>A path the search may return, as the search and as the solver represent it.\<close>

definition ow_path :: "graph \<Rightarrow> string \<Rightarrow> string \<Rightarrow> Path \<Rightarrow> bool" where
  "ow_path g s t p = (spath g {} 16 s t (p_hops p) \<and> p_rawRTT p = calculatePathRTT (p_hops p) g)"

definition info_path :: "graph \<Rightarrow> string \<Rightarrow> string \<Rightarrow> PathInfo \<Rightarrow> bool" where
  "info_path g s t p = (spath g {} 16 s t (Hops p) \<and> RawRTT p = calculatePathRTT (Hops p) g)"

definition near :: "graph \<Rightarrow> string \<Rightarrow> string \<Rightarrow> bool" where
  "near g s t = (\<exists>p. spath g {} 16 s t p)"

definition dc_ok :: "graph \<Rightarrow> string \<Rightarrow> destCandidates \<Rightarrow> bool" where
  "dc_ok g s dc = (dc_paths dc \<noteq> [] \<and> distinct (map Hops (dc_paths dc)) \<and> (\<forall>p \<in> set (dc_paths dc). info_path g s (dc_end dc) p))"

text \<open>A choice of at most two of the candidates of a destination.\<close>

definition chosen :: "destCandidates \<Rightarrow> PathInfo list \<Rightarrow> bool" where
  "chosen dc qs = (\<exists>js. distinct js \<and> set js \<subseteq> {..< length (dc_paths dc)} \<and> length js = min 2 (length (dc_paths dc))
     \<and> qs = map ((!) (dc_paths dc)) js)"

text \<open>The probability left from an index on, for the candidates not chosen yet.\<close>

definition rest_prob :: "nat list \<Rightarrow> nat \<Rightarrow> real list \<Rightarrow> real" where
  "rest_prob sel i probs = sum_list (map (\<lambda>j. if i + j \<notin> set sel then probs ! j else 0) [0 ..< length probs])"

section \<open>Lemmas: the search\<close>

lemma flag_vis:
  assumes "vis_ok st"
  shows "flag (d_visited st) n \<longleftrightarrow> n \<in> vis st"
proof (cases "gm_get (d_visited st) n")
  case None
  then have "n \<notin> vis st" by (simp add: map_of_eq_None_iff)
  then show ?thesis using None by (simp add: flag_def)
next
  case (Some b)
  then have "(n, b) \<in> set (d_visited st)" by (rule map_of_SomeD)
  then show ?thesis using assms Some by (force simp: flag_def vis_ok_def)
qed

lemma spath_Cons:
  "spath g V (Suc n) u t (u # v # p) \<longleftrightarrow>
     (\<exists>e \<in> set (gm_list g u). DestinationIp e = v) \<and> u \<notin> V \<and> spath g (insert u V) n v t (v # p)"
  by (auto simp: spath_def)

lemma spath_avoids: "spath g V n u t p \<Longrightarrow> u \<notin> V"
  by (cases p) (auto simp: spath_def)

lemma latency_Cons:
  assumes "no_parallel g" "e \<in> set (gm_list g u)" "DestinationIp e = v"
  shows "calculatePathRTT (u # v # p) g = Latency e + calculatePathRTT (v # p) g"
proof -
  have "find (\<lambda>e. DestinationIp e = v) es = Some e" if "distinct (map DestinationIp es)" "e \<in> set es" for es
    using that assms(3) by (induction es) auto
  then have "first_edge g u v = Some e" using assms(1, 2) by (auto simp: first_edge_def no_parallel_def)
  then show ?thesis by simp
qed

lemma dfs_loop_correct:
  assumes IH: "\<And>u st. vis_ok st \<Longrightarrow> u \<notin> vis st \<Longrightarrow> dfs_post g t n u st (rec u st)" and ok: "vis_ok st"
  shows "rand_ok (d_rng (snd (dfs_loop rec es st)))
    \<and> (if fst (dfs_loop rec es st)
       then \<exists>e \<in> set es. \<exists>p. spath g (vis st) n (DestinationIp e) t p \<and> d_hops (snd (dfs_loop rec es st)) = d_hops st @ p
              \<and> d_total (snd (dfs_loop rec es st)) = d_total st + calculatePathRTT p g + Latency e
       else snd (dfs_loop rec es st) = st\<lparr>d_rng := d_rng (snd (dfs_loop rec es st))\<rparr>
              \<and> (\<forall>e \<in> set es. \<forall>p. \<not> spath g (vis st) n (DestinationIp e) t p))"
  using ok
proof (induction es arbitrary: st)
  case Nil
  then show ?case by (simp add: vis_ok_def)
next
  case (Cons e es)
  show ?case
  proof (cases "DestinationIp e \<in> vis st")
    case True
    then have "\<not> spath g (vis st) n (DestinationIp e) t p" for p using spath_avoids by blast
    then show ?thesis using Cons True by (simp add: flag_vis)
  next
    case False
    obtain b st' where r: "rec (DestinationIp e) st = (b, st')" by fastforce
    have post: "dfs_post g t n (DestinationIp e) st (b, st')" using IH [OF Cons.prems False] by (simp add: r)
    show ?thesis
    proof (cases b)
      case True
      then show ?thesis using post False Cons.prems r by (auto simp: flag_vis dfs_post_def)
    next
      case b: False
      then have s: "st' = st\<lparr>d_rng := d_rng st'\<rparr>" "rand_ok (d_rng st')" "\<And>p. \<not> spath g (vis st) n (DestinationIp e) t p"
        using post by (auto simp: dfs_post_def)
      have v: "d_visited st' = d_visited st" "d_hops st' = d_hops st" "d_total st' = d_total st" by (subst s(1); simp)+
      have "vis_ok st'" using Cons.prems s(2) by (simp add: vis_ok_def v)
      have upd: "st'\<lparr>d_rng := x\<rparr> = st\<lparr>d_rng := x\<rparr>" for x by (subst s(1); simp)
      note IH' = Cons.IH [OF \<open>vis_ok st'\<close>, unfolded v upd]
      have eq: "dfs_loop rec (e # es) st = dfs_loop rec es st'" using b False Cons.prems r by (simp add: flag_vis)
      show ?thesis unfolding eq list.set using IH' s(3)
        by (cases "fst (dfs_loop rec es st')") (simp_all only: if_True if_False simp_thms, blast+)
    qed
  qed
qed

lemma enter_leave:
  assumes "vis_ok st" "n \<notin> vis st"
  shows "vis_ok (dfs_enter n st\<lparr>d_rng := r\<rparr>) = rand_ok r" "vis (dfs_enter n st) = insert n (vis st)"
    "dfs_leave n (dfs_enter n st\<lparr>d_rng := r\<rparr>) = st\<lparr>d_rng := r\<rparr>"
proof -
  have u: "gm_set (d_visited st) n True = d_visited st @ [(n, True)]" by (rule gm_set_new [OF assms(2)])
  show "vis_ok (dfs_enter n st\<lparr>d_rng := r\<rparr>) = rand_ok r" using assms by (auto simp: vis_ok_def dfs_enter_def u)
  show "vis (dfs_enter n st) = insert n (vis st)" by (simp add: dfs_enter_def u)
  have "gm_del (d_visited st @ [(n, True)]) n = d_visited st" using assms(2)
    by (force simp: AList.delete_eq filter_id_conv)
  then show "dfs_leave n (dfs_enter n st\<lparr>d_rng := r\<rparr>) = st\<lparr>d_rng := r\<rparr>" by (simp add: dfs_leave_def dfs_enter_def u)
qed

lemma spath_step:
  assumes "e \<in> set (gm_list g u)" "u \<notin> V" "spath g (insert u V) n (DestinationIp e) t p"
  shows "spath g V (Suc n) u t (u # p)"
proof -
  obtain q where "p = DestinationIp e # q" using assms(3) by (cases p) (auto simp: spath_def)
  then show ?thesis using assms spath_Cons by blast
qed

lemma spath_first:
  assumes "spath g V (Suc n) u t p" "u \<noteq> t"
  obtains e q where "e \<in> set (gm_list g u)" "spath g (insert u V) n (DestinationIp e) t q"
proof -
  obtain v q where p: "p = u # v # q" using assms by (cases p; cases "tl p") (auto simp: spath_def)
  show ?thesis using that assms(1) unfolding p spath_Cons by blast
qed

lemma dfs_correct:
  assumes np: "no_parallel g"
  shows "vis_ok st \<Longrightarrow> u \<notin> vis st \<Longrightarrow> dfs_post g t n u st (dfs n t g u st)"
proof (induction n arbitrary: u st)
  case 0
  then show ?case by (auto simp: dfs_post_def vis_ok_def spath_def)
next
  case (Suc n)
  let ?st = "dfs_enter u st" and ?ns = "gm_list g u"
  have rok: "rand_ok (d_rng st)" using Suc.prems(1) by (simp add: vis_ok_def)
  have self: "?st\<lparr>d_rng := d_rng st\<rparr> = ?st" by (simp add: dfs_enter_def)
  consider "u = t" | "u \<noteq> t" "?ns = []" | "u \<noteq> t" "?ns \<noteq> []" by blast
  then show ?case
  proof cases
    case 1
    then show ?thesis using rok Suc.prems(2)
      by (auto simp: dfs_post_def dfs_enter_def spath_def intro!: exI [of _ "[t]"])
  next
    case 2
    have "\<not> spath g (vis st) (Suc n) u t p" for p using 2 spath_first by (metis empty_iff list.set(1))
    then show ?thesis using 2 rok enter_leave(3) [OF Suc.prems, of "d_rng st"] by (simp add: dfs_post_def self)
  next
    case 3
    let ?idx = "fst (rand_Perm (length ?ns) (d_rng ?st))" and ?r = "snd (rand_Perm (length ?ns) (d_rng ?st))"
    let ?es = "map (\<lambda>i. ?ns ! i) ?idx" and ?st2 = "?st\<lparr>d_rng := ?r\<rparr>"
    have rr: "rand_ok ?r" "set ?es = set ?ns" using rand_Perm_ok [OF rok] by (simp_all add: dfs_enter_def)
    have v2: "vis_ok ?st2" "vis ?st2 = insert u (vis st)" "d_hops ?st2 = d_hops st @ [u]" "d_total ?st2 = d_total st"
      using enter_leave [OF Suc.prems] rr(1) by (simp_all add: dfs_enter_def)
    obtain b st' where l: "dfs_loop (dfs n t g) ?es ?st2 = (b, st')" by fastforce
    note loop = dfs_loop_correct [OF Suc.IH v2(1), of ?es, unfolded l rr(2) fst_conv snd_conv v2(2-4)]
    have d: "dfs (Suc n) t g u st = (if b then (True, st') else (False, dfs_leave u st'))"
      using 3 l by (simp add: Let_def case_prod_unfold)
    show ?thesis
    proof (cases b)
      case True
      then obtain e p where e: "e \<in> set ?ns" and p: "spath g (insert u (vis st)) n (DestinationIp e) t p"
        and h: "d_hops st' = (d_hops st @ [u]) @ p" "d_total st' = d_total st + calculatePathRTT p g + Latency e"
        and r: "rand_ok (d_rng st')" using loop by (simp only: if_True) blast
      obtain q where q: "p = DestinationIp e # q" using p by (cases p) (auto simp: spath_def)
      have "spath g (vis st) (Suc n) u t (u # p)" by (rule spath_step [OF e Suc.prems(2) p])
      then show ?thesis unfolding d dfs_post_def using True h r latency_Cons [OF np e refl, of q]
        by (auto simp: q intro!: exI [of _ "u # p"])
    next
      case False
      then have r: "rand_ok (d_rng st')" "st' = ?st2\<lparr>d_rng := d_rng st'\<rparr>" and no: "\<And>e p. e \<in> set ?ns \<Longrightarrow> \<not> spath g (insert u (vis st)) n (DestinationIp e) t p"
        using loop by (simp_all only: if_False) blast+
      have "dfs_leave u st' = dfs_leave u (?st\<lparr>d_rng := d_rng st'\<rparr>)" by (subst r(2)) simp
      then have lv: "dfs_leave u st' = st\<lparr>d_rng := d_rng st'\<rparr>" using enter_leave(3) [OF Suc.prems] by simp
      have "\<not> spath g (vis st) (Suc n) u t p" for p using 3(1) no spath_first by metis
      then show ?thesis unfolding d dfs_post_def using False r(1) by (simp add: lv)
    qed
  qed
qed

lemma dfsRandomPath_correct:
  assumes "no_parallel g" "rand_ok r"
  shows "rand_ok (snd (dfsRandomPath s t g m r))"
    "case fst (dfsRandomPath s t g m r) of
       Some p \<Rightarrow> spath g {} (Suc m) s t (p_hops p) \<and> p_cost p = calculatePathRTT (p_hops p) g \<and> p_rawRTT p = p_cost p
     | None \<Rightarrow> \<forall>p. \<not> spath g {} (Suc m) s t p"
proof -
  let ?st = "\<lparr>d_visited = [], d_hops = [], d_total = 0, d_rng = r\<rparr>"
  have "dfs_post g t (Suc m) s ?st (dfs (Suc m) t g s ?st)"
    by (rule dfs_correct [OF assms(1)]) (simp_all add: vis_ok_def assms(2))
  then show "rand_ok (snd (dfsRandomPath s t g m r))"
    "case fst (dfsRandomPath s t g m r) of
       Some p \<Rightarrow> spath g {} (Suc m) s t (p_hops p) \<and> p_cost p = calculatePathRTT (p_hops p) g \<and> p_rawRTT p = p_cost p
     | None \<Rightarrow> \<forall>p. \<not> spath g {} (Suc m) s t p"
    by (auto simp: dfs_post_def dfsRandomPath_def case_prod_unfold Let_def simp del: dfs.simps split: if_splits)
qed

lemma dfs_attempts_correct:
  fixes n :: nat and m :: int
  assumes "no_parallel g" "rand_ok r" "\<forall>p \<in> set ps. ow_path g s t p" "\<forall>x. flag used x \<longleftrightarrow> x \<in> (path_str \<circ> p_hops) ` set ps" "distinct (map p_hops ps)"
  defines "res \<equiv> dfs_attempts n s t g m used ps r"
  shows "rand_ok (snd res) \<and> (\<forall>p \<in> set (fst res). ow_path g s t p) \<and> distinct (map p_hops (fst res)) \<and> set ps \<subseteq> set (fst res)
    \<and> (0 < n \<longrightarrow> 0 < m \<longrightarrow> near g s t \<longrightarrow> fst res \<noteq> [])"
  using assms(2-5) unfolding res_def
proof (induction n arbitrary: used ps r)
  case (Suc n)
  obtain po r' where d: "dfsRandomPath s t g 15 r = (po, r')" by fastforce
  have c: "rand_ok r'" "case po of Some p \<Rightarrow> ow_path g s t p | None \<Rightarrow> \<not> near g s t"
    using dfsRandomPath_correct [OF assms(1) Suc.prems(1), where s = s and t = t and m = 15]
    by (auto simp: d ow_path_def near_def split: option.splits)
  show ?case
  proof (cases "int (length ps) < m")
    case False
    then show ?thesis using Suc.prems by auto
  next
    case m: True
    consider "po = None" | p where "po = Some p" "flag used (path_str (p_hops p))" | p where "po = Some p" "\<not> flag used (path_str (p_hops p))"
      by (cases po) auto
    then show ?thesis
    proof cases
      case 1
      then show ?thesis using Suc.IH [OF c(1) Suc.prems(2-4)] c(2) d m by simp
    next
      case 2
      have "ps \<noteq> []" using 2(2) Suc.prems(3) by auto
      then show ?thesis using Suc.IH [OF c(1) Suc.prems(2-4)] 2 d m by auto
    next
      case 3
      let ?u = "gm_set used (path_str (p_hops p)) True"
      have a: "\<forall>q \<in> set (ps @ [p]). ow_path g s t q" using Suc.prems(2) c(2) 3 by auto
      have b: "\<forall>x. flag ?u x \<longleftrightarrow> x \<in> (path_str \<circ> p_hops) ` set (ps @ [p])" using Suc.prems(3) by auto
      have e: "distinct (map p_hops (ps @ [p]))" using Suc.prems(3, 4) 3 by force
      have eq: "dfs_attempts (Suc n) s t g m used ps r = dfs_attempts n s t g m ?u (ps @ [p]) r'" using 3 d m by simp
      show ?thesis unfolding eq using Suc.IH [OF c(1) a b e] by auto
    qed
  qed
qed simp

lemma randomDFSPaths_correct:
  assumes "no_parallel g" "rand_ok r"
  shows "rand_ok (snd (randomDFSPaths s t g m r))" "\<forall>p \<in> set (fst (randomDFSPaths s t g m r)). ow_path g s t p"
    "distinct (map p_hops (fst (randomDFSPaths s t g m r)))" "0 < m \<Longrightarrow> fst (randomDFSPaths s t g m r) = [] \<longleftrightarrow> \<not> near g s t"
proof -
  let ?d = "dfs_attempts 100 s t g m [] [] r"
  have c: "rand_ok (snd ?d) \<and> (\<forall>p \<in> set (fst ?d). ow_path g s t p) \<and> distinct (map p_hops (fst ?d)) \<and> (0 < m \<longrightarrow> near g s t \<longrightarrow> fst ?d \<noteq> [])"
    using dfs_attempts_correct [OF assms, of "[]" s t "[]" 100 m] by simp
  have eq: "randomDFSPaths s t g m r = (exchange_sort p_cost (fst ?d), snd ?d)" by (simp add: randomDFSPaths_def case_prod_unfold Let_def)
  have ms: "mset (exchange_sort p_cost (fst ?d)) = mset (fst ?d)" by simp
  show "rand_ok (snd (randomDFSPaths s t g m r))" "\<forall>p \<in> set (fst (randomDFSPaths s t g m r)). ow_path g s t p"
    using c unfolding eq by simp_all
  have "mset (map p_hops (exchange_sort p_cost (fst ?d))) = mset (map p_hops (fst ?d))" by (simp only: mset_map ms)
  then show "distinct (map p_hops (fst (randomDFSPaths s t g m r)))" using c unfolding eq by (metis fst_conv mset_eq_imp_distinct_iff)
  assume "0 < m"
  moreover have "near g s t" if "p \<in> set (fst ?d)" for p using c that by (auto simp: ow_path_def near_def)
  then have "fst ?d \<noteq> [] \<Longrightarrow> near g s t" by (cases "fst ?d") auto
  moreover have "exchange_sort p_cost (fst ?d) = [] \<longleftrightarrow> fst ?d = []" using ms by (metis mset_zero_iff)
  ultimately show "fst (randomDFSPaths s t g m r) = [] \<longleftrightarrow> \<not> near g s t" using c unfolding eq by auto
qed

section \<open>Lemmas: candidates and sampling\<close>

lemma path_infos_eq:
  assumes "\<forall>p \<in> set ps. ow_path g s t p"
  shows "filterPathsByHops (path_infos ps) ow_maxHops = map (\<lambda>p. \<lparr>Hops = p_hops p, Rtt = p_cost p, RawRTT = p_rawRTT p\<rparr>) ps"
  using assms
proof (induction ps)
  case (Cons p ps)
  have "deduplicateHops (p_hops p) = p_hops p" "length (p_hops p) \<le> 16"
    using Cons.prems removeConsecutiveDuplicates_id [of "p_hops p"]
    by (simp_all add: ow_path_def spath_def deduplicateHops_def removeConsecutiveDuplicates_def)
  then show ?case using Cons by (simp add: path_infos_def filterPathsByHops_def map_filter_simps ow_maxHops_def)
qed (simp add: path_infos_def filterPathsByHops_def map_filter_simps)

lemma candidates_for_correct:
  assumes np: "no_parallel g" and m: "0 < ow_maxPaths os"
  shows "rand_ok r \<Longrightarrow> rand_ok (snd (candidates_for os s ts nodes g r))
    \<and> map dc_end (fst (candidates_for os s ts nodes g r)) = filter (\<lambda>t. t \<in> set nodes \<and> near g s t) ts
    \<and> (\<forall>dc \<in> set (fst (candidates_for os s ts nodes g r)). dc_ok g s dc)"
proof (induction ts arbitrary: r)
  case (Cons t ts)
  show ?case
  proof (cases "t \<in> set nodes")
    case True
    obtain ps r' where d: "randomDFSPaths s t g (ow_maxPaths os) r = (ps, r')" by fastforce
    note c = randomDFSPaths_correct [OF np Cons.prems, where s = s and t = t and m = "ow_maxPaths os", unfolded d fst_conv snd_conv]
    let ?is = "map (\<lambda>p. \<lparr>Hops = p_hops p, Rtt = p_cost p, RawRTT = p_rawRTT p\<rparr>) ps"
    show ?thesis
    proof (cases "ps = []")
      case True
      then show ?thesis using Cons.IH [OF c(1)] c(4) [OF m] \<open>t \<in> set nodes\<close> d by simp
    next
      case ne: False
      define k where "k = (if int (length ?is) > ow_maxPaths os then nat (ow_maxPaths os) else length ?is)"
      have k: "0 < k" "(if int (length ?is) > ow_maxPaths os then take (nat (ow_maxPaths os)) ?is else ?is) = take k ?is"
        using m ne by (simp_all add: k_def)
      let ?dc = "\<lparr>dc_end = t, dc_paths = take k ?is, dc_probs = []\<rparr>"
      have "info_path g s t q" if "q \<in> set (take k ?is)" for q
        using in_set_takeD [OF that] c(2) by (auto simp: info_path_def ow_path_def)
      then have "dc_ok g s ?dc" using ne k(1) c(3) by (simp add: dc_ok_def comp_def take_map [symmetric])
      moreover have "candidates_for os s (t # ts) nodes g r = (?dc # fst (candidates_for os s ts nodes g r'), snd (candidates_for os s ts nodes g r'))"
        using \<open>t \<in> set nodes\<close> d ne k(2) path_infos_eq [OF c(2)] by (simp add: case_prod_unfold Let_def)
      ultimately show ?thesis using Cons.IH [OF c(1)] c(4) [OF m] ne \<open>t \<in> set nodes\<close> by simp
    qed
  qed (use Cons in simp)
qed simp

lemma set_probs_correct:
  assumes "dc_paths dc \<noteq> []"
  shows "dc_paths (set_probs dc) = dc_paths dc" "dc_end (set_probs dc) = dc_end dc" "length (dc_probs (set_probs dc)) = length (dc_paths dc)"
    "\<forall>x \<in> set (dc_probs (set_probs dc)). 0 \<le> x"
  using assms by (auto simp: set_probs_def Let_def)

lemma rest_prob_simps:
  "rest_prob sel i [] = 0"
  "rest_prob sel i (p # ps) = (if i \<notin> set sel then p else 0) + rest_prob sel (Suc i) ps"
proof -
  have "[0 ..< Suc n] = 0 # map Suc [0 ..< n]" for n by (metis map_Suc_upt upt_conv_Cons zero_less_Suc)
  then show "rest_prob sel i (p # ps) = (if i \<notin> set sel then p else 0) + rest_prob sel (Suc i) ps"
    by (simp add: rest_prob_def comp_def del: upt_Suc cong: if_cong)
qed (simp add: rest_prob_def)

lemma pick_index_correct:
  assumes "r \<le> c + rest_prob sel i probs" "\<exists>j < length probs. i + j \<notin> set sel"
  shows "pick_index sel r c i probs \<notin> set sel \<and> pick_index sel r c i probs < i + length probs"
  using assms
proof (induction probs arbitrary: c i)
  case (Cons p ps)
  have rest: "\<exists>j < length ps. Suc i + j \<notin> set sel" if "i \<in> set sel \<or> 0 < rest_prob sel (Suc i) ps"
  proof (rule ccontr)
    assume n: "\<not> (\<exists>j < length ps. Suc i + j \<notin> set sel)"
    then have "map (\<lambda>j. if Suc i + j \<notin> set sel then ps ! j else 0) [0 ..< length ps] = map (\<lambda>_. 0) [0 ..< length ps]" by auto
    then have "rest_prob sel (Suc i) ps = sum_list (map (\<lambda>_. 0) [0 ..< length ps])" unfolding rest_prob_def by (rule arg_cong)
    then have "rest_prob sel (Suc i) ps = 0" by simp
    moreover obtain j where "j < Suc (length ps)" "i + j \<notin> set sel" using Cons.prems(2) by auto
    ultimately show False using that n by (cases j) auto
  qed
  show ?case using Cons.IH [of c "Suc i"] Cons.IH [of "c + p" "Suc i"] Cons.prems(1) rest by (auto simp: rest_prob_simps)
qed simp

lemma select_loop_correct:
  assumes "dc_paths dc \<noteq> []" "length (dc_probs dc) = length (dc_paths dc)" "\<forall>x \<in> set (dc_probs dc). 0 \<le> x"
    "rand_ok (sel_rng st)" "distinct sel" "set sel \<subseteq> {..< length (dc_paths dc)}" "n + length sel \<le> length (dc_paths dc)"
  shows "rand_ok (sel_rng (select_loop n sel dc st)) \<and> (\<exists>js. distinct (js @ sel) \<and> set js \<subseteq> {..< length (dc_paths dc)} \<and> length js = n
    \<and> sel_paths (select_loop n sel dc st) = sel_paths st @ map ((!) (dc_paths dc)) js)"
  using assms(4-)
proof (induction n arbitrary: sel st)
  case (Suc n)
  let ?x = "fst (rand_Float64 (sel_rng st))" and ?r = "snd (rand_Float64 (sel_rng st))"
  define i where "i = pick_index sel (?x * total_prob sel (dc_probs dc)) 0 0 (dc_probs dc)"
  have tp: "total_prob sel (dc_probs dc) = rest_prob sel 0 (dc_probs dc)" by (simp add: total_prob_def rest_prob_def)
  have "0 \<le> total_prob sel (dc_probs dc)" using assms(3) by (auto simp: total_prob_def intro!: sum_list_nonneg)
  then have le: "?x * total_prob sel (dc_probs dc) \<le> 0 + rest_prob sel 0 (dc_probs dc)"
    using rand_Float64_ok [OF Suc.prems(1)] unfolding tp by (simp add: mult_left_le_one_le)
  have "card (set sel) < length (dc_paths dc)" using Suc.prems(2, 4) by (simp add: distinct_card)
  then have "set sel \<noteq> {..< length (dc_paths dc)}" by (metis card_lessThan less_irrefl)
  then obtain j where "j < length (dc_probs dc)" "0 + j \<notin> set sel" using Suc.prems(3) assms(2) by auto
  then have i: "i \<notin> set sel" "i < length (dc_paths dc)" using pick_index_correct [OF le] assms(2) by (auto simp: i_def)
  let ?st = "st\<lparr>sel_paths := sel_paths st @ [dc_paths dc ! i], sel_usage := add_usage (sel_usage st) (Hops (dc_paths dc ! i)), sel_rng := ?r\<rparr>"
  have eq: "select_loop (Suc n) sel dc st = select_loop n (i # sel) dc ?st" by (simp add: i_def Let_def case_prod_unfold)
  obtain js where "rand_ok (sel_rng (select_loop n (i # sel) dc ?st))" "distinct (js @ i # sel)" "set js \<subseteq> {..< length (dc_paths dc)}"
    "length js = n" "sel_paths (select_loop n (i # sel) dc ?st) = sel_paths ?st @ map ((!) (dc_paths dc)) js"
    using Suc.IH [of ?st "i # sel"] Suc.prems rand_Float64_ok [OF Suc.prems(1)] i by auto
  then show ?case unfolding eq using i by (auto intro!: exI [of _ "i # js"])
qed simp

lemma select_dest_correct:
  assumes "dc_paths dc \<noteq> []" "rand_ok (sel_rng st)"
  shows "rand_ok (sel_rng (select_dest st (set_probs dc)))
    \<and> (\<exists>qs. chosen dc qs \<and> sel_paths (select_dest st (set_probs dc)) = sel_paths st @ qs)"
proof -
  let ?dc = "set_probs dc"
  note p = set_probs_correct [OF assms(1)]
  have eq: "select_dest st ?dc = select_loop (min 2 (length (dc_paths dc))) [] ?dc st"
    using assms(1) by (simp add: select_dest_def p)
  show ?thesis unfolding eq
    using select_loop_correct [of ?dc st "[]" "min 2 (length (dc_paths dc))"] assms p by (auto simp: chosen_def)
qed

lemma select_dests_correct:
  assumes "\<forall>dc \<in> set dcs. dc_paths dc \<noteq> []" "rand_ok (sel_rng st)"
  shows "rand_ok (sel_rng (foldl select_dest st (map set_probs dcs)))
    \<and> (\<exists>qss. list_all2 chosen dcs qss \<and> sel_paths (foldl select_dest st (map set_probs dcs)) = sel_paths st @ concat qss)"
  using assms
proof (induction dcs arbitrary: st)
  case (Cons dc dcs)
  obtain qs where q: "chosen dc qs" "sel_paths (select_dest st (set_probs dc)) = sel_paths st @ qs" "rand_ok (sel_rng (select_dest st (set_probs dc)))"
    using select_dest_correct [of dc st] Cons.prems by auto
  obtain qss where "list_all2 chosen dcs qss" "sel_paths (foldl select_dest (select_dest st (set_probs dc)) (map set_probs dcs)) = (sel_paths st @ qs) @ concat qss"
    "rand_ok (sel_rng (foldl select_dest (select_dest st (set_probs dc)) (map set_probs dcs)))"
    using Cons.IH [OF _ q(3)] Cons.prems(1) by (auto simp: q(2))
  then show ?case using q(1) by (auto intro!: exI [of _ "qs # qss"])
qed (auto intro: exI [of _ "[]"])

lemma sample_loop_correct:
  assumes "\<forall>dc \<in> set dcs. dc_paths dc \<noteq> []" "rand_ok r"
  shows "rand_ok (snd (sample_loop n (map set_probs dcs) loads r)) \<and> length (fst (sample_loop n (map set_probs dcs) loads r)) = n
    \<and> (\<forall>sol \<in> set (fst (sample_loop n (map set_probs dcs) loads r)). \<exists>qss. list_all2 chosen dcs qss \<and> fst sol = concat qss)"
  using assms(2)
proof (induction n arbitrary: r)
  case (Suc n)
  let ?st = "foldl select_dest \<lparr>sel_paths = [], sel_usage = [], sel_rng = r\<rparr> (map set_probs dcs)"
  have "rand_ok (sel_rng ?st)" "\<exists>qss. list_all2 chosen dcs qss \<and> sel_paths ?st = concat qss"
    using select_dests_correct [OF assms(1), of "\<lparr>sel_paths = [], sel_usage = [], sel_rng = r\<rparr>"] Suc.prems by simp_all
  then show ?case using Suc.IH [of "sel_rng ?st"] by (simp add: Let_def case_prod_unfold)
qed simp

lemma better_mem: "foldl better s sols \<in> set (s # sols)"
  by (induction sols arbitrary: s) (auto simp: better_def split: if_splits)

lemma beam_correct:
  assumes "\<forall>dc \<in> set dcs. dc_paths dc \<noteq> []" "rand_ok r"
  shows "rand_ok (snd (beamSearchSelection os dcs r)) \<and> (\<exists>qss. list_all2 chosen dcs qss \<and> fst (beamSearchSelection os dcs r) = concat qss)"
proof -
  let ?s = "sample_loop 100 (map set_probs dcs) (edgeLoadMap (ow_edges os)) r"
  note c = sample_loop_correct [OF assms, of 100 "edgeLoadMap (ow_edges os)"]
  have eq: "beamSearchSelection os dcs r = (fst (foldl better (hd (fst ?s)) (tl (fst ?s))), snd ?s)"
    by (simp add: beamSearchSelection_def Let_def case_prod_unfold)
  have "fst ?s \<noteq> []" using c by auto
  then have "foldl better (hd (fst ?s)) (tl (fst ?s)) \<in> set (fst ?s)" using better_mem [of "hd (fst ?s)" "tl (fst ?s)"] by simp
  then show ?thesis unfolding eq using c by auto
qed

lemma chosen_props:
  assumes "chosen dc qs" "dc_ok g s dc"
  shows "distinct (map Hops qs)" "\<forall>p \<in> set qs. info_path g s (dc_end dc) p" "length qs \<in> {1, 2}"
proof -
  obtain js where j: "distinct js" "set js \<subseteq> {..< length (dc_paths dc)}" "length js = min 2 (length (dc_paths dc))" "qs = map ((!) (dc_paths dc)) js"
    using assms(1) by (auto simp: chosen_def)
  have ok: "dc_paths dc \<noteq> []" "distinct (map Hops (dc_paths dc))" "\<forall>p \<in> set (dc_paths dc). info_path g s (dc_end dc) p"
    using assms(2) by (simp_all add: dc_ok_def)
  have "inj_on (\<lambda>i. Hops (dc_paths dc ! i)) (set js)"
    using ok(2) j(2) by (intro inj_onI) (auto simp: distinct_conv_nth)
  then show "distinct (map Hops qs)" using j(1) by (simp add: j(4) distinct_map comp_def)
  show "\<forall>p \<in> set qs. info_path g s (dc_end dc) p" using ok(3) j(2) by (auto simp: j(4))
  have "length (dc_paths dc) = 1 \<or> 2 \<le> length (dc_paths dc)" using ok(1) by (cases "dc_paths dc"; cases "tl (dc_paths dc)") auto
  then show "length qs \<in> {1, 2}" using j(3) by (auto simp: j(4))
qed

lemma all_chosen_props:
  assumes "list_all2 chosen dcs qss" "\<forall>dc \<in> set dcs. dc_ok g s dc" "distinct (map dc_end dcs)"
  shows "distinct (map Hops (concat qss)) \<and> (\<forall>p \<in> set (concat qss). \<exists>t \<in> set (map dc_end dcs). info_path g s t p)
    \<and> (\<forall>t \<in> set (map dc_end dcs). length (filter (\<lambda>p. last (Hops p) = t) (concat qss)) \<in> {1, 2})"
  using assms
proof (induction dcs qss rule: list_all2_induct)
  case (Cons dc dcs qs qss)
  have ok: "dc_ok g s dc" using Cons.prems(1) by simp
  note c = chosen_props [OF Cons.hyps(1) ok]
  have IH: "distinct (map Hops (concat qss))" "\<forall>p \<in> set (concat qss). \<exists>t \<in> set (map dc_end dcs). info_path g s t p"
    "\<forall>t \<in> set (map dc_end dcs). length (filter (\<lambda>p. last (Hops p) = t) (concat qss)) \<in> {1, 2}"
    using Cons.IH Cons.prems by simp_all
  have lq: "last (Hops p) = dc_end dc" if "p \<in> set qs" for p using c(2) that by (auto simp: info_path_def spath_def)
  have lr: "last (Hops p) \<in> set (map dc_end dcs)" if "p \<in> set (concat qss)" for p
    using IH(2) that by (fastforce simp: info_path_def spath_def)
  have ne: "dc_end dc \<notin> set (map dc_end dcs)" using Cons.prems(2) by simp
  have "filter (\<lambda>p. last (Hops p) = dc_end dc) qs = qs" "filter (\<lambda>p. last (Hops p) = dc_end dc) (concat qss) = []"
    using lq lr ne by (simp_all only: filter_id_conv filter_empty_conv) metis+
  moreover have "filter (\<lambda>p. last (Hops p) = t) qs = []" if "t \<in> set (map dc_end dcs)" for t
    using lq ne that by (simp only: filter_empty_conv) metis
  moreover have "distinct (map Hops (qs @ concat qss))" using c(1) IH(1) lq lr ne by (auto simp del: set_concat) metis
  ultimately show ?case using c(2, 3) IH(2, 3) by (auto simp del: set_concat)
qed simp

lemma build_graph_no_parallel:
  "distinct (map (\<lambda>e. (SourceIp e, DestinationIp e)) es) \<Longrightarrow> no_parallel (build_graph es)"
  unfolding no_parallel_def build_graph_spec(2) by (blast intro: distinct_dests)

section \<open>Lemmas: the answer\<close>

lemma OW_ComputingMulti_correct:
  assumes "rand_ok r" "distinct (map (\<lambda>e. (SourceIp e, DestinationIp e)) (ow_edges os))" "0 < ow_maxPaths os" "distinct ts"
  defines "g \<equiv> build_graph (ow_edges os)" and "nodes \<equiv> set (graph_nodes (ow_edges os))"
  shows "case fst (OW_ComputingMulti os s ts r) of
      Inr ps \<Rightarrow> distinct (map Hops ps) \<and> (\<forall>p \<in> set ps. \<exists>t \<in> set ts. info_path g s t p)
        \<and> (\<forall>t \<in> set ts. t \<in> nodes \<and> near g s t \<longrightarrow> length (filter (\<lambda>p. last (Hops p) = t) ps) \<in> {1, 2})
    | Inl (GoError _) \<Rightarrow> s \<notin> nodes \<or> (\<forall>t \<in> set ts. \<not> (t \<in> nodes \<and> near g s t))
    | Inl _ \<Rightarrow> False"
proof (cases "s \<in> nodes")
  case False
  then show ?thesis by (simp add: OW_ComputingMulti_def nodes_def)
next
  case True
  let ?c = "candidates_for os s ts (graph_nodes (ow_edges os)) g r"
  have np: "no_parallel g" unfolding g_def by (rule build_graph_no_parallel [OF assms(2)])
  have c: "rand_ok (snd ?c)" "map dc_end (fst ?c) = filter (\<lambda>t. t \<in> nodes \<and> near g s t) ts" "\<forall>dc \<in> set (fst ?c). dc_ok g s dc"
    using candidates_for_correct [OF np assms(3, 1), of s ts "graph_nodes (ow_edges os)"] by (simp_all add: nodes_def)
  show ?thesis
  proof (cases "fst ?c = []")
    case e: True
    then have "\<forall>t \<in> set ts. \<not> (t \<in> nodes \<and> near g s t)" using c(2) by (metis filter_empty_conv list.simps(8))
    moreover have "fst (OW_ComputingMulti os s ts r) = Inl (GoError ''no paths found'')"
      using True e by (simp add: OW_ComputingMulti_def generateCandidatePaths_def g_def nodes_def case_prod_unfold Let_def)
    ultimately show ?thesis by simp
  next
    case ne: False
    have "\<forall>dc \<in> set (fst ?c). dc_paths dc \<noteq> []" using c(3) by (auto simp: dc_ok_def)
    then obtain qss where q: "list_all2 chosen (fst ?c) qss" "fst (beamSearchSelection os (fst ?c) (snd ?c)) = concat qss"
      using beam_correct [OF _ c(1)] by blast
    have "fst (OW_ComputingMulti os s ts r) = Inr (concat qss)"
      using True ne q(2) by (simp add: OW_ComputingMulti_def generateCandidatePaths_def g_def nodes_def case_prod_unfold Let_def)
    moreover have "distinct (map dc_end (fst ?c))" using c(2) assms(4) by simp
    then have "distinct (map Hops (concat qss)) \<and> (\<forall>p \<in> set (concat qss). \<exists>t \<in> set (map dc_end (fst ?c)). info_path g s t p)
        \<and> (\<forall>t \<in> set (map dc_end (fst ?c)). length (filter (\<lambda>p. last (Hops p) = t) (concat qss)) \<in> {1, 2})"
      by (rule all_chosen_props [OF q(1) c(3)])
    ultimately show ?thesis unfolding c(2) by (auto simp del: set_concat)
  qed
qed

section \<open>Properties\<close>

text \<open>
  The randomised depth-first search is complete whatever the shuffles are: it returns a path exactly when
  there is a simple path of at most the allowed number of hops, and the path it returns is one, with its
  latency as cost.
\<close>

lemma random_dfs_complete:
  assumes "no_parallel g" "rand_ok r"
  shows "case fst (dfsRandomPath s t g maxHops r) of
      Some p \<Rightarrow> spath g {} (Suc maxHops) s t (p_hops p) \<and> p_cost p = calculatePathRTT (p_hops p) g \<and> p_rawRTT p = p_cost p
    | None \<Rightarrow> \<not> (\<exists>p. spath g {} (Suc maxHops) s t p)"
  using dfsRandomPath_correct(2) [OF assms, of maxHops s t] by (simp split: option.splits)

text \<open>
  C24: The solver for several destinations, whatever the random draws are: it fails exactly when the start is
  unknown or no destination is known and within 15 hops; otherwise every destination that is gets one or two
  different paths, and every returned path is a simple path of at most 15 hops from the start to a destination
  with its true latency.
\<close>

theorem onewan_multi_correct:
  assumes "rand_ok r" "distinct (map (\<lambda>e. (SourceIp e, DestinationIp e)) (ow_edges os))" "0 < ow_maxPaths os" "distinct ts"
  defines "g \<equiv> build_graph (ow_edges os)" and "nodes \<equiv> set (graph_nodes (ow_edges os))"
  shows "case fst (OW_ComputingMulti os s ts r) of
      Inr ps \<Rightarrow> distinct (map Hops ps) \<and> (\<forall>p \<in> set ps. \<exists>t \<in> set ts. info_path g s t p)
        \<and> (\<forall>t \<in> set ts. t \<in> nodes \<and> near g s t \<longrightarrow> length (filter (\<lambda>p. last (Hops p) = t) ps) \<in> {1, 2})
    | Inl (GoError _) \<Rightarrow> s \<notin> nodes \<or> (\<forall>t \<in> set ts. \<not> (t \<in> nodes \<and> near g s t))
    | Inl _ \<Rightarrow> False"
  using OW_ComputingMulti_correct [OF assms(1-4)] unfolding g_def nodes_def .

theorem onewan_multi_correct_witness:
  "\<exists>ps. fst (OW_ComputingMulti (NewONEWANSolver (ks_edges ex_solver) 10) ''s'' [''t''] ex_rng) = Inr ps \<and> length ps \<in> {1, 2}"
proof -
  let ?os = "NewONEWANSolver (ks_edges ex_solver) 10" and ?g = "build_graph (ks_edges ex_solver)"
  have d: "distinct (map (\<lambda>e. (SourceIp e, DestinationIp e)) (ow_edges ?os))" by code_simp
  have "walk ?g [] [''s'', ''t'']" by code_simp
  then have "near ?g ''s'' ''t''" unfolding near_def by (intro exI [of _ "[''s'', ''t'']"]) (simp add: spath_def)
  moreover have "''s'' \<in> set (graph_nodes (ks_edges ex_solver))" "''t'' \<in> set (graph_nodes (ks_edges ex_solver))" by code_simp+
  moreover have "filter (\<lambda>p. last (Hops p) = ''t'') ps = ps" if "\<forall>p \<in> set ps. info_path ?g ''s'' ''t'' p" for ps
    using that by (auto simp: filter_id_conv info_path_def spath_def)
  ultimately show ?thesis using onewan_multi_correct [OF ex_rng_ok d, of "[''t'']" "''s''"]
    by (auto simp: NewONEWANSolver_def split: sum.splits fault.splits)
qed

end
