(* ===== verification/Carousel.thy ===== *)
theory Carousel
  imports Yen_Paths Go_Rand
begin

text \<open>
  \<^verbatim>\<open>src/control-plane/routing/core-domain/carousel-greed.go\<close>: the greedy search for paths to several destinations
  in a residual graph with capacities and latency bounds. The residual graph is a map of maps of edge states;
  every edge state belongs to one place of the graph, so it is a value. The two sources of randomness, the
  package's and the solver's own, are oracles of \<^verbatim>\<open>Go_Rand\<close>. The recursion of the search is on the hops left
  below the limit of 30.
\<close>

section \<open>Definitions\<close>

record FlowOptimizationSolver =
  fs_edges :: "Edge list"
  fs_nodes :: "(string, bool) gomap"
  fs_alpha :: real
  fs_beta :: real
  fs_capacity :: real
  fs_flowsPerDest :: nat
  fs_Tu :: real
  fs_Uhot :: real
  fs_epsilon :: real
  fs_thetaLMap :: "(string, real) gomap"
  fs_kspK :: int
  fs_latencyMap :: "(string, real) gomap"
  fs_rng :: rng

definition latency_map :: "Edge list \<Rightarrow> (string, real) gomap" where
  "latency_map es = foldl (\<lambda>m e. gm_set m (edge_key (SourceIp e) (DestinationIp e)) (Latency e)) [] es"

definition node_set :: "Edge list \<Rightarrow> (string, bool) gomap" where
  "node_set es = foldl (\<lambda>m e. gm_set (gm_set m (SourceIp e) True) (DestinationIp e) True) [] es"

definition NewFlowOptimizationSolver :: "rng \<Rightarrow> Edge list \<Rightarrow> FlowOptimizationSolver" where
  "NewFlowOptimizationSolver r es =
     \<lparr>fs_edges = es, fs_nodes = node_set es, fs_alpha = 2, fs_beta = 1 / 2, fs_capacity = 0, fs_flowsPerDest = 2,
      fs_Tu = 60, fs_Uhot = 0, fs_epsilon = 1 / 1000, fs_thetaLMap = [], fs_kspK = 3,
      fs_latencyMap = latency_map es, fs_rng = r\<rparr>"

record EdgeFlow =
  ef_flow :: real
  ef_cap :: real
  ef_thetaA :: real
  ef_effCap :: real
  ef_banned :: bool
  ef_residual :: real

definition updateResidual :: "EdgeFlow \<Rightarrow> EdgeFlow" where
  "updateResidual ef = ef\<lparr>ef_residual := ef_effCap ef - ef_flow ef\<rparr>"

definition getReverseResidual :: "EdgeFlow \<Rightarrow> real" where
  "getReverseResidual ef = ef_flow ef"

definition computeThetaA :: "FlowOptimizationSolver \<Rightarrow> real \<Rightarrow> real" where
  "computeThetaA d cpuLoad =
     (let numerator = cpuLoad - fs_Tu d;
          numerator = (if numerator < 0 then 0 else numerator);
          denominator = fs_Uhot d - fs_Tu d;
          denominator = (if denominator < fs_epsilon d then fs_epsilon d else denominator);
          U_prime = numerator / denominator;
          U_prime = (if U_prime > 1 then 1 else U_prime)
      in 1 - U_prime)"

fun thetaL_loop :: "KShortestSolver \<Rightarrow> string \<Rightarrow> string list \<Rightarrow> (string, real) gomap \<Rightarrow> (string, real) gomap result" where
  "thetaL_loop ksp s [] m = Inr m"
| "thetaL_loop ksp s (t # ts) m =
     (case KS_Computing ksp s t of
        Inl (GoError _) \<Rightarrow> thetaL_loop ksp s ts (gm_set m t 100)
      | Inl f \<Rightarrow> Inl f
      | Inr paths \<Rightarrow>
          if length paths = 0 then thetaL_loop ksp s ts (gm_set m t 100)
          else let avgLatency = sum_list (map Rtt paths) / real (length paths)
               in thetaL_loop ksp s ts (gm_set m t (avgLatency * (3 / 2))))"

definition computeThetaLForDestinations :: "FlowOptimizationSolver \<Rightarrow> string \<Rightarrow> string list \<Rightarrow> FlowOptimizationSolver result" where
  "computeThetaLForDestinations d s ts =
     bindr (thetaL_loop (NewKShortestSolverWithLatency (fs_edges d) (fs_kspK d) True) s ts (fs_thetaLMap d))
       (\<lambda>m. Inr (d\<lparr>fs_thetaLMap := m\<rparr>))"

definition computePercentile :: "FlowOptimizationSolver \<Rightarrow> real \<Rightarrow> real" where
  "computePercentile d percentile =
     (if length (fs_edges d) = 0 then 0
      else let loads = exchange_sort (\<lambda>x. x) (map Load (fs_edges d));
               index = percentile / 100 * real (length loads - 1);
               lowerIndex = nat \<lfloor>index\<rfloor>;
               upperIndex = lowerIndex + 1
           in if upperIndex \<ge> length loads then loads ! (length loads - 1)
              else let fraction = index - real lowerIndex
                   in loads ! lowerIndex + fraction * (loads ! upperIndex - loads ! lowerIndex))"

record PathWithInfo =
  pw_path :: "string list"
  pw_pathStr :: string
  pw_dest :: string
  pw_latency :: real

subsection \<open>The path accumulator\<close>

record PathAccumulator =
  pa_paths :: "(string, PathWithInfo) gomap"
  pa_freq :: "(string, int) gomap"

definition NewPathAccumulator :: PathAccumulator where
  "NewPathAccumulator = \<lparr>pa_paths = [], pa_freq = []\<rparr>"

definition gm_int :: "(string, int) gomap \<Rightarrow> string \<Rightarrow> int" where
  "gm_int m k = (case gm_get m k of Some x \<Rightarrow> x | None \<Rightarrow> 0)"

definition AddPath :: "PathAccumulator \<Rightarrow> PathWithInfo \<Rightarrow> PathAccumulator" where
  "AddPath pa pw = pa\<lparr>pa_paths := gm_set (pa_paths pa) (pw_pathStr pw) pw,
     pa_freq := gm_set (pa_freq pa) (pw_pathStr pw) (gm_int (pa_freq pa) (pw_pathStr pw) + 1)\<rparr>"

definition GetMostFrequent :: "PathAccumulator \<Rightarrow> PathWithInfo option" where
  "GetMostFrequent pa =
     snd (foldl (\<lambda>(maxCnt, bestPath) (pathStr, freq).
       if freq > maxCnt then (freq, gm_get (pa_paths pa) pathStr) else (maxCnt, bestPath)) (0, None) (pa_freq pa))"

subsection \<open>The residual graph\<close>

type_synonym resgraph = "(string, (string, EdgeFlow) gomap) gomap"

definition rg_edge :: "resgraph \<Rightarrow> string \<Rightarrow> string \<Rightarrow> EdgeFlow option" where
  "rg_edge g u v = (case gm_get g u of None \<Rightarrow> None | Some m \<Rightarrow> gm_get m v)"

definition rg_set :: "resgraph \<Rightarrow> string \<Rightarrow> string \<Rightarrow> EdgeFlow \<Rightarrow> resgraph" where
  "rg_set g u v ef = gm_set g u (gm_set (case gm_get g u of Some m \<Rightarrow> m | None \<Rightarrow> []) v ef)"

definition rg_map :: "(EdgeFlow \<Rightarrow> EdgeFlow) \<Rightarrow> resgraph \<Rightarrow> string \<Rightarrow> string \<Rightarrow> resgraph" where
  "rg_map f g u v = (case rg_edge g u v of None \<Rightarrow> g | Some ef \<Rightarrow> rg_set g u v (f ef))"

definition new_flow :: "FlowOptimizationSolver \<Rightarrow> Edge \<Rightarrow> EdgeFlow" where
  "new_flow d e =
     (let thetaA = computeThetaA d (Load e); effCap = thetaA * fs_capacity d
      in \<lparr>ef_flow = 0, ef_cap = fs_capacity d, ef_thetaA = thetaA, ef_effCap = effCap, ef_banned = False, ef_residual = effCap\<rparr>)"

definition buildResidualGraphWithCapacity :: "FlowOptimizationSolver \<Rightarrow> resgraph" where
  "buildResidualGraphWithCapacity d = foldl (\<lambda>g e. rg_set g (SourceIp e) (DestinationIp e) (new_flow d e)) [] (fs_edges d)"

text \<open>\<^verbatim>\<open>math.MaxFloat64\<close>.\<close>

definition MaxFloat64 :: real where "MaxFloat64 = (2 - 1 / 2 ^ 52) * 2 ^ 1023"

definition getEdgeLatency :: "FlowOptimizationSolver \<Rightarrow> string \<Rightarrow> string \<Rightarrow> real" where
  "getEdgeLatency d src dst = (case gm_get (fs_latencyMap d) (edge_key src dst) of Some l \<Rightarrow> l | None \<Rightarrow> MaxFloat64)"

definition path_steps :: "string list \<Rightarrow> (string \<times> string) list" where
  "path_steps path = zip path (tl path)"

definition add_flow :: "real \<Rightarrow> EdgeFlow \<Rightarrow> EdgeFlow" where
  "add_flow x ef = updateResidual (ef\<lparr>ef_flow := ef_flow ef + x\<rparr>)"

definition sub_flow :: "real \<Rightarrow> EdgeFlow \<Rightarrow> EdgeFlow" where
  "sub_flow x ef = updateResidual (ef\<lparr>ef_flow := (if ef_flow ef - x < 0 then 0 else ef_flow ef - x)\<rparr>)"

definition allocateFlow :: "resgraph \<Rightarrow> string list \<Rightarrow> real \<Rightarrow> resgraph" where
  "allocateFlow g path x = foldl (\<lambda>g (u, v). rg_map (add_flow x) g u v) g (path_steps path)"

definition releaseFlow :: "resgraph \<Rightarrow> string list \<Rightarrow> real \<Rightarrow> resgraph" where
  "releaseFlow g path x = foldl (\<lambda>g (u, v). rg_map (sub_flow x) g u v) g (path_steps path)"

definition banEdge :: "resgraph \<Rightarrow> string \<Rightarrow> string \<Rightarrow> resgraph" where
  "banEdge g u v = rg_map (\<lambda>ef. ef\<lparr>ef_banned := True\<rparr>) g u v"

definition banPathEdges :: "resgraph \<Rightarrow> string list \<Rightarrow> resgraph" where
  "banPathEdges g path = foldl (\<lambda>g (u, v). banEdge g u v) g (path_steps path)"

definition unbanAllEdges :: "resgraph \<Rightarrow> resgraph" where
  "unbanAllEdges g = map (\<lambda>(u, m). (u, map (\<lambda>(v, ef). (v, ef\<lparr>ef_banned := False\<rparr>)) m)) g"

subsection \<open>The search\<close>

record edgeInfo =
  ei_to :: string
  ei_cost :: real
  ei_isRev :: bool

definition banned_cost :: "EdgeFlow \<Rightarrow> real \<Rightarrow> real" where
  "banned_cost ef c = (let bannedPenalty = 100 in if ef_banned ef then c + bannedPenalty else c)"

definition forward_edges :: "FlowOptimizationSolver \<Rightarrow> resgraph \<Rightarrow> string \<Rightarrow> edgeInfo list" where
  "forward_edges d g u =
     map (\<lambda>(v, ef). \<lparr>ei_to = v, ei_cost = banned_cost ef (getEdgeLatency d u v), ei_isRev = False\<rparr>)
       (filter (\<lambda>(v, ef). ef_residual ef > 0) (gm_list g u))"

definition backward_edges :: "FlowOptimizationSolver \<Rightarrow> resgraph \<Rightarrow> string \<Rightarrow> edgeInfo list" where
  "backward_edges d g u =
     List.map_filter (\<lambda>v. if v \<noteq> u then
         (case rg_edge g v u of
            Some revEf \<Rightarrow> if getReverseResidual revEf > 0 then Some \<lparr>ei_to = v, ei_cost = banned_cost revEf 0, ei_isRev = True\<rparr> else None
          | None \<Rightarrow> None)
       else None) (map fst (fs_nodes d))"

definition getSortedEdges :: "FlowOptimizationSolver \<Rightarrow> resgraph \<Rightarrow> string \<Rightarrow> edgeInfo list" where
  "getSortedEdges d g u = exchange_sort ei_cost (forward_edges d g u @ backward_edges d g u)"

record cg_state =
  cg_visited :: "(string, bool) gomap"
  cg_path :: "string list"
  cg_bestPath :: "string list option"
  cg_bestLatency :: real
  cg_rng :: rng

record cg_query =
  cq_d :: FlowOptimizationSolver
  cq_g :: resgraph
  cq_t :: string
  cq_thetaL :: real
  cq_used :: "(string, bool) gomap"
  cq_optimize :: bool
  cq_randomize :: bool

text \<open>Reaching the destination.\<close>

definition cg_arrive :: "cg_query \<Rightarrow> string \<Rightarrow> real \<Rightarrow> cg_state \<Rightarrow> bool \<times> cg_state" where
  "cg_arrive q u lat st =
     (if lat \<le> cq_thetaL q
      then let tempPath = cg_path st @ [u] in
           if cq_optimize q
           then (False, if lat < cg_bestLatency st \<and> \<not> flag (cq_used q) (path_str tempPath)
                        then st\<lparr>cg_bestLatency := lat, cg_bestPath := Some tempPath\<rparr> else st)
           else (True, st\<lparr>cg_bestPath := Some tempPath, cg_bestLatency := lat\<rparr>)
      else (False, st))"

text \<open>The loop over the edges of a node; the recursive call is its first argument.\<close>

fun cg_loop :: "(string \<Rightarrow> real \<Rightarrow> cg_state \<Rightarrow> bool \<times> cg_state) \<Rightarrow> cg_query \<Rightarrow> real \<Rightarrow> edgeInfo list \<Rightarrow> bool \<Rightarrow> cg_state \<Rightarrow> bool \<times> cg_state" where
  "cg_loop dfs q lat [] found st = (found, st)"
| "cg_loop dfs q lat (ei # eis) found st =
     (if flag (cg_visited st) (ei_to ei) then cg_loop dfs q lat eis found st
      else if cq_optimize q \<and> lat + ei_cost ei \<ge> cg_bestLatency st then cg_loop dfs q lat eis found st
      else if lat + ei_cost ei > cq_thetaL q then cg_loop dfs q lat eis found st
      else let (ok, st') = dfs (ei_to ei) (lat + ei_cost ei) st in
           if ok then (if \<not> cq_optimize q then (True, st') else cg_loop dfs q lat eis True st')
           else cg_loop dfs q lat eis found st')"

primrec cg_dfs :: "nat \<Rightarrow> cg_query \<Rightarrow> string \<Rightarrow> real \<Rightarrow> cg_state \<Rightarrow> bool \<times> cg_state" where
  "cg_dfs 0 q u lat st = (False, st)"
| "cg_dfs (Suc left) q u lat st =
     (if u = cq_t q then cg_arrive q u lat st
      else let st = st\<lparr>cg_visited := gm_set (cg_visited st) u True, cg_path := cg_path st @ [u]\<rparr>;
               sortedEdges = getSortedEdges (cq_d q) (cq_g q) u;
               (sortedEdges, r) = (if cq_randomize q then rand_Shuffle sortedEdges (cg_rng st) else (sortedEdges, cg_rng st));
               (found, st) = cg_loop (cg_dfs left q) q lat sortedEdges False (st\<lparr>cg_rng := r\<rparr>)
           in (found, st\<lparr>cg_path := butlast (cg_path st), cg_visited := gm_set (cg_visited st) u False\<rparr>))"

definition cg_maxHops :: nat where "cg_maxHops = 30"

definition dfsPathSearch :: "cg_query \<Rightarrow> string \<Rightarrow> rng \<Rightarrow> (string list \<times> real) option \<times> rng" where
  "dfsPathSearch q s r =
     (let st = snd (cg_dfs cg_maxHops q s 0
                 \<lparr>cg_visited = [], cg_path = [], cg_bestPath = None, cg_bestLatency = cq_thetaL q + 1, cg_rng = r\<rparr>)
      in (case cg_bestPath st of Some p \<Rightarrow> Some (p, cg_bestLatency st) | None \<Rightarrow> None, cg_rng st))"

definition thetaL_of :: "FlowOptimizationSolver \<Rightarrow> string \<Rightarrow> real" where
  "thetaL_of d t = (case gm_get (fs_thetaLMap d) t of Some x \<Rightarrow> x | None \<Rightarrow> 100)"

definition findFeasiblePathWithLatency ::
  "FlowOptimizationSolver \<Rightarrow> resgraph \<Rightarrow> string \<Rightarrow> string \<Rightarrow> (string, bool) gomap \<Rightarrow> nat \<Rightarrow> rng \<Rightarrow> PathWithInfo option \<times> rng" where
  "findFeasiblePathWithLatency d g s t used attempt r =
     (case gm_get g s of
        None \<Rightarrow> (None, r)
      | Some _ \<Rightarrow>
          (let (found, r) = dfsPathSearch \<lparr>cq_d = d, cq_g = g, cq_t = t, cq_thetaL = thetaL_of d t, cq_used = used,
                   cq_optimize = (attempt \<le> 1), cq_randomize = (\<not> attempt \<le> 1)\<rparr> s r
           in (case found of
                 Some (p, lat) \<Rightarrow> Some \<lparr>pw_path = p, pw_pathStr = join ''|'' p, pw_dest = t, pw_latency = lat\<rparr>
               | None \<Rightarrow> None, r)))"

subsection \<open>The objective\<close>

definition obj_edge :: "resgraph \<Rightarrow> (string, int) gomap \<times> real \<Rightarrow> string \<times> string \<Rightarrow> (string, int) gomap \<times> real" where
  "obj_edge g uc uv =
     (let (usage, congestion) = uc; (u, v) = uv; k = edge_key u v
      in (gm_set usage k (gm_int usage k + 1),
          congestion + (case rg_edge g u v of
            Some ef \<Rightarrow> if ef_effCap ef > 0 then 1 - ef_residual ef / ef_effCap ef else 0
          | None \<Rightarrow> 0)))"

definition objective :: "PathWithInfo list \<Rightarrow> resgraph \<Rightarrow> real" where
  "objective lst g =
     (if length lst = 0 then 0
      else let pathWeight = 10; diversityWeight = 1; latWeight = 1 / 10; congestionWeight = 1;
               (edgeUsage, totalCongestion) = foldl (obj_edge g) ([], 0) (concat (map (path_steps \<circ> pw_path) lst));
               totalLatency = sum_list (map pw_latency lst);
               diversityScore = sum_list (map (\<lambda>c. 1 / of_int c) (gm_vals edgeUsage))
           in real (length lst) * pathWeight + diversityScore * diversityWeight - totalLatency * latWeight
              - totalCongestion * congestionWeight)"

definition copyPathList :: "PathWithInfo list \<Rightarrow> PathWithInfo list" where
  "copyPathList l = map (\<lambda>pw. \<lparr>pw_path = pw_path pw, pw_pathStr = pw_pathStr pw, pw_dest = pw_dest pw, pw_latency = pw_latency pw\<rparr>) l"

subsection \<open>The solver\<close>

record carousel =
  cm_g :: resgraph
  cm_all :: "PathWithInfo list"
  cm_count :: "(string, int) gomap"
  cm_used :: "(string, bool) gomap"
  cm_acc :: PathAccumulator
  cm_best :: "PathWithInfo list"
  cm_bestScore :: real
  cm_rand :: rng
  cm_own :: rng

text \<open>Taking a found path into the solution.\<close>

definition take_path :: "PathWithInfo \<Rightarrow> string \<Rightarrow> carousel \<Rightarrow> carousel" where
  "take_path pw t c = c\<lparr>cm_all := cm_all c @ [pw], cm_used := gm_set (cm_used c) (path_str (pw_path pw)) True,
     cm_count := gm_set (cm_count c) t (gm_int (cm_count c) t + 1), cm_g := allocateFlow (cm_g c) (pw_path pw) 1\<rparr>"

text \<open>The paths to one destination, \<^term>\<open>i\<close> of them found so far, with the number of attempts made and left.\<close>

fun initial_paths :: "nat \<Rightarrow> nat \<Rightarrow> nat \<Rightarrow> FlowOptimizationSolver \<Rightarrow> string \<Rightarrow> string \<Rightarrow> carousel \<Rightarrow> carousel" where
  "initial_paths 0 attempts i d s t c = c"
| "initial_paths (Suc left) attempts i d s t c =
     (if i < fs_flowsPerDest d
      then let (pw, r) = findFeasiblePathWithLatency d (cm_g c) s t (cm_used c) (Suc attempts) (cm_rand c);
               c = c\<lparr>cm_rand := r\<rparr>
           in (case pw of
                 None \<Rightarrow> c
               | Some pw \<Rightarrow>
                   if flag (cm_used c) (path_str (pw_path pw)) then initial_paths left (Suc attempts) i d s t c
                   else initial_paths left (Suc attempts) (Suc i) d s t (take_path pw t c))
      else c)"

definition initial_dest :: "FlowOptimizationSolver \<Rightarrow> string \<Rightarrow> carousel \<Rightarrow> string \<Rightarrow> carousel" where
  "initial_dest d s c t = initial_paths (fs_flowsPerDest d * 10) 0 0 d s t c"

text \<open>Removing the oldest path.\<close>

definition drop_oldest :: "carousel \<Rightarrow> carousel" where
  "drop_oldest c =
     (case cm_all c of
        [] \<Rightarrow> c
      | pw # rest \<Rightarrow> c\<lparr>cm_all := rest, cm_count := gm_set (cm_count c) (pw_dest pw) (gm_int (cm_count c) (pw_dest pw) - 1),
          cm_used := gm_del (cm_used c) (path_str (pw_path pw)), cm_g := releaseFlow (cm_g c) (pw_path pw) 1\<rparr>)"

fun drop_many :: "nat \<Rightarrow> carousel \<Rightarrow> carousel" where
  "drop_many 0 c = c"
| "drop_many (Suc n) c = (if length (cm_all c) > 0 then drop_many n (drop_oldest c) else c)"

definition ban_phase :: "PathWithInfo \<Rightarrow> carousel \<Rightarrow> carousel" where
  "ban_phase oldest c =
     (let g = (case GetMostFrequent (cm_acc c) of Some pw \<Rightarrow> banPathEdges (cm_g c) (pw_path pw) | None \<Rightarrow> cm_g c);
          g = (if length (pw_path oldest) \<ge> 2 then banEdge g (pw_path oldest ! 0) (pw_path oldest ! 1) else g)
      in c\<lparr>cm_g := g\<rparr>)"

fun try_ends :: "FlowOptimizationSolver \<Rightarrow> string \<Rightarrow> nat \<Rightarrow> string list \<Rightarrow> carousel \<Rightarrow> carousel" where
  "try_ends d s attempt [] c = c"
| "try_ends d s attempt (t # ts) c =
     (if gm_int (cm_count c) t \<ge> int (fs_flowsPerDest d) then try_ends d s attempt ts c
      else let (pw, r) = findFeasiblePathWithLatency d (cm_g c) s t (cm_used c) attempt (cm_rand c);
               c = c\<lparr>cm_rand := r\<rparr>
           in (case pw of
                 None \<Rightarrow> try_ends d s attempt ts c
               | Some pw \<Rightarrow>
                   if flag (cm_used c) (path_str (pw_path pw)) then try_ends d s attempt ts c
                   else take_path pw t (c\<lparr>cm_acc := AddPath (cm_acc c) pw\<rparr>)))"

definition keep_best :: "carousel \<Rightarrow> carousel" where
  "keep_best c =
     (if length (cm_all c) > 0
      then let currentScore = objective (cm_all c) (cm_g c)
           in if currentScore > cm_bestScore c then c\<lparr>cm_best := copyPathList (cm_all c), cm_bestScore := currentScore\<rparr> else c
      else c)"

definition carousel_step :: "FlowOptimizationSolver \<Rightarrow> string \<Rightarrow> string list \<Rightarrow> nat \<Rightarrow> carousel \<Rightarrow> carousel" where
  "carousel_step d s ts i c =
     (let oldest = hd (cm_all c);
          c = ban_phase oldest (drop_oldest c);
          (shuffledEnds, r) = rand_Shuffle ts (cm_own c);
          c = try_ends d s (i + 1) shuffledEnds (c\<lparr>cm_own := r\<rparr>)
      in keep_best (c\<lparr>cm_g := unbanAllEdges (cm_g c)\<rparr>))"

fun carousel_loop :: "nat \<Rightarrow> nat \<Rightarrow> FlowOptimizationSolver \<Rightarrow> string \<Rightarrow> string list \<Rightarrow> carousel \<Rightarrow> carousel" where
  "carousel_loop 0 i d s ts c = c"
| "carousel_loop (Suc n) i d s ts c =
     (if length (cm_all c) = 0 then c else carousel_loop n (Suc i) d s ts (carousel_step d s ts i c))"

text \<open>From the first feasible paths on: remove a share of them, then iterate.\<close>

definition carousel_optimize :: "FlowOptimizationSolver \<Rightarrow> string \<Rightarrow> string list \<Rightarrow> carousel \<Rightarrow> carousel" where
  "carousel_optimize d s ts c =
     (let c = c\<lparr>cm_acc := foldl AddPath NewPathAccumulator (cm_all c), cm_best := copyPathList (cm_all c),
                cm_bestScore := objective (cm_all c) (cm_g c)\<rparr>;
          initialSize = length (cm_all c);
          removeNum = nat \<lfloor>fs_beta d * real initialSize\<rfloor>;
          maxIter = nat \<lfloor>fs_alpha d * real initialSize\<rfloor>
      in carousel_loop maxIter 0 d s ts (drop_many removeNum c))"

definition CG_ComputingMulti :: "FlowOptimizationSolver \<Rightarrow> string \<Rightarrow> string list \<Rightarrow> rng \<Rightarrow> PathInfo list result" where
  "CG_ComputingMulti d s ts r =
     (let nodes = graph_nodes (fs_edges d); validEnds = filter (\<lambda>t. t \<in> set nodes) ts in
      if length ts = 0 then Inl (GoError ''no destinations provided'')
      else if s \<notin> set nodes then Inl (GoError ''start node not found in graph'')
      else if length validEnds = 0 then Inl (GoError ''no valid destinations found in graph'')
      else let d1 = d\<lparr>fs_capacity := real (length validEnds * fs_flowsPerDest d)\<rparr>;
               d2 = d1\<lparr>fs_Uhot := computePercentile d1 90\<rparr>
           in bindr (computeThetaLForDestinations d2 s validEnds) (\<lambda>d.
                let c = foldl (initial_dest d s)
                      \<lparr>cm_g = buildResidualGraphWithCapacity d, cm_all = [], cm_count = [], cm_used = [],
                       cm_acc = NewPathAccumulator, cm_best = [], cm_bestScore = 0, cm_rand = r, cm_own = fs_rng d\<rparr> validEnds
                in if length (cm_all c) = 0 then Inl (GoError ''no feasible path found'')
                   else Inr (map (\<lambda>pw. \<lparr>Hops = pw_path pw, Rtt = pw_latency pw, RawRTT = pw_latency pw\<rparr>)
                          (cm_best (carousel_optimize d s validEnds c)))))"

subsection \<open>Invariants\<close>

text \<open>Two nodes with an edge in one of the directions.\<close>

definition link :: "resgraph \<Rightarrow> string \<Rightarrow> string \<Rightarrow> bool" where
  "link g u v = (rg_edge g u v \<noteq> None \<or> rg_edge g v u \<noteq> None)"

definition linked :: "resgraph \<Rightarrow> string list \<Rightarrow> bool" where
  "linked g p = (\<forall>(u, v) \<in> set (path_steps p). link g u v)"

text \<open>The accounts of an edge.\<close>

definition flow_ok :: "resgraph \<Rightarrow> bool" where
  "flow_ok g = (\<forall>u v ef. rg_edge g u v = Some ef \<longrightarrow> 0 \<le> ef_flow ef \<and> ef_residual ef = ef_effCap ef - ef_flow ef)"

text \<open>A path that the search may return.\<close>

definition cg_goal :: "cg_query \<Rightarrow> string \<Rightarrow> string list \<Rightarrow> real \<Rightarrow> bool" where
  "cg_goal q s p lat = (hd p = s \<and> last p = cq_t q \<and> distinct p \<and> length p \<le> 30 \<and> linked (cq_g q) p \<and> lat \<le> cq_thetaL q)"

definition cg_inv :: "cg_query \<Rightarrow> string \<Rightarrow> cg_state \<Rightarrow> bool" where
  "cg_inv q s st = ((\<forall>n. flag (cg_visited st) n \<longleftrightarrow> n \<in> set (cg_path st)) \<and> rand_ok (cg_rng st)
     \<and> (\<forall>p. cg_bestPath st = Some p \<longrightarrow> cg_goal q s p (cg_bestLatency st)))"

definition cg_reach :: "cg_query \<Rightarrow> string \<Rightarrow> nat \<Rightarrow> string list \<Rightarrow> bool" where
  "cg_reach q s n p = (distinct p \<and> hd p = s \<and> linked (cq_g q) p \<and> length p + n = 31)"

section \<open>Lemmas: the residual graph\<close>

lemma rg_edge_set [simp]: "rg_edge (rg_set g u v ef) u' v' = (if u' = u \<and> v' = v then Some ef else rg_edge g u' v')"
  by (auto simp: rg_edge_def rg_set_def update_conv' split: option.splits)

lemma rg_edge_map: "rg_edge (rg_map f g u v) u' v' = (if u' = u \<and> v' = v then map_option f (rg_edge g u v) else rg_edge g u' v')"
  by (auto simp: rg_map_def split: option.splits)

lemma rg_edge_unban: "rg_edge (unbanAllEdges g) u v = map_option (\<lambda>ef. ef\<lparr>ef_banned := False\<rparr>) (rg_edge g u v)"
proof -
  have m: "map_of (map (\<lambda>(k, x). (k, f x)) xs) k = map_option f (map_of xs k)" for f :: "'b \<Rightarrow> 'c" and xs :: "(string \<times> 'b) list" and k
    by (induction xs) auto
  show ?thesis by (auto simp: rg_edge_def unbanAllEdges_def m split: option.splits)
qed

text \<open>A property of edge states that the updates keep is kept by every update along a path.\<close>

lemma path_update_keeps:
  assumes "\<And>u v ef. rg_edge g u v = Some ef \<Longrightarrow> P u v ef" "\<And>u v ef. P u v ef \<Longrightarrow> P u v (f ef)"
    "rg_edge (foldl (\<lambda>g (u, v). rg_map f g u v) g steps) u v = Some ef"
  shows "P u v ef"
  using assms(1, 3)
proof (induction steps arbitrary: g)
  case (Cons uv steps)
  obtain a b where ab: "uv = (a, b)" by fastforce
  have "P x y e" if "rg_edge (rg_map f g a b) x y = Some e" for x y e
    using that Cons.prems(1) assms(2) by (auto simp: rg_edge_map split: if_splits)
  then show ?case using Cons.IH [of "rg_map f g a b"] Cons.prems(2) ab by simp
qed simp

lemma rg_map_dom: "rg_edge (rg_map f g a b) u v = None \<longleftrightarrow> rg_edge g u v = None"
  by (simp add: rg_edge_map)

lemma path_update_dom: "rg_edge (foldl (\<lambda>g (u, v). rg_map f g u v) g steps) u v = None \<longleftrightarrow> rg_edge g u v = None"
  by (induction steps arbitrary: g) (simp_all add: case_prod_unfold rg_map_dom)

lemmas update_defs = allocateFlow_def releaseFlow_def banPathEdges_def banEdge_def

lemma update_dom [simp]:
  "rg_edge (allocateFlow g p x) u v = None \<longleftrightarrow> rg_edge g u v = None" "rg_edge (releaseFlow g p x) u v = None \<longleftrightarrow> rg_edge g u v = None"
  "rg_edge (banPathEdges g p) u v = None \<longleftrightarrow> rg_edge g u v = None" "rg_edge (banEdge g a b) u v = None \<longleftrightarrow> rg_edge g u v = None"
  "rg_edge (unbanAllEdges g) u v = None \<longleftrightarrow> rg_edge g u v = None"
  by (simp_all add: update_defs path_update_dom rg_edge_map rg_edge_unban)

lemma build_dom:
  "rg_edge (buildResidualGraphWithCapacity d) u v \<noteq> None \<longleftrightarrow> (\<exists>e \<in> set (fs_edges d). SourceIp e = u \<and> DestinationIp e = v)"
proof -
  have "rg_edge (foldl (\<lambda>g e. rg_set g (SourceIp e) (DestinationIp e) (new_flow d e)) g es) u v \<noteq> None
     \<longleftrightarrow> rg_edge g u v \<noteq> None \<or> (\<exists>e \<in> set es. SourceIp e = u \<and> DestinationIp e = v)" for g es
    by (induction es arbitrary: g) (auto split: if_splits)
  then show ?thesis by (simp add: buildResidualGraphWithCapacity_def rg_edge_def)
qed

lemma linked_cong: "(\<And>u v. rg_edge g u v = None \<longleftrightarrow> rg_edge g' u v = None) \<Longrightarrow> linked g p \<longleftrightarrow> linked g' p"
  by (simp add: linked_def link_def)

lemma linked_snoc: "linked g (p @ [u]) \<Longrightarrow> link g u v \<Longrightarrow> linked g (p @ [u, v])"
proof -
  have "path_steps (p @ [u, v]) = path_steps (p @ [u]) @ [(u, v)]"
    by (induction p rule: induct_list012) (simp_all add: path_steps_def)
  then show "linked g (p @ [u]) \<Longrightarrow> link g u v \<Longrightarrow> linked g (p @ [u, v])" by (auto simp: linked_def)
qed

lemma sorted_edges_link:
  assumes "ei \<in> set (getSortedEdges d g u)"
  shows "link g u (ei_to ei)"
proof -
  consider "ei \<in> set (forward_edges d g u)" | "ei \<in> set (backward_edges d g u)" using assms by (auto simp: getSortedEdges_def)
  then show ?thesis
  proof cases
    case 1
    then obtain v ef where v: "(v, ef) \<in> set (gm_list g u)" "ei_to ei = v" by (auto simp: forward_edges_def)
    then obtain m where "gm_get g u = Some m" "(v, ef) \<in> set m" by (cases "gm_get g u") (auto simp: gm_list_def)
    then have "gm_get m v \<noteq> None" using weak_map_of_SomeI [of v ef m] by auto
    then show ?thesis using v(2) \<open>gm_get g u = Some m\<close> by (simp add: link_def rg_edge_def)
  next
    case 2
    then show ?thesis by (auto simp: backward_edges_def link_def map_filter_def split: option.splits if_splits)
  qed
qed

section \<open>Lemmas: the search\<close>

lemma cg_loop_inv:
  assumes IH: "\<And>v lat st. cg_inv q s st \<Longrightarrow> cg_reach q s n (cg_path st @ [v]) \<Longrightarrow> cg_inv q s (snd (rec v lat st)) \<and> cg_path (snd (rec v lat st)) = cg_path st"
    and "cg_inv q s st" "cg_reach q s (Suc n) (cg_path st)" "cg_path st = p @ [u]" "\<forall>ei \<in> set eis. link (cq_g q) u (ei_to ei)"
  shows "cg_inv q s (snd (cg_loop rec q lat eis found st)) \<and> cg_path (snd (cg_loop rec q lat eis found st)) = cg_path st"
  using assms(2-)
proof (induction eis arbitrary: found st)
  case (Cons ei eis)
  note pre = Cons.prems
  show ?case
  proof (cases "flag (cg_visited st) (ei_to ei)")
    case True
    then show ?thesis using Cons by simp
  next
    case False
    have reach: "cg_reach q s n (cg_path st @ [ei_to ei])"
      using pre False linked_snoc [of "cq_g q" p u "ei_to ei"] by (auto simp: cg_reach_def cg_inv_def hd_append)
    let ?st = "snd (rec (ei_to ei) (lat + ei_cost ei) st)"
    have r: "cg_inv q s ?st" "cg_path ?st = cg_path st" using IH [OF pre(1) reach] by simp_all
    have l: "\<forall>ei \<in> set eis. link (cq_g q) u (ei_to ei)" using pre(4) by simp
    have pre': "cg_reach q s (Suc n) (cg_path ?st)" "cg_path ?st = p @ [u]" using pre(2, 3) by (simp_all only: r(2))
    note I = Cons.IH [OF pre(1-3) l] and I' = Cons.IH [OF r(1) pre' l, unfolded r(2)]
    show ?thesis using I I' r False by (simp only: cg_loop.simps case_prod_unfold Let_def if_False snd_conv simp_thms split: if_split)
  qed
qed simp

lemma cg_arrive_inv:
  assumes "cg_inv q s st" "cg_reach q s (Suc n) (cg_path st @ [cq_t q])"
  shows "cg_inv q s (snd (cg_arrive q (cq_t q) lat st)) \<and> cg_path (snd (cg_arrive q (cq_t q) lat st)) = cg_path st"
proof -
  have "cg_goal q s (cg_path st @ [cq_t q]) lat" if "lat \<le> cq_thetaL q"
    using that assms(2) by (simp add: cg_goal_def cg_reach_def)
  then show ?thesis using assms(1) by (simp add: cg_arrive_def cg_inv_def Let_def)
qed

lemma cg_dfs_inv:
  assumes "cg_inv q s st" "cg_reach q s n (cg_path st @ [u])"
  shows "cg_inv q s (snd (cg_dfs n q u lat st)) \<and> cg_path (snd (cg_dfs n q u lat st)) = cg_path st"
  using assms
proof (induction n arbitrary: u lat st)
  case (Suc n)
  show ?case
  proof (cases "u = cq_t q")
    case True
    then show ?thesis using cg_arrive_inv [OF Suc.prems(1)] Suc.prems(2) by simp
  next
    case False
    let ?e = "getSortedEdges (cq_d q) (cq_g q) u"
    let ?er = "if cq_randomize q then rand_Shuffle ?e (cg_rng st) else (?e, cg_rng st)"
    define st1 where "st1 = st\<lparr>cg_visited := gm_set (cg_visited st) u True, cg_path := cg_path st @ [u], cg_rng := snd ?er\<rparr>"
    define l where "l = cg_loop (cg_dfs n q) q lat (fst ?er) False st1"
    have rok: "rand_ok (cg_rng st)" using Suc.prems(1) by (simp add: cg_inv_def)
    have er: "rand_ok (snd ?er)" "set (fst ?er) = set ?e" using rand_Shuffle_ok [OF rok, of ?e] rok by simp_all
    have p1: "cg_path st1 = cg_path st @ [u]" by (simp add: st1_def)
    have i: "cg_inv q s st1" using Suc.prems(1) er(1) by (simp add: cg_inv_def st1_def disj_commute)
    have r: "cg_reach q s (Suc n) (cg_path st1)" using Suc.prems(2) by (simp only: p1)
    have e: "\<forall>ei \<in> set (fst ?er). link (cq_g q) u (ei_to ei)" using sorted_edges_link unfolding er(2) by blast
    have "cg_inv q s (snd l) \<and> cg_path (snd l) = cg_path st1"
      unfolding l_def by (rule cg_loop_inv [OF _ i r p1 e]) (rule Suc.IH)
    then have l: "cg_inv q s (snd l)" "cg_path (snd l) = cg_path st @ [u]" by (simp_all only: p1)
    have nu: "u \<notin> set (cg_path st)" using Suc.prems(2) by (simp add: cg_reach_def)
    have "snd (cg_dfs (Suc n) q u lat st) = (snd l)\<lparr>cg_path := butlast (cg_path (snd l)), cg_visited := gm_set (cg_visited (snd l)) u False\<rparr>"
      using False by (simp add: Let_def case_prod_unfold l_def st1_def)
    then show ?thesis using l nu by (auto simp: cg_inv_def)
  qed
qed simp

lemma search_sound:
  assumes "rand_ok r"
  shows "rand_ok (snd (dfsPathSearch q s r))" "fst (dfsPathSearch q s r) = Some (p, lat) \<Longrightarrow> cg_goal q s p lat"
proof -
  define st0 where "st0 = \<lparr>cg_visited = [], cg_path = [], cg_bestPath = None, cg_bestLatency = cq_thetaL q + 1, cg_rng = r\<rparr>"
  have "cg_inv q s st0" by (simp add: cg_inv_def st0_def assms)
  moreover have "cg_reach q s 30 (cg_path st0 @ [s])" by (simp add: cg_reach_def st0_def linked_def path_steps_def)
  ultimately have "cg_inv q s (snd (cg_dfs 30 q s 0 st0))" using cg_dfs_inv by blast
  then show "rand_ok (snd (dfsPathSearch q s r))" "fst (dfsPathSearch q s r) = Some (p, lat) \<Longrightarrow> cg_goal q s p lat"
    unfolding dfsPathSearch_def cg_maxHops_def st0_def [symmetric] by (auto simp: cg_inv_def Let_def split: option.splits)
qed

lemma find_sound:
  assumes "rand_ok r" "findFeasiblePathWithLatency d g s t used attempt r = (po, r')"
  shows "rand_ok r'"
    "po = Some pw \<Longrightarrow> hd (pw_path pw) = s \<and> last (pw_path pw) = t \<and> distinct (pw_path pw) \<and> length (pw_path pw) \<le> 30
       \<and> linked g (pw_path pw) \<and> pw_dest pw = t \<and> pw_latency pw \<le> thetaL_of d t"
proof -
  define q where "q = \<lparr>cq_d = d, cq_g = g, cq_t = t, cq_thetaL = thetaL_of d t, cq_used = used,
    cq_optimize = (attempt \<le> 1), cq_randomize = (\<not> attempt \<le> 1)\<rparr>"
  have eq: "findFeasiblePathWithLatency d g s t used attempt r = (case gm_get g s of None \<Rightarrow> (None, r)
    | Some _ \<Rightarrow> (map_option (\<lambda>(p, lat). \<lparr>pw_path = p, pw_pathStr = join ''|'' p, pw_dest = t, pw_latency = lat\<rparr>) (fst (dfsPathSearch q s r)),
                 snd (dfsPathSearch q s r)))"
    unfolding findFeasiblePathWithLatency_def q_def by (simp add: case_prod_unfold map_option_case split: option.split)
  note c = search_sound [OF assms(1), of q s]
  show "rand_ok r'" using assms c(1) unfolding eq by (auto split: option.splits)
  assume "po = Some pw"
  then obtain p lat where p: "fst (dfsPathSearch q s r) = Some (p, lat)" "pw = \<lparr>pw_path = p, pw_pathStr = join ''|'' p, pw_dest = t, pw_latency = lat\<rparr>"
    using assms(2) unfolding eq by (auto split: option.splits)
  then show "hd (pw_path pw) = s \<and> last (pw_path pw) = t \<and> distinct (pw_path pw) \<and> length (pw_path pw) \<le> 30
       \<and> linked g (pw_path pw) \<and> pw_dest pw = t \<and> pw_latency pw \<le> thetaL_of d t"
    using c(2) [OF p(1)] by (simp add: cg_goal_def q_def)
qed

end
