(* ===== verification/Carousel_Flow.thy ===== *)
theory Carousel_Flow
  imports Carousel
begin

text \<open>
  The invariant of the greedy multi-destination solver of \<^verbatim>\<open>Carousel\<close>, kept by every operation on its state: the
  accounts of the residual graph, the set of used paths and the counters per destination agree with the
  current list of paths. From it come the guarantees for the answer.
\<close>

section \<open>Definitions\<close>

definition either_way :: "Edge list \<Rightarrow> string \<Rightarrow> string \<Rightarrow> bool" where
  "either_way es u v = (\<exists>e \<in> set es. (SourceIp e, DestinationIp e) \<in> {(u, v), (v, u)})"

definition pw_ok :: "FlowOptimizationSolver \<Rightarrow> string \<Rightarrow> string list \<Rightarrow> PathWithInfo \<Rightarrow> bool" where
  "pw_ok d s ts pw = (hd (pw_path pw) = s \<and> last (pw_path pw) = pw_dest pw \<and> pw_dest pw \<in> set ts \<and> distinct (pw_path pw)
     \<and> length (pw_path pw) \<le> 30 \<and> (\<forall>(u, v) \<in> set (path_steps (pw_path pw)). either_way (fs_edges d) u v)
     \<and> pw_latency pw \<le> thetaL_of d (pw_dest pw))"

definition to_dest :: "string \<Rightarrow> PathWithInfo list \<Rightarrow> nat" where
  "to_dest t lst = length (filter (\<lambda>pw. pw_dest pw = t) lst)"

definition sol :: "FlowOptimizationSolver \<Rightarrow> string \<Rightarrow> string list \<Rightarrow> PathWithInfo list \<Rightarrow> bool" where
  "sol d s ts lst = ((\<forall>pw \<in> set lst. pw_ok d s ts pw) \<and> distinct (map (path_str \<circ> pw_path) lst)
     \<and> (\<forall>t. to_dest t lst \<le> fs_flowsPerDest d))"

definition graph_for :: "FlowOptimizationSolver \<Rightarrow> resgraph \<Rightarrow> bool" where
  "graph_for d g = (flow_ok g \<and> (\<forall>u v. rg_edge g u v \<noteq> None \<longleftrightarrow> (\<exists>e \<in> set (fs_edges d). SourceIp e = u \<and> DestinationIp e = v)))"

definition cm_inv :: "FlowOptimizationSolver \<Rightarrow> string \<Rightarrow> string list \<Rightarrow> carousel \<Rightarrow> bool" where
  "cm_inv d s ts c = (rand_ok (cm_rand c) \<and> rand_ok (cm_own c) \<and> graph_for d (cm_g c) \<and> sol d s ts (cm_all c)
     \<and> (\<forall>x. flag (cm_used c) x \<longleftrightarrow> x \<in> (path_str \<circ> pw_path) ` set (cm_all c))
     \<and> (\<forall>t. gm_int (cm_count c) t = int (to_dest t (cm_all c))))"

definition best_inv :: "FlowOptimizationSolver \<Rightarrow> string \<Rightarrow> string list \<Rightarrow> carousel \<Rightarrow> bool" where
  "best_inv d s ts c = (sol d s ts (cm_best c) \<and> cm_best c \<noteq> [])"

text \<open>The latency allowed to a destination: one and a half times the mean of the shortest paths, or 100 without any.\<close>

definition latency_bound :: "Edge list \<Rightarrow> string \<Rightarrow> string \<Rightarrow> real" where
  "latency_bound es s t =
     (case KS_Computing (NewKShortestSolverWithLatency es 3 True) s t of
        Inl _ \<Rightarrow> 100
      | Inr ps \<Rightarrow> if ps = [] then 100 else sum_list (map Rtt ps) / real (length ps) * (3 / 2))"

text \<open>A network of five edges in which the solver uses a link against its direction.\<close>

definition cg_edge :: "string \<Rightarrow> string \<Rightarrow> real \<Rightarrow> Edge" where
  "cg_edge u v w = \<lparr>SourceIp = u, DestinationIp = v, EdgeWeight = w, Load = 0, Latency = w, Loss = 0\<rparr>"

definition cg_edges :: "Edge list" where
  "cg_edges = [cg_edge ''s'' ''a'' 2, cg_edge ''a'' ''b'' 1, cg_edge ''b'' ''t'' 1, cg_edge ''s'' ''b'' 1, cg_edge ''a'' ''u'' 1]"

section \<open>Lemmas: the residual graph\<close>

lemma flow_ok_update:
  assumes "flow_ok g" "\<And>ef. 0 \<le> ef_flow ef \<Longrightarrow> ef_residual ef = ef_effCap ef - ef_flow ef \<Longrightarrow> 0 \<le> ef_flow (f ef) \<and> ef_residual (f ef) = ef_effCap (f ef) - ef_flow (f ef)"
  shows "flow_ok (foldl (\<lambda>g (u, v). rg_map f g u v) g steps)"
  unfolding flow_ok_def
proof (intro allI impI)
  fix u v ef
  assume "rg_edge (foldl (\<lambda>g (u, v). rg_map f g u v) g steps) u v = Some ef"
  then show "0 \<le> ef_flow ef \<and> ef_residual ef = ef_effCap ef - ef_flow ef"
    by (rule path_update_keeps [where P = "\<lambda>u v ef. 0 \<le> ef_flow ef \<and> ef_residual ef = ef_effCap ef - ef_flow ef", rotated 2])
      (use assms in \<open>auto simp: flow_ok_def\<close>)
qed

lemma graph_for_updates:
  assumes "graph_for d g"
  shows "0 \<le> x \<Longrightarrow> graph_for d (allocateFlow g p x)" "graph_for d (releaseFlow g p x)" "graph_for d (banPathEdges g p)"
    "graph_for d (banEdge g u v)" "graph_for d (unbanAllEdges g)"
proof -
  have f: "flow_ok g" and e: "\<And>u v. rg_edge g u v \<noteq> None \<longleftrightarrow> (\<exists>e \<in> set (fs_edges d). SourceIp e = u \<and> DestinationIp e = v)"
    using assms by (simp_all add: graph_for_def)
  have "flow_ok (allocateFlow g p x)" if "0 \<le> x"
    unfolding allocateFlow_def using that by (intro flow_ok_update [OF f]) (simp add: add_flow_def updateResidual_def)
  then show "0 \<le> x \<Longrightarrow> graph_for d (allocateFlow g p x)" using e by (simp add: graph_for_def)
  have "flow_ok (releaseFlow g p x)"
    unfolding releaseFlow_def by (intro flow_ok_update [OF f]) (simp add: sub_flow_def updateResidual_def)
  then show "graph_for d (releaseFlow g p x)" using e by (simp add: graph_for_def)
  have "flow_ok (banPathEdges g p)"
    unfolding banPathEdges_def banEdge_def by (intro flow_ok_update [OF f]) simp
  then show "graph_for d (banPathEdges g p)" using e by (simp add: graph_for_def)
  have "flow_ok (banEdge g u v)"
    unfolding banEdge_def using flow_ok_update [OF f, of "\<lambda>ef. ef\<lparr>ef_banned := True\<rparr>" "[(u, v)]"] by simp
  then show "graph_for d (banEdge g u v)" using e by (simp add: graph_for_def)
  have "flow_ok (unbanAllEdges g)" using f by (auto simp: flow_ok_def rg_edge_unban)
  then show "graph_for d (unbanAllEdges g)" using e by (simp add: graph_for_def)
qed

lemma graph_for_build: "graph_for d (buildResidualGraphWithCapacity d)"
proof -
  let ?P = "\<lambda>g. \<forall>u v ef. rg_edge g u v = Some ef \<longrightarrow> 0 \<le> ef_flow ef \<and> ef_residual ef = ef_effCap ef - ef_flow ef"
  have step: "?P g \<Longrightarrow> ?P (foldl (\<lambda>g e. rg_set g (SourceIp e) (DestinationIp e) (new_flow d e)) g es)" for g es
  proof (induction es arbitrary: g)
    case (Cons e es)
    have "?P (rg_set g (SourceIp e) (DestinationIp e) (new_flow d e))" using Cons.prems by (auto simp: new_flow_def Let_def)
    then show ?case unfolding foldl_Cons by (rule Cons.IH)
  qed simp
  have "?P []" by (simp add: rg_edge_def)
  then have "?P (buildResidualGraphWithCapacity d)" unfolding buildResidualGraphWithCapacity_def by (rule step)
  then show ?thesis unfolding graph_for_def flow_ok_def using build_dom by blast
qed

lemma graph_for_either: "graph_for d g \<Longrightarrow> link g u v \<longleftrightarrow> either_way (fs_edges d) u v"
  unfolding graph_for_def link_def either_way_def by (simp only:) blast

lemma found_ok:
  assumes "graph_for d g" "rand_ok r" "findFeasiblePathWithLatency d g s t used attempt r = (Some pw, r')" "t \<in> set ts"
  shows "pw_ok d s ts pw \<and> pw_dest pw = t"
  using find_sound(2) [OF assms(2, 3) refl] assms(4) by (simp add: pw_ok_def linked_def graph_for_either [OF assms(1)])

section \<open>Lemmas: the state of the solver\<close>

lemma to_dest_simps:
  "to_dest t [] = 0" "to_dest t (pw # l) = (if pw_dest pw = t then 1 else 0) + to_dest t l" "to_dest t (l @ [pw]) = to_dest t l + (if pw_dest pw = t then 1 else 0)"
  by (simp_all add: to_dest_def)

lemma gm_int_set [simp]: "gm_int (gm_set m k x) n = (if n = k then x else gm_int m n)"
  by (simp add: gm_int_def update_conv')

lemma take_path_inv:
  assumes "cm_inv d s ts c" "pw_ok d s ts pw" "pw_dest pw = t" "\<not> flag (cm_used c) (path_str (pw_path pw))" "to_dest t (cm_all c) < fs_flowsPerDest d"
  shows "cm_inv d s ts (take_path pw t c)"
proof -
  have sol: "sol d s ts (cm_all c)" using assms(1) by (simp add: cm_inv_def)
  have "path_str (pw_path pw) \<notin> (path_str \<circ> pw_path) ` set (cm_all c)" using assms(1, 4) by (simp add: cm_inv_def)
  then have "distinct (map (path_str \<circ> pw_path) (cm_all c @ [pw]))" using sol by (simp add: sol_def image_comp)
  moreover have "to_dest t' (cm_all c @ [pw]) \<le> fs_flowsPerDest d" for t'
    using sol assms(3, 5) by (cases "t' = t") (simp_all add: sol_def to_dest_simps)
  ultimately have "sol d s ts (cm_all c @ [pw])" using sol assms(2) by (simp add: sol_def)
  then show ?thesis using assms(1, 3) graph_for_updates(1) [of d "cm_g c" 1 "pw_path pw"]
    by (simp add: cm_inv_def take_path_def to_dest_simps)
qed

lemma drop_oldest_inv:
  assumes "cm_inv d s ts c"
  shows "cm_inv d s ts (drop_oldest c)" "cm_best (drop_oldest c) = cm_best c"
proof -
  show "cm_inv d s ts (drop_oldest c)"
  proof (cases "cm_all c")
    case (Cons pw rest)
    have sol: "sol d s ts (pw # rest)" using assms by (simp add: cm_inv_def Cons)
    have "to_dest t rest \<le> fs_flowsPerDest d" for t
    proof -
      have "to_dest t (pw # rest) \<le> fs_flowsPerDest d" using sol by (simp add: sol_def)
      then show ?thesis by (simp add: to_dest_simps)
    qed
    then have "sol d s ts rest" using sol by (simp add: sol_def)
    moreover have "path_str (pw_path x) \<noteq> path_str (pw_path pw)" if "x \<in> set rest" for x
      using sol imageI [OF that, of "path_str \<circ> pw_path"] by (auto simp: sol_def)
    ultimately show ?thesis using assms graph_for_updates(2) [of d "cm_g c" "pw_path pw" 1]
      by (auto simp: cm_inv_def drop_oldest_def Cons to_dest_simps)
  qed (use assms in \<open>simp add: drop_oldest_def\<close>)
  show "cm_best (drop_oldest c) = cm_best c" by (simp add: drop_oldest_def split: list.split)
qed

lemma drop_many_inv:
  "cm_inv d s ts c \<Longrightarrow> cm_inv d s ts (drop_many n c) \<and> cm_best (drop_many n c) = cm_best c"
  by (induction n arbitrary: c) (simp_all add: drop_oldest_inv)

lemma initial_paths_inv:
  assumes "cm_inv d s ts c" "t \<in> set ts" "i = to_dest t (cm_all c)"
  shows "cm_inv d s ts (initial_paths left attempts i d s t c)
    \<and> (\<forall>t'. t' \<noteq> t \<longrightarrow> to_dest t' (cm_all (initial_paths left attempts i d s t c)) = to_dest t' (cm_all c))"
  using assms
proof (induction left arbitrary: attempts i c)
  case (Suc left)
  obtain po r where f: "findFeasiblePathWithLatency d (cm_g c) s t (cm_used c) (Suc attempts) (cm_rand c) = (po, r)" by fastforce
  have rok: "rand_ok (cm_rand c)" and gf: "graph_for d (cm_g c)" using Suc.prems(1) by (simp_all add: cm_inv_def)
  have inv: "cm_inv d s ts (c\<lparr>cm_rand := r\<rparr>)" using Suc.prems(1) find_sound(1) [OF rok f] by (simp add: cm_inv_def)
  show ?case
  proof (cases "i < fs_flowsPerDest d")
    case i: True
    show ?thesis
    proof (cases po)
      case None
      then show ?thesis using i f inv by simp
    next
      case (Some pw)
      have ok: "pw_ok d s ts pw" "pw_dest pw = t" using found_ok [OF gf rok f [unfolded Some] Suc.prems(2)] by simp_all
      show ?thesis
      proof (cases "flag (cm_used c) (path_str (pw_path pw))")
        case True
        then show ?thesis using Suc.IH [OF inv Suc.prems(2), of i "Suc attempts"] Suc.prems(3) i f Some by simp
      next
        case False
        have t: "cm_inv d s ts (take_path pw t (c\<lparr>cm_rand := r\<rparr>))"
          using take_path_inv [OF inv ok] False i Suc.prems(3) by simp
        have "Suc i = to_dest t (cm_all (take_path pw t (c\<lparr>cm_rand := r\<rparr>)))" using ok(2) Suc.prems(3) by (simp add: take_path_def to_dest_simps)
        then show ?thesis using Suc.IH [OF t Suc.prems(2), of "Suc i" "Suc attempts"] False ok(2) i f Some
          by (simp add: take_path_def to_dest_simps)
      qed
    qed
  qed (use Suc.prems in simp)
qed simp

lemma initial_dests_inv:
  assumes "cm_inv d s ts c" "set us \<subseteq> set ts" "distinct us" "\<forall>t \<in> set us. to_dest t (cm_all c) = 0"
  shows "cm_inv d s ts (foldl (initial_dest d s) c us)"
  using assms
proof (induction us arbitrary: c)
  case (Cons t us)
  have i: "cm_inv d s ts (initial_dest d s c t) \<and> (\<forall>t'. t' \<noteq> t \<longrightarrow> to_dest t' (cm_all (initial_dest d s c t)) = to_dest t' (cm_all c))"
    unfolding initial_dest_def using Cons.prems by (intro initial_paths_inv) simp_all
  have "\<forall>t' \<in> set us. to_dest t' (cm_all (initial_dest d s c t)) = 0" using i Cons.prems(3, 4) by auto
  then show ?case using Cons.IH [of "initial_dest d s c t"] i Cons.prems(2, 3) by simp
qed simp

lemma try_ends_inv:
  assumes "cm_inv d s ts c" "set us \<subseteq> set ts"
  shows "cm_inv d s ts (try_ends d s attempt us c) \<and> cm_best (try_ends d s attempt us c) = cm_best c"
  using assms
proof (induction us arbitrary: c)
  case (Cons t us)
  obtain po r where f: "findFeasiblePathWithLatency d (cm_g c) s t (cm_used c) attempt (cm_rand c) = (po, r)" by fastforce
  have rok: "rand_ok (cm_rand c)" and gf: "graph_for d (cm_g c)" and cnt: "gm_int (cm_count c) t = int (to_dest t (cm_all c))"
    using Cons.prems(1) by (simp_all add: cm_inv_def)
  have inv: "cm_inv d s ts (c\<lparr>cm_rand := r\<rparr>)" using Cons.prems(1) find_sound(1) [OF rok f] by (simp add: cm_inv_def)
  note IH = Cons.IH [OF Cons.prems(1)] Cons.IH [OF inv]
  show ?case
  proof (cases "gm_int (cm_count c) t \<ge> int (fs_flowsPerDest d)")
    case True
    then show ?thesis using IH(1) Cons.prems(2) by simp
  next
    case False
    show ?thesis
    proof (cases "\<exists>pw. po = Some pw \<and> \<not> flag (cm_used c) (path_str (pw_path pw))")
      case True
      then obtain pw where pw: "po = Some pw" "\<not> flag (cm_used c) (path_str (pw_path pw))" by blast
      have ok: "pw_ok d s ts pw" "pw_dest pw = t" using found_ok [OF gf rok f [unfolded pw(1)], of ts] Cons.prems(2) by simp_all
      let ?c = "c\<lparr>cm_rand := r, cm_acc := AddPath (cm_acc c) pw\<rparr>"
      have inv2: "cm_inv d s ts ?c" using inv by (simp add: cm_inv_def)
      have "cm_inv d s ts (take_path pw t ?c)" using False cnt pw(2) by (intro take_path_inv [OF inv2 ok]) simp_all
      then show ?thesis using False f pw by (simp add: take_path_def)
    next
      case no: False
      then show ?thesis using False f IH(2) Cons.prems(2) by (cases po) (simp_all add: Let_def)
    qed
  qed
qed simp

lemma copyPathList_id [simp]: "copyPathList l = l"
  unfolding copyPathList_def by (induction l) simp_all

lemma ban_phase_inv:
  assumes "cm_inv d s ts c"
  shows "cm_inv d s ts (ban_phase oldest c)" "cm_best (ban_phase oldest c) = cm_best c"
  using assms by (auto simp: ban_phase_def cm_inv_def Let_def intro: graph_for_updates split: option.split)

lemma keep_best_inv:
  "cm_inv d s ts c \<Longrightarrow> best_inv d s ts c \<Longrightarrow> cm_inv d s ts (keep_best c) \<and> best_inv d s ts (keep_best c)"
  by (auto simp: keep_best_def cm_inv_def best_inv_def Let_def)

lemma carousel_step_inv:
  assumes "cm_inv d s ts c" "best_inv d s ts c"
  shows "cm_inv d s ts (carousel_step d s ts i c) \<and> best_inv d s ts (carousel_step d s ts i c)"
proof -
  define c1 where "c1 = ban_phase (hd (cm_all c)) (drop_oldest c)"
  obtain us r where sh: "rand_Shuffle ts (cm_own c1) = (us, r)" by fastforce
  define c2 where "c2 = try_ends d s (i + 1) us (c1\<lparr>cm_own := r\<rparr>)"
  have c1: "cm_inv d s ts c1" "cm_best c1 = cm_best c"
    unfolding c1_def using ban_phase_inv [OF drop_oldest_inv(1) [OF assms(1)]] drop_oldest_inv(2) [OF assms(1)] by simp_all
  then have "rand_ok (cm_own c1)" by (simp add: cm_inv_def)
  note r = rand_Shuffle_ok [OF this, of ts, unfolded sh]
  have "cm_inv d s ts (c1\<lparr>cm_own := r\<rparr>)" using c1(1) r by (simp add: cm_inv_def)
  moreover have "set us \<subseteq> set ts" using r by simp
  ultimately have c2: "cm_inv d s ts c2" "cm_best c2 = cm_best c"
    using try_ends_inv [of d s ts "c1\<lparr>cm_own := r\<rparr>" us "i + 1"] c1(2) by (simp_all add: c2_def)
  have "cm_inv d s ts (c2\<lparr>cm_g := unbanAllEdges (cm_g c2)\<rparr>)" using c2(1) graph_for_updates(5) by (simp add: cm_inv_def)
  moreover have "best_inv d s ts (c2\<lparr>cm_g := unbanAllEdges (cm_g c2)\<rparr>)" using assms(2) c2(2) by (simp add: best_inv_def)
  moreover have "carousel_step d s ts i c = keep_best (c2\<lparr>cm_g := unbanAllEdges (cm_g c2)\<rparr>)"
    unfolding carousel_step_def Let_def c1_def [symmetric] sh prod.case c2_def ..
  ultimately show ?thesis using keep_best_inv by metis
qed

lemma carousel_loop_inv:
  "cm_inv d s ts c \<Longrightarrow> best_inv d s ts c \<Longrightarrow> best_inv d s ts (carousel_loop n i d s ts c)"
  by (induction n arbitrary: i c) (simp_all add: carousel_step_inv)

lemma carousel_optimize_inv:
  assumes "cm_inv d s ts c" "cm_all c \<noteq> []"
  shows "best_inv d s ts (carousel_optimize d s ts c)"
proof -
  define c1 where "c1 = c\<lparr>cm_acc := foldl AddPath NewPathAccumulator (cm_all c), cm_best := copyPathList (cm_all c), cm_bestScore := objective (cm_all c) (cm_g c)\<rparr>"
  have c1: "cm_inv d s ts c1" "best_inv d s ts c1" using assms by (simp_all add: c1_def cm_inv_def best_inv_def)
  have "best_inv d s ts (drop_many n c1)" for n using drop_many_inv [OF c1(1), of n] c1(2) by (simp add: best_inv_def)
  then show ?thesis
    unfolding carousel_optimize_def Let_def c1_def [symmetric] using drop_many_inv [OF c1(1)] by (blast intro: carousel_loop_inv)
qed

section \<open>Lemmas: the latency bounds\<close>

lemma thetaL_loop_ok:
  assumes "edges_ok ksp (ks_edges ksp)" "ksp = NewKShortestSolverWithLatency es 3 True"
  shows "\<exists>m'. thetaL_loop ksp s ts m = Inr m' \<and> (\<forall>t. gm_get m' t = (if t \<in> set ts then Some (latency_bound es s t) else gm_get m t))"
proof (induction ts arbitrary: m)
  case (Cons t ts)
  have k: "0 < ks_k ksp" by (simp add: assms(2) NewKShortestSolverWithLatency_def)
  let ?b = "latency_bound es s t"
  have "thetaL_loop ksp s (t # ts) m = thetaL_loop ksp s ts (gm_set m t ?b)"
    using KS_Computing_correct [OF assms(1) k, of s t] unfolding latency_bound_def assms(2) [symmetric]
    by (auto simp: Let_def split: sum.splits fault.splits)
  then show ?case using Cons.IH [of "gm_set m t ?b"] by (auto simp: update_conv')
qed simp

lemma sol_answer:
  assumes "sol d s us best" "set us \<subseteq> set ts" "\<And>t. t \<in> set us \<Longrightarrow> thetaL_of d t = latency_bound (fs_edges d) s t"
  shows "distinct (map pw_path best)" "length (filter (\<lambda>pw. last (pw_path pw) = t) best) \<le> fs_flowsPerDest d"
    "\<forall>pw \<in> set best. hd (pw_path pw) = s \<and> last (pw_path pw) \<in> set ts \<and> distinct (pw_path pw) \<and> length (pw_path pw) \<le> 30
       \<and> (\<forall>(u, v) \<in> set (path_steps (pw_path pw)). either_way (fs_edges d) u v)
       \<and> pw_latency pw \<le> latency_bound (fs_edges d) s (last (pw_path pw))"
proof -
  have pw: "pw_ok d s us pw" if "pw \<in> set best" for pw using assms(1) that by (simp add: sol_def)
  have "distinct (map path_str (map pw_path best))" using assms(1) by (simp add: sol_def)
  then show "distinct (map pw_path best)" unfolding distinct_map by simp
  have "filter (\<lambda>pw. last (pw_path pw) = t) best = filter (\<lambda>pw. pw_dest pw = t) best"
    using pw by (intro filter_cong) (simp_all add: pw_ok_def)
  then show "length (filter (\<lambda>pw. last (pw_path pw) = t) best) \<le> fs_flowsPerDest d" using assms(1) by (simp add: sol_def to_dest_def)
  have th: "thetaL_of d (pw_dest pw) = latency_bound (fs_edges d) s (pw_dest pw)" "pw_dest pw \<in> set ts" if "pw \<in> set best" for pw
    using pw [OF that] assms(2, 3) by (auto simp: pw_ok_def)
  show "\<forall>pw \<in> set best. hd (pw_path pw) = s \<and> last (pw_path pw) \<in> set ts \<and> distinct (pw_path pw) \<and> length (pw_path pw) \<le> 30
       \<and> (\<forall>(u, v) \<in> set (path_steps (pw_path pw)). either_way (fs_edges d) u v)
       \<and> pw_latency pw \<le> latency_bound (fs_edges d) s (last (pw_path pw))"
    using pw th by (simp add: pw_ok_def)
qed

section \<open>Lemmas: updates along a path\<close>

lemma path_update_funpow:
  "rg_edge (foldl (\<lambda>g (u, v). rg_map f g u v) g steps) u v = map_option (f ^^ count_list steps (u, v)) (rg_edge g u v)"
proof (induction steps arbitrary: g)
  case (Cons uv steps)
  then show ?case
    by (cases uv) (auto simp: rg_edge_map option.map_comp comp_def funpow_swap1 simp del: funpow.simps(2)
        intro!: option.map_cong simp: funpow_Suc_right)
qed (simp add: option.map_id0 [unfolded id_def] id_def)

lemma sub_add_flow:
  assumes "0 \<le> x" "0 \<le> ef_flow ef" "ef_residual ef = ef_effCap ef - ef_flow ef"
  shows "(sub_flow x ^^ n) ((add_flow x ^^ n) ef) = ef"
proof (induction n)
  case (Suc n)
  have "0 \<le> ef_flow ((add_flow x ^^ n) ef) \<and> ef_residual ((add_flow x ^^ n) ef) = ef_effCap ((add_flow x ^^ n) ef) - ef_flow ((add_flow x ^^ n) ef)"
    using assms by (induction n) (simp_all add: add_flow_def updateResidual_def)
  then have "sub_flow x (add_flow x ((add_flow x ^^ n) ef)) = (add_flow x ^^ n) ef"
    by (simp add: sub_flow_def add_flow_def updateResidual_def)
  then show ?case using Suc by (simp add: funpow_swap1)
qed simp

section \<open>Lemmas: the answer\<close>

lemma CG_ComputingMulti_feasible:
  assumes "edges_ok (NewKShortestSolverWithLatency es 3 True) es" "rand_ok r" "rand_ok own" "distinct ts"
  shows "case CG_ComputingMulti (NewFlowOptimizationSolver own es) s ts r of
      Inr ps \<Rightarrow> ps \<noteq> [] \<and> distinct (map Hops ps) \<and> (\<forall>t. length (filter (\<lambda>p. last (Hops p) = t) ps) \<le> 2)
        \<and> (\<forall>p \<in> set ps. hd (Hops p) = s \<and> last (Hops p) \<in> set ts \<and> distinct (Hops p) \<and> length (Hops p) \<le> 30
             \<and> (\<forall>(u, v) \<in> set (path_steps (Hops p)). either_way es u v)
             \<and> RawRTT p \<le> latency_bound es s (last (Hops p)))
    | Inl (GoError m) \<Rightarrow> ts = [] \<or> s \<notin> set (graph_nodes es) \<or> set ts \<inter> set (graph_nodes es) = {} \<or> m = ''no feasible path found''
    | Inl _ \<Rightarrow> False"
proof (cases "ts = [] \<or> s \<notin> set (graph_nodes es) \<or> filter (\<lambda>t. t \<in> set (graph_nodes es)) ts = []")
  case True
  then show ?thesis by (auto simp: CG_ComputingMulti_def NewFlowOptimizationSolver_def Let_def filter_empty_conv)
next
  case False
  define us where "us = filter (\<lambda>t. t \<in> set (graph_nodes es)) ts"
  define d1 where "d1 = (NewFlowOptimizationSolver own es)\<lparr>fs_capacity := real (length us * 2)\<rparr>"
  define d2 where "d2 = d1\<lparr>fs_Uhot := computePercentile d1 90\<rparr>"
  obtain m where m: "thetaL_loop (NewKShortestSolverWithLatency es 3 True) s us [] = Inr m" "\<And>t. t \<in> set us \<Longrightarrow> gm_get m t = Some (latency_bound es s t)"
    using thetaL_loop_ok [OF _ refl, of es s us "[]"] assms(1) by (auto simp: NewKShortestSolverWithLatency_def)
  define d where "d = d2\<lparr>fs_thetaLMap := m\<rparr>"
  have d: "fs_edges d = es" "fs_rng d = own" "fs_flowsPerDest d = 2" "fs_thetaLMap d = m"
    by (simp_all add: d_def d2_def d1_def NewFlowOptimizationSolver_def)
  define c0 where "c0 = \<lparr>cm_g = buildResidualGraphWithCapacity d, cm_all = [], cm_count = [], cm_used = [], cm_acc = NewPathAccumulator, cm_best = [], cm_bestScore = 0, cm_rand = r, cm_own = fs_rng d\<rparr>"
  define c where "c = foldl (initial_dest d s) c0 us"
  have "computeThetaLForDestinations d2 s us = Inr d"
    using m(1) by (simp add: computeThetaLForDestinations_def d_def d2_def d1_def NewFlowOptimizationSolver_def)
  then have eq: "CG_ComputingMulti (NewFlowOptimizationSolver own es) s ts r =
      (if length (cm_all c) = 0 then Inl (GoError ''no feasible path found'')
       else Inr (map (\<lambda>pw. \<lparr>Hops = pw_path pw, Rtt = pw_latency pw, RawRTT = pw_latency pw\<rparr>) (cm_best (carousel_optimize d s us c))))"
    using False unfolding CG_ComputingMulti_def Let_def c_def c0_def d2_def d1_def us_def
    by (simp add: NewFlowOptimizationSolver_def)
  have "cm_inv d s us c0" using assms(2, 3) graph_for_build by (simp add: cm_inv_def c0_def d sol_def to_dest_def gm_int_def)
  then have inv: "cm_inv d s us c" using assms(4) unfolding c_def us_def by (intro initial_dests_inv) (simp_all add: c0_def to_dest_def)
  show ?thesis
  proof (cases "cm_all c = []")
    case True
    then show ?thesis by (simp add: eq)
  next
    case ne: False
    define best where "best = cm_best (carousel_optimize d s us c)"
    have b: "sol d s us best" "best \<noteq> []" using carousel_optimize_inv [OF inv ne] by (simp_all add: best_def best_inv_def)
    have "set us \<subseteq> set ts" "\<And>t. t \<in> set us \<Longrightarrow> thetaL_of d t = latency_bound (fs_edges d) s t"
      using m(2) by (auto simp: us_def thetaL_of_def d)
    note a = sol_answer [OF b(1) this, unfolded d]
    show ?thesis using ne b(2) a by (simp add: eq best_def [symmetric] comp_def filter_map)
  qed
qed

section \<open>Properties\<close>



text \<open>
  A path that the solver returns need not exist in the network: residual edges against the direction of a link
  that carries flow are followed as hops of the path. In the network of five links with s-b, b-t and a-u among them
  but no link from b to a, one of the returned paths goes from s over b and a to u.
\<close>

lemma carousel_missing_link:
  "(case CG_ComputingMulti (NewFlowOptimizationSolver ex_rng cg_edges) ''s'' [''t'', ''u''] ex_rng of
      Inr ps \<Rightarrow> [''s'', ''b'', ''a'', ''u''] \<in> set (map Hops ps)
    | Inl _ \<Rightarrow> False)
   \<and> \<not> (\<exists>e \<in> set cg_edges. SourceIp e = ''b'' \<and> DestinationIp e = ''a'')"
  by code_simp

text \<open>
  Releasing the flow of a path undoes its allocation: in a residual graph with consistent accounts every edge is as
  it was before, also one that the path uses more than once.
\<close>

lemma release_allocate:
  assumes "flow_ok g" "0 \<le> x"
  shows "rg_edge (releaseFlow (allocateFlow g path x) path x) u v = rg_edge g u v"
proof (cases "rg_edge g u v")
  case (Some ef)
  then have "0 \<le> ef_flow ef" "ef_residual ef = ef_effCap ef - ef_flow ef" using assms(1) by (auto simp: flow_ok_def)
  then show ?thesis using Some sub_add_flow [OF assms(2)] by (simp add: releaseFlow_def allocateFlow_def path_update_funpow)
qed simp

end
