(* ===== verification/Routing_Dispatch.thy ===== *)
theory Routing_Dispatch
  imports Edge_Routers Live_Net One_Wan Carousel_Flow
begin

text \<open>
  \<^verbatim>\<open>src/control-plane/routing/routing.go\<close>: the choice of the solver by the name of the algorithm and the three entry
  points of routing, over the current graph and statistics. An interface value is a solver or nil. The lookup of an
  address in the location service is the argument \<^term>\<open>fetch\<close>; the random sources are oracles.
\<close>

section \<open>Definitions\<close>

datatype ComputingMiddleInterface = Op_KShortest KShortestSolver | Op_LiveStyle LiveStyleSolver

record RoutingMiddleInterface =
  mi_Operate :: "ComputingMiddleInterface option"

definition InitMiddleInterface :: "GraphManager \<Rightarrow> string \<Rightarrow> RoutingMiddleInterface" where
  "InitMiddleInterface g algorithm =
     (let edges = GetEdges g in
      if algorithm = ''k_shortest'' then \<lparr>mi_Operate = Some (Op_KShortest (NewKShortestSolver edges 3))\<rparr>
      else if algorithm = ''live_style'' then \<lparr>mi_Operate = Some (Op_LiveStyle (NewLiveStyleSolver edges 2))\<rparr>
      else \<lparr>mi_Operate = None\<rparr>)"

fun middle_Computing :: "ComputingMiddleInterface option \<Rightarrow> string \<Rightarrow> string \<Rightarrow> PathInfo list result" where
  "middle_Computing (Some (Op_KShortest ks)) s t = KS_Computing ks s t"
| "middle_Computing (Some (Op_LiveStyle ls)) s t = LS_Computing ls s t"
| "middle_Computing None s t = Inl (GoPanic ''nil pointer dereference'')"

text \<open>An error of a solver becomes an empty routing; a panic goes on.\<close>

fun routing_of :: "PathInfo list result \<Rightarrow> RoutingInfo result" where
  "routing_of (Inr paths) = Inr \<lparr>Routing = paths\<rparr>"
| "routing_of (Inl (GoError _)) = Inr \<lparr>Routing = []\<rparr>"
| "routing_of (Inl f) = Inl f"

definition MiddleRouting :: "GraphManager \<Rightarrow> EndPoints \<Rightarrow> string \<Rightarrow> RoutingInfo result" where
  "MiddleRouting g endPoints algorithm =
     routing_of (middle_Computing (mi_Operate (InitMiddleInterface g algorithm)) (ep_IP (ep_Source endPoints)) (ep_IP (ep_Dest endPoints)))"

datatype ComputingLastInterface = Op_Lyapunov LyapunovSolver | Op_Joint JointRouter | Op_P2C P2CRouter | Op_EWMA EWMARouter

record RoutingLastInterface =
  li_Operate :: "ComputingLastInterface option"

definition InitLastInterface :: "GraphManager \<Rightarrow> GlobalStats \<Rightarrow> string \<Rightarrow> real \<Rightarrow> real \<Rightarrow> RoutingLastInterface" where
  "InitLastInterface g a algorithm cpuW latencyW =
     (let nodes = GetNodes g; aggr = GetAggMap a in
      if algorithm = ''lyapunov'' then \<lparr>li_Operate = Some (Op_Lyapunov (NewLyapunovSolver aggr nodes))\<rparr>
      else if algorithm = ''latency_only'' then \<lparr>li_Operate = Some (Op_Joint (SetWeights 0 1 (NewJointRouter aggr nodes)))\<rparr>
      else if algorithm = ''cpu_only'' then \<lparr>li_Operate = Some (Op_Joint (SetWeights 1 0 (NewJointRouter aggr nodes)))\<rparr>
      else if algorithm = ''joint_cpu_latency'' then
        (let router = NewJointRouter aggr nodes;
             router = (if cpuW \<ge> 0 \<and> latencyW \<ge> 0 then SetWeights cpuW latencyW router else router)
         in \<lparr>li_Operate = Some (Op_Joint router)\<rparr>)
      else if algorithm = ''p2c'' then \<lparr>li_Operate = Some (Op_P2C (NewP2CRouter nodes aggr))\<rparr>
      else if algorithm = ''ewma_based'' then
        (let router = NewEWMARouter nodes aggr;
             router = (if cpuW \<ge> 0 \<and> latencyW \<ge> 0 then SetAlpha cpuW latencyW router else router)
         in \<lparr>li_Operate = Some (Op_EWMA router)\<rparr>)
      else \<lparr>li_Operate = None\<rparr>)"

fun last_Computing :: "string \<Rightarrow> ComputingLastInterface option \<Rightarrow> EndPoints \<Rightarrow> PathInfo list result" where
  "last_Computing ip (Some (Op_Lyapunov l)) eps = Inr (Lyapunov_Computing ip l eps)"
| "last_Computing ip (Some (Op_Joint r)) eps = Inr (Joint_Computing ip r eps)"
| "last_Computing ip (Some (Op_P2C r)) eps = Inr (P2C_Computing ip r eps)"
| "last_Computing ip (Some (Op_EWMA r)) eps = Inr (fst (EWMA_Computing ip eps r))"
| "last_Computing ip None eps = Inl (GoPanic ''nil pointer dereference'')"

record IPInfoResult =
  ii_IP :: string
  ii_Country :: string
  ii_Continent :: string
  ii_Province :: string
  ii_City :: string
  ii_ISP :: string

definition GetIPInfo :: "(string \<Rightarrow> IPInfoResult result) \<Rightarrow> string \<Rightarrow> IPInfoResult result" where
  "GetIPInfo fetch ip = (if ip = [] then Inl (GoError ''ip is empty'') else fetch ip)"

definition located :: "IPInfoResult \<Rightarrow> EndPoints \<Rightarrow> EndPoints" where
  "located res eps = eps\<lparr>ep_Source := (ep_Source eps)\<lparr>ep_Country := ii_Country res, ep_City := ii_City res, ep_Continent := ii_Continent res\<rparr>\<rparr>"

definition LastRouting ::
  "(string \<Rightarrow> IPInfoResult result) \<Rightarrow> string \<Rightarrow> GraphManager \<Rightarrow> GlobalStats \<Rightarrow> EndPoints \<Rightarrow> string \<Rightarrow> real \<Rightarrow> real \<Rightarrow> RoutingInfo result" where
  "LastRouting fetch ip g a endPoints algorithm cpuW latencyW =
     (case GetIPInfo fetch (ep_IP (ep_Source endPoints)) of
        Inl (GoError _) \<Rightarrow> Inr \<lparr>Routing = []\<rparr>
      | Inl f \<Rightarrow> Inl f
      | Inr res \<Rightarrow>
          routing_of (last_Computing ip (li_Operate (InitLastInterface g a algorithm cpuW latencyW)) (located res endPoints)))"

datatype ComputingMiddleMultiInterface = Op_ONEWAN ONEWANSolver | Op_Carousel FlowOptimizationSolver

record RoutingMiddleMultiInterface =
  mmi_Operate :: "ComputingMiddleMultiInterface option"

definition InitMiddleMultiInterface :: "rng \<Rightarrow> GraphManager \<Rightarrow> string \<Rightarrow> RoutingMiddleMultiInterface" where
  "InitMiddleMultiInterface own g algorithm =
     (let edges = GetEdges g in
      if algorithm = ''onewan_multi'' then \<lparr>mmi_Operate = Some (Op_ONEWAN (NewONEWANSolver edges 10))\<rparr>
      else if algorithm = ''carousel-greedy'' then \<lparr>mmi_Operate = Some (Op_Carousel (NewFlowOptimizationSolver own edges))\<rparr>
      else \<lparr>mmi_Operate = None\<rparr>)"

fun multi_Computing :: "ComputingMiddleMultiInterface \<Rightarrow> string \<Rightarrow> string list \<Rightarrow> rng \<Rightarrow> PathInfo list result" where
  "multi_Computing (Op_ONEWAN os) s ts r = fst (OW_ComputingMulti os s ts r)"
| "multi_Computing (Op_Carousel d) s ts r = CG_ComputingMulti d s ts r"

definition MiddleRoutingMulti :: "rng \<Rightarrow> rng \<Rightarrow> GraphManager \<Rightarrow> string \<Rightarrow> string list \<Rightarrow> string \<Rightarrow> RoutingInfo result" where
  "MiddleRoutingMulti own r g start ends algorithm =
     (case mmi_Operate (InitMiddleMultiInterface own g algorithm) of
        None \<Rightarrow> Inr \<lparr>Routing = []\<rparr>
      | Some solver \<Rightarrow> routing_of (multi_Computing solver start ends r))"

text \<open>What the solvers rely on in the reports behind a graph: the names of the nodes.\<close>

definition named :: "GraphManager \<Rightarrow> bool" where
  "named g = (\<forall>e \<in> set (GetEdges g). SourceIp e \<noteq> [] \<and> DestinationIp e \<noteq> [] \<and> arrow_free (SourceIp e) \<and> arrow_free (DestinationIp e))"

text \<open>A path over registered nodes to a registered node or an origin server.\<close>

definition relay_path :: "GraphManager \<Rightarrow> string \<Rightarrow> string \<Rightarrow> string list \<Rightarrow> bool" where
  "relay_path g s t p = (walk (build_graph (GetEdges g)) [] p \<and> hd p = s \<and> last p = t \<and> distinct p
     \<and> (\<forall>h \<in> set (butlast p). gm_get (g_nodes g) h \<noteq> None))"

definition linked_path :: "GraphManager \<Rightarrow> string \<Rightarrow> string list \<Rightarrow> string list \<Rightarrow> bool" where
  "linked_path g s ts p = (hd p = s \<and> last p \<in> set ts \<and> distinct p \<and> length p \<le> 30
     \<and> (\<forall>(u, v) \<in> set (path_steps p). either_way (GetEdges g) u v))"

section \<open>Lemmas\<close>

lemma graph_edges_ok:
  assumes "graph_inv g" "named g" "\<And>e. e \<in> set (GetEdges g) \<Longrightarrow> 0 \<le> ks_weight ks e"
  shows "edges_ok ks (GetEdges g)"
proof -
  have "distinct (map (\<lambda>(k, e). edge_key (SourceIp e) (DestinationIp e)) (g_edges g))"
  proof -
    have "map (\<lambda>(k, e). edge_key (SourceIp e) (DestinationIp e)) (g_edges g) = map fst (g_edges g)"
      using assms(1) by (auto simp: graph_inv_def edge_ok_def)
    then show ?thesis using assms(1) by (simp only: graph_inv_def)
  qed
  then have "distinct (map (\<lambda>(u, v). edge_key u v) (map (\<lambda>e. (SourceIp e, DestinationIp e)) (GetEdges g)))"
    by (simp add: GetEdges_def comp_def case_prod_unfold)
  then have "distinct (map (\<lambda>e. (SourceIp e, DestinationIp e)) (GetEdges g))" unfolding distinct_map by simp
  then show ?thesis using assms(2, 3) by (simp add: edges_ok_def named_def)
qed

lemma edge_mem: "graph_inv g \<Longrightarrow> e \<in> set (GetEdges g) \<Longrightarrow> edge_ok (g_nodes g) (edge_key (SourceIp e) (DestinationIp e), e)"
  by (auto simp: GetEdges_def graph_inv_def edge_ok_def)

lemma risk_edges_ok:
  assumes "graph_inv g" "named g"
  shows "edges_ok (NewKShortestSolver (GetEdges g) k) (GetEdges g)"
  by (rule graph_edges_ok [OF assms])
    (use edge_mem [OF assms(1)] in \<open>auto simp: NewKShortestSolver_def NewKShortestSolverWithLatency_def ks_weight_def edge_ok_def\<close>)

lemma latency_edges_ok:
  assumes "graph_inv g" "named g" "\<forall>e \<in> set (GetEdges g). 0 \<le> Latency e"
  shows "edges_ok (NewKShortestSolverWithLatency (GetEdges g) k True) (GetEdges g)"
  by (rule graph_edges_ok [OF assms(1, 2)]) (use assms(3) in \<open>simp add: NewKShortestSolverWithLatency_def ks_weight_def\<close>)

lemma build_graph_edge:
  assumes "e \<in> set (gm_list (build_graph es) u)"
  shows "SourceIp e = u" "e \<in> set es"
proof -
  obtain es' where "gm_get (build_graph es) u = Some es'" "e \<in> set es'" using assms by (cases "gm_get (build_graph es) u") (auto simp: gm_list_def)
  then have "e \<in> set (filter (\<lambda>e. SourceIp e = u) es)" using build_graph_mem(1) [OF map_of_SomeD] by blast
  then show "SourceIp e = u" "e \<in> set es" by simp_all
qed

lemma walk_sources:
  assumes "graph_inv g" "walk (build_graph (GetEdges g)) [] p" "h \<in> set (butlast p)"
  shows "gm_get (g_nodes g) h \<noteq> None"
  using assms(2, 3)
proof (induction "build_graph (GetEdges g)" "[] :: (string, bool) gomap" p rule: walk.induct)
  case (3 u v p)
  from 3 obtain e where "e \<in> set (gm_list (build_graph (GetEdges g)) u)" by auto
  then have "e \<in> set (GetEdges g)" "SourceIp e = u" using build_graph_edge by blast+
  then have "gm_get (g_nodes g) u \<noteq> None" using edge_mem [OF assms(1)] by (auto simp: edge_ok_def map_of_eq_None_iff)
  then show ?case using 3 by auto
qed simp_all

lemma walk_relay:
  "graph_inv g \<Longrightarrow> walk (build_graph (GetEdges g)) [] p \<Longrightarrow> hd p = s \<Longrightarrow> last p = t \<Longrightarrow> distinct p \<Longrightarrow> relay_path g s t p"
  using walk_sources by (simp add: relay_path_def)

lemma relay_nodes:
  assumes "relay_path g s t p" "s \<noteq> t"
  shows "s \<in> set (graph_nodes (GetEdges g)) \<and> t \<in> set (graph_nodes (GetEdges g))"
proof -
  have "walk (build_graph es) [] p \<Longrightarrow> hd p \<noteq> last p \<Longrightarrow> hd p \<in> SourceIp ` set es \<and> last p \<in> DestinationIp ` set es" for es
  proof (induction "build_graph es" "[] :: (string, bool) gomap" p rule: walk.induct)
    case (3 u v p)
    from 3 obtain e where e: "e \<in> set (gm_list (build_graph es) u)" "DestinationIp e = v" by auto
    then show ?case using 3 e(2) build_graph_edge [OF e(1)] by (cases "v = last (v # p)") auto
  qed simp_all
  then show ?thesis using assms by (auto simp: relay_path_def graph_nodes_iff)
qed

lemma middle_computing_correct:
  assumes "graph_inv g" "named g"
  shows "case middle_Computing (mi_Operate (InitMiddleInterface g algorithm)) s t of
      Inr ps \<Rightarrow> algorithm \<in> {''k_shortest'', ''live_style''} \<and> length ps \<le> 3 \<and> distinct (map Hops ps) \<and> (\<forall>p \<in> set ps. relay_path g s t (Hops p))
        \<and> (algorithm = ''k_shortest'' \<longrightarrow> ps \<noteq> [])
    | Inl (GoError _) \<Rightarrow> algorithm \<in> {''k_shortest'', ''live_style''} \<and> (\<forall>p. \<not> (relay_path g s t p \<and> s \<noteq> t))
    | Inl (GoPanic _) \<Rightarrow> algorithm \<notin> {''k_shortest'', ''live_style''}
    | Inl GoDiverges \<Rightarrow> False"
proof -
  have unreach: "relay_path g s t p \<Longrightarrow> s = t" if "s \<notin> set (graph_nodes (GetEdges g)) \<or> t \<notin> set (graph_nodes (GetEdges g)) \<or> \<not> reachable (build_graph (GetEdges g)) [] s t" for p
    using that relay_nodes [of g s t p] by (auto simp: relay_path_def reachable_def)
  consider "algorithm = ''k_shortest''" | "algorithm = ''live_style''" | "algorithm \<notin> {''k_shortest'', ''live_style''}" by blast
  then show ?thesis
  proof cases
    case 1
    let ?ks = "NewKShortestSolver (GetEdges g) 3"
    have e: "ks_edges ?ks = GetEdges g" "ks_k ?ks = 3" by (simp_all add: NewKShortestSolver_def NewKShortestSolverWithLatency_def)
    show ?thesis using KS_Computing_correct [of ?ks s t, unfolded e, OF risk_edges_ok [OF assms]] unreach walk_relay [OF assms(1)]
      by (auto simp: 1 InitMiddleInterface_def split: sum.splits fault.splits)
  next
    case 2
    let ?ls = "NewLiveStyleSolver (GetEdges g) 2"
    have e: "ls_edges ?ls = GetEdges g" "ls_k ?ls = 2" by (simp_all add: NewLiveStyleSolver_def)
    show ?thesis using live_style_correct [of ?ls s t, unfolded e, OF risk_edges_ok [OF assms]] unreach walk_relay [OF assms(1)]
      by (auto simp: 2 InitMiddleInterface_def split: sum.splits fault.splits)
  next
    case 3
    then show ?thesis by (simp add: InitMiddleInterface_def)
  qed
qed

lemma multi_computing_correct:
  assumes "graph_inv g" "named g" "\<forall>e \<in> set (GetEdges g). 0 \<le> Latency e" "rand_ok own" "rand_ok r" "distinct ts"
  shows "\<exists>ps. MiddleRoutingMulti own r g s ts algorithm = Inr \<lparr>Routing = ps\<rparr> \<and> distinct (map Hops ps)
     \<and> (algorithm = ''onewan_multi'' \<longrightarrow> (\<forall>p \<in> set ps. \<exists>t \<in> set ts. relay_path g s t (Hops p)))
     \<and> (algorithm = ''carousel-greedy'' \<longrightarrow> (\<forall>p \<in> set ps. linked_path g s ts (Hops p)))
     \<and> (algorithm \<notin> {''onewan_multi'', ''carousel-greedy''} \<longrightarrow> ps = [])"
proof -
  consider "algorithm = ''onewan_multi''" | "algorithm = ''carousel-greedy''" | "algorithm \<notin> {''onewan_multi'', ''carousel-greedy''}" by blast
  then show ?thesis
  proof cases
    case 1
    let ?os = "NewONEWANSolver (GetEdges g) 10"
    have e: "ow_edges ?os = GetEdges g" "0 < ow_maxPaths ?os" by (simp_all add: NewONEWANSolver_def)
    have d: "distinct (map (\<lambda>e. (SourceIp e, DestinationIp e)) (GetEdges g))" using risk_edges_ok [OF assms(1, 2)] by (simp add: edges_ok_def)
    have "relay_path g s t (Hops p)" if "info_path (build_graph (GetEdges g)) s t p" for t p
      using that walk_relay [OF assms(1)] by (simp add: info_path_def spath_def)
    then show ?thesis using OW_ComputingMulti_correct [OF assms(5) _ e(2) assms(6), of s, unfolded e(1), OF d] 1
      by (fastforce simp: MiddleRoutingMulti_def InitMiddleMultiInterface_def split: sum.splits fault.splits)
  next
    case 2
    show ?thesis using CG_ComputingMulti_feasible [OF latency_edges_ok [OF assms(1-3)] assms(5, 4, 6), of s] 2
      by (fastforce simp: MiddleRoutingMulti_def InitMiddleMultiInterface_def linked_path_def split: sum.splits fault.splits)
  next
    case 3
    then show ?thesis by (simp add: MiddleRoutingMulti_def InitMiddleMultiInterface_def)
  qed
qed

lemma graph_nodes_ok: "graph_inv g \<Longrightarrow> g_nodes g \<noteq> [] \<Longrightarrow> nodes_ok (GetNodes g)"
  by (simp add: graph_inv_def nodes_ok_def GetNodes_def)

lemma router_nodes [simp]:
  "ly_nodeTel (NewLyapunovSolver a m) = m" "jr_nodeTel (NewJointRouter a m) = m" "jr_nodeTel (SetWeights x y r) = jr_nodeTel r"
  "p2c_nodeTel (NewP2CRouter m a) = m" "ew_nodeTel (NewEWMARouter m a) = m" "ew_nodeTel (SetAlpha x y e) = ew_nodeTel e"
  "cpuEWMA (NewEWMARouter m a) = []" "latEWMA (NewEWMARouter m a) = []" "cpuEWMA (SetAlpha x y e) = cpuEWMA e" "latEWMA (SetAlpha x y e) = latEWMA e"
  by (simp_all add: NewLyapunovSolver_def NewJointRouter_def SetWeights_def NewP2CRouter_def NewEWMARouter_def SetAlpha_def Let_def)

end
