(* ===== verification/Control_API.thy ===== *)
theory Control_API
  imports Routing_Dispatch
begin

text \<open>
  \<^verbatim>\<open>src/control-plane/api\<close>: the HTTP handlers of the control plane. The decoding of a body is an argument that gives a value or
  the text of an error, a missing query parameter is the empty string, and a handler gives the response it writes with
  what it sends to etcd, or the panic that leaves it.
\<close>

section \<open>Definitions\<close>

record 'a ApiResponse =
  resp_Code :: int
  resp_Msg :: string
  resp_Data :: "'a option"

record SourceTarget =
  st_ServerPort :: int
  st_Provider :: string
  st_IP :: string
  st_Port :: int
  st_Region :: string
  st_ID :: string

definition source_targets :: "SourceTarget list \<Rightarrow> (int, SourceTarget) gomap" where
  "source_targets targets = foldl (\<lambda>m v. gm_set m (st_ServerPort v) v) [] targets"

subsection \<open>Routing\<close>

record UserRoutingAPIHandler =
  h_GraphManager :: GraphManager
  h_GlobalStats :: GlobalStats

definition NewUserRoutingAPIHandler :: "GraphManager \<Rightarrow> GlobalStats \<Rightarrow> UserRoutingAPIHandler" where
  "NewUserRoutingAPIHandler gm gs = \<lparr>h_GraphManager = gm, h_GlobalStats = gs\<rparr>"

definition GetMiddleRoute ::
  "(int, SourceTarget) gomap \<Rightarrow> UserRoutingAPIHandler \<Rightarrow> string + EndPoints \<Rightarrow> string \<Rightarrow> RoutingInfo ApiResponse result" where
  "GetMiddleRoute targets h body algorithm =
     (case body of
        Inl err \<Rightarrow> Inr \<lparr>resp_Code = 400, resp_Msg = ''Request body parsing failed: '' @ err, resp_Data = None\<rparr>
      | Inr req \<Rightarrow>
          (case gm_get targets (ep_Port (ep_Dest req)) of
             None \<Rightarrow> Inr \<lparr>resp_Code = 400, resp_Msg = ''Request body parsing failed: No corresponding port found'', resp_Data = None\<rparr>
           | Some source \<Rightarrow>
               (let req = req\<lparr>ep_Dest := (ep_Dest req)\<lparr>ep_IP := origin_addr (st_IP source) (st_Port source)\<rparr>\<rparr>;
                    algorithm = (if length algorithm \<le> 0 then ''k_shortest'' else algorithm)
                in bindr (MiddleRouting (h_GraphManager h) req algorithm) (\<lambda>paths.
                     Inr \<lparr>resp_Code = 200, resp_Msg = ''Successfully obtained path'', resp_Data = Some paths\<rparr>))))"

text \<open>The weights of the query; the reading of a number is an argument.\<close>

definition query_weights :: "(string \<Rightarrow> real option) \<Rightarrow> string \<Rightarrow> string \<Rightarrow> string \<Rightarrow> real \<times> real" where
  "query_weights ParseFloat algorithm cpuStr latStr =
     (if algorithm = ''joint_cpu_latency'' \<and> cpuStr \<noteq> [] \<and> latStr \<noteq> []
      then (case (ParseFloat cpuStr, ParseFloat latStr) of
              (Some cpuVal, Some latVal) \<Rightarrow> if cpuVal \<ge> 0 \<and> latVal \<ge> 0 then (cpuVal, latVal) else (1 / 2, 1 / 2)
            | _ \<Rightarrow> (1 / 2, 1 / 2))
      else (1 / 2, 1 / 2))"

definition GetLastRoute ::
  "(string \<Rightarrow> real option) \<Rightarrow> (string \<Rightarrow> IPInfoResult result) \<Rightarrow> string \<Rightarrow> UserRoutingAPIHandler \<Rightarrow> string + EndPoints \<Rightarrow> string \<Rightarrow> string \<Rightarrow> string
     \<Rightarrow> RoutingInfo ApiResponse result" where
  "GetLastRoute ParseFloat fetch ip h body algorithm cpuStr latStr =
     (case body of
        Inl err \<Rightarrow> Inr \<lparr>resp_Code = 400, resp_Msg = ''Request body parsing failed: '' @ err, resp_Data = None\<rparr>
      | Inr req \<Rightarrow>
          (let algorithm = (if length algorithm \<le> 0 then ''lyapunov'' else algorithm);
               (cpuW, latencyW) = query_weights ParseFloat algorithm cpuStr latStr
           in bindr (LastRouting fetch ip (h_GraphManager h) (h_GlobalStats h) req algorithm cpuW latencyW) (\<lambda>paths.
                Inr \<lparr>resp_Code = 200, resp_Msg = ''Successfully obtained path'', resp_Data = Some paths\<rparr>)))"

record MultiDestRequest =
  md_Source :: EndPoint
  md_Dests :: "EndPoint list"

definition GetMiddleRouteMulti ::
  "rng \<Rightarrow> rng \<Rightarrow> UserRoutingAPIHandler \<Rightarrow> string + MultiDestRequest \<Rightarrow> string \<Rightarrow> RoutingInfo ApiResponse result" where
  "GetMiddleRouteMulti own r h body algorithm =
     (case body of
        Inl err \<Rightarrow> Inr \<lparr>resp_Code = 400, resp_Msg = ''Request body parsing failed: '' @ err, resp_Data = None\<rparr>
      | Inr req \<Rightarrow>
          (let algorithm = (if length algorithm \<le> 0 then ''onewan_multi'' else algorithm);
               destIPs = map ep_IP (md_Dests req)
           in bindr (MiddleRoutingMulti own r (h_GraphManager h) (ep_IP (md_Source req)) destIPs algorithm) (\<lambda>paths.
                Inr \<lparr>resp_Code = 200, resp_Msg = ''Successfully obtained paths'', resp_Data = Some paths\<rparr>)))"

subsection \<open>Probing\<close>

text \<open>The tasks of a node: every other node of the overlay and every configured source.\<close>

definition node_task :: "(string \<Rightarrow> NodeTelemetry option) \<Rightarrow> string \<Rightarrow> string \<Rightarrow> ProbeTask option" where
  "node_task decode own nodeJson =
     (case decode nodeJson of
        None \<Rightarrow> None
      | Some telemetry \<Rightarrow>
          if PublicIP telemetry = own then None
          else Some \<lparr>TargetType = ''node'', pt_Provider = nt_Provider telemetry, pt_IP = PublicIP telemetry, pt_Port = 7083,
                     Region = nt_Continent telemetry, pt_ID = []\<rparr>)"

definition source_task :: "SourceTarget \<Rightarrow> ProbeTask" where
  "source_task v = \<lparr>TargetType = ''source'', pt_Provider = st_Provider v, pt_IP = st_IP v, pt_Port = st_Port v, Region = st_Region v, pt_ID = st_ID v\<rparr>"

definition GetProbeTasks ::
  "(string \<Rightarrow> NodeTelemetry option) \<Rightarrow> (int, SourceTarget) gomap \<Rightarrow> string \<Rightarrow> string + (string, string) gomap \<Rightarrow> ProbeTask list ApiResponse" where
  "GetProbeTasks decode targets own nodeMap =
     (case nodeMap of
        Inl err \<Rightarrow> \<lparr>resp_Code = 500, resp_Msg = ''Failed to get node information: '' @ err, resp_Data = None\<rparr>
      | Inr m \<Rightarrow> \<lparr>resp_Code = 200, resp_Msg = ''Successfully obtained node probe tasks'',
          resp_Data = Some (List.map_filter (node_task decode own) (gm_vals m) @ map source_task (gm_vals targets))\<rparr>)"

subsection \<open>Reports\<close>

text \<open>The zero time of Go, in nanoseconds from 1970.\<close>

definition zero_time :: int where "zero_time = - 62135596800 * 10 ^ 9"

definition validate_report :: "VMReport \<Rightarrow> string list" where
  "validate_report rd =
     (if VMID rd = [] then [''VMID cannot be empty''] else [])
     @ (if PhysicalCore (rep_CPU rd) < 0 then [''CPU physical core count cannot be negative''] else [])
     @ (if LogicalCore (rep_CPU rd) < 0 then [''CPU logical core count cannot be negative''] else [])
     @ (if net_PublicIP (rep_Network rd) = [] then [''Public IP (public_ip) cannot be empty, use \"no-public-ip\" if none''] else [])
     @ (if mem_Total (rep_Memory rd) = 0 then [''Total memory (total) cannot be 0''] else [])"

definition complete_report :: "int \<Rightarrow> string \<Rightarrow> VMReport \<Rightarrow> VMReport" where
  "complete_report now uuid rd =
     (let rd = (if CollectTime rd = zero_time then rd\<lparr>CollectTime := now\<rparr> else rd);
          rd = (if ReportID rd = [] then rd\<lparr>ReportID := uuid\<rparr> else rd)
      in if PortCount (rep_Network rd) < 0 then rd\<lparr>rep_Network := (rep_Network rd)\<lparr>PortCount := 0\<rparr>\<rparr> else rd)"

text \<open>The second component is the telemetry that goes to etcd; re-encoding and decoding the data field is one argument each.\<close>

definition PostVMReceive ::
  "('j \<Rightarrow> string + string) \<Rightarrow> (string \<Rightarrow> string + VMReport) \<Rightarrow> NodeConfig \<Rightarrow> int \<Rightarrow> string \<Rightarrow> string + 'j
     \<Rightarrow> (string \<times> int) ApiResponse \<times> NodeTelemetry option" where
  "PostVMReceive marshal decode cfg now uuid body =
     (case body of
        Inl err \<Rightarrow> (\<lparr>resp_Code = 400, resp_Msg = ''Request format error: Not a valid ApiResponse structure - '' @ err, resp_Data = None\<rparr>, None)
      | Inr data \<Rightarrow>
          (case marshal data of
             Inl err \<Rightarrow> (\<lparr>resp_Code = 400, resp_Msg = ''Request Data field format error: Cannot serialize to JSON - '' @ err, resp_Data = None\<rparr>, None)
           | Inr bytes \<Rightarrow>
               (case decode bytes of
                  Inl err \<Rightarrow> (\<lparr>resp_Code = 400, resp_Msg = ''Data field parsing failed: Not a valid VMReport structure - '' @ err, resp_Data = None\<rparr>, None)
                | Inr rd \<Rightarrow>
                    if length (validate_report rd) > 0
                    then (\<lparr>resp_Code = 400, resp_Msg = ''VMReport parameter validation failed: '' @ join ''; '' (validate_report rd), resp_Data = None\<rparr>, None)
                    else let rd = complete_report now uuid rd
                         in (\<lparr>resp_Code = 200, resp_Msg = ''VM information reported successfully'', resp_Data = Some (ReportID rd, CollectTime rd)\<rparr>,
                             Some (DoClusterWeightedAvg cfg rd)))))"

text \<open>The second component is the key, value and time to live that are put to etcd, whether or not the put succeeds.\<close>

definition PostLastReceive ::
  "('j \<Rightarrow> string + string) \<Rightarrow> (string \<Rightarrow> string + LastTelemetry) \<Rightarrow> string \<Rightarrow> string + 'j \<Rightarrow> nat ApiResponse \<times> (string \<times> string \<times> int) option" where
  "PostLastReceive marshal decode ip body =
     (case body of
        Inl err \<Rightarrow> (\<lparr>resp_Code = 400, resp_Msg = ''Request format error: '' @ err, resp_Data = None\<rparr>, None)
      | Inr data \<Rightarrow>
          (case marshal data of
             Inl err \<Rightarrow> (\<lparr>resp_Code = 400, resp_Msg = ''Request Data field format error: '' @ err, resp_Data = None\<rparr>, None)
           | Inr bytes \<Rightarrow>
               (case decode bytes of
                  Inl err \<Rightarrow> (\<lparr>resp_Code = 400, resp_Msg = ''Data field parsing failed: '' @ err, resp_Data = None\<rparr>, None)
                | Inr lastStats \<Rightarrow>
                    (\<lparr>resp_Code = 200, resp_Msg = ''LastStats reported successfully'', resp_Data = Some (length (LastsCongestion lastStats))\<rparr>,
                     Some (''/routing-last/'' @ ip, bytes, 60)))))"

text \<open>The default algorithm of a handler.\<close>

definition or_default :: "string \<Rightarrow> string \<Rightarrow> string" where
  "or_default d algorithm = (if algorithm = [] then d else algorithm)"

text \<open>Samples: one node with a link to an origin server, and a request for it.\<close>

definition api_graph :: GraphManager where
  "api_graph = AddNode (ex_node ''10.0.0.1'' ''192.0.2.7'' 20) NewGraphManager"

definition ex_endpoint :: "string \<Rightarrow> int \<Rightarrow> EndPoint" where
  "ex_endpoint ip port = \<lparr>ep_IP = ip, ep_Port = port, ep_Provider = [], ep_Continent = [], ep_Country = [], ep_City = []\<rparr>"

definition ex_target :: SourceTarget where
  "ex_target = \<lparr>st_ServerPort = 9000, st_Provider = [], st_IP = ''192.0.2.7'', st_Port = 80, st_Region = [], st_ID = []\<rparr>"

definition ex_handler :: UserRoutingAPIHandler where
  "ex_handler = NewUserRoutingAPIHandler api_graph NewGlobalStats"

definition api_request :: EndPoints where
  "api_request = \<lparr>ep_Source = ex_endpoint ''10.0.0.1'' 0, ep_Dest = ex_endpoint [] 9000\<rparr>"

section \<open>Lemmas\<close>

lemma source_targets_get:
  "gm_get (source_targets targets) port = (if \<exists>v \<in> set targets. st_ServerPort v = port then Some (last (filter (\<lambda>v. st_ServerPort v = port) targets)) else None)"
proof -
  have "gm_get (foldl (\<lambda>m v. gm_set m (st_ServerPort v) v) m ts) port
      = (if \<exists>v \<in> set ts. st_ServerPort v = port then Some (last (filter (\<lambda>v. st_ServerPort v = port) ts)) else gm_get m port)"
    for m :: "(int, SourceTarget) gomap" and ts
    by (induction ts arbitrary: m) (auto simp: update_conv' filter_empty_conv)
  then show ?thesis by (simp add: source_targets_def)
qed

lemma probe_tasks_not_self:
  assumes "resp_Data (GetProbeTasks decode targets own (Inr m)) = Some tasks" "task \<in> set tasks" "TargetType task = ''node''"
  shows "pt_IP task \<noteq> own"
proof -
  have mf: "x \<in> set (List.map_filter f xs) \<Longrightarrow> \<exists>y \<in> set xs. f y = Some x" for x f and xs :: "string list"
    by (induction xs) (auto simp: map_filter_simps split: option.splits)
  have "task \<notin> set (map source_task (gm_vals targets))" using assms(3) by (auto simp: source_task_def)
  then have "task \<in> set (List.map_filter (node_task decode own) (gm_vals m))" using assms(1, 2) by (auto simp: GetProbeTasks_def)
  from mf [OF this] show ?thesis by (auto simp: node_task_def split: option.splits if_splits)
qed

lemma accepted_report:
  assumes "PostVMReceive marshal decode cfg now uuid (Inr data) = (resp, Some tel)"
  shows "resp_Code resp = 200" "0 \<le> PhysicalCore (Cpu tel)" "0 \<le> LogicalCore (Cpu tel)"
  using assms by (auto simp: PostVMReceive_def validate_report_def complete_report_def DoClusterWeightedAvg_def Let_def split: sum.splits if_splits)

lemma query_weights_nonneg: "fst (query_weights pf a c l) \<ge> 0 \<and> snd (query_weights pf a c l) \<ge> 0"
  by (auto simp: query_weights_def split: option.split)

lemma query_weights_half: "a \<noteq> ''joint_cpu_latency'' \<Longrightarrow> query_weights pf a c l = (1 / 2, 1 / 2)"
  by (simp add: query_weights_def)

lemma last_computing_correct:
  assumes "graph_inv g" "g_nodes g \<noteq> []" "a = ''ewma_based'' \<Longrightarrow> cw = 1 / 2 \<and> lw = 1 / 2"
  defines "ips \<equiv> map fst (g_nodes g)"
  shows "case last_Computing ip (li_Operate (InitLastInterface g gs a cw lw)) eps of
      Inr ps \<Rightarrow> mset (map Hops ps) = mset (map (\<lambda>ip. [ip]) ips)
        \<and> (if a \<in> {''lyapunov'', ''p2c'', ''ewma_based''} then distribution ips ps else sorted (map Rtt ps))
        \<and> (a \<in> {''lyapunov'', ''ewma_based''} \<longrightarrow> sorted_wrt (\<lambda>p q. Rtt q \<le> Rtt p) ps)
    | Inl (GoPanic _) \<Rightarrow> a \<notin> {''lyapunov'', ''latency_only'', ''cpu_only'', ''joint_cpu_latency'', ''p2c'', ''ewma_based''}
    | Inl _ \<Rightarrow> False"
proof -
  have ok: "nodes_ok (g_nodes g)" "GetNodes g = g_nodes g" using graph_nodes_ok [OF assms(1, 2)] by (simp_all add: GetNodes_def)
  let ?ew = "SetAlpha (1 / 2) (1 / 2) (NewEWMARouter (g_nodes g) (GetAggMap gs))"
  note d = P2C_distribution [of "NewP2CRouter (g_nodes g) (GetAggMap gs)" ip eps, simplified, OF ok(1)]
    Lyapunov_distribution [of "NewLyapunovSolver (GetAggMap gs) (g_nodes g)", simplified, OF ok(1), of ip eps]
    EWMA_distribution [of ?ew ip eps, simplified, OF ok(1)]
    EWMA_sorted [of ?ew ip eps, simplified, OF ok(1)]
  have j: "mset (map Hops (Joint_Computing ip r eps)) = mset (map (\<lambda>ip. [ip]) ips) \<and> sorted (map Rtt (Joint_Computing ip r eps))" if "jr_nodeTel r = g_nodes g" for r
    using Joint_ranked [of r ip eps, unfolded that, OF ok(1)] by (simp add: ips_def)
  have l: "ew_lambda ?ew = 1 / 2" by (simp add: SetAlpha_def)
  show ?thesis
  proof (cases "a = ''ewma_based''")
    case True
    then have w: "cw = 1 / 2" "lw = 1 / 2" using assms(3) by blast+
    show ?thesis using True d(4, 5) l unfolding w by (simp add: InitLastInterface_def Let_def ok(2) distribution_def ips_def)
  next
    case False
    then show ?thesis using d(1-3) j by (simp add: InitLastInterface_def Let_def ok(2) distribution_def ips_def)
  qed
qed

lemma ex_handler_graph: "h_GraphManager ex_handler = api_graph"
  by (simp add: ex_handler_def NewUserRoutingAPIHandler_def)

lemma api_graph_edges:
  "GetEdges api_graph = [\<lparr>SourceIp = ''10.0.0.1'', DestinationIp = ''192.0.2.7:80'', EdgeWeight = EdgeRisk 0 0 20, Load = 0, Latency = 20, Loss = 0\<rparr>]"
proof -
  have "origin_addr ''192.0.2.7'' 80 = ''192.0.2.7:80''" by code_simp
  then show ?thesis
    by (simp add: api_graph_def AddNode_def ex_node_def add_link_def put_edge_def GetEdges_def NewGraphManager_def edge_key_def)
qed

lemma api_graph_nodes: "map fst (g_nodes api_graph) = [''10.0.0.1'']"
  by (simp add: api_graph_def AddNode_def ex_node_def add_link_def put_edge_def NewGraphManager_def)

lemma ex_handler_ok: "graph_inv (h_GraphManager ex_handler)" "named (h_GraphManager ex_handler)"
proof -
  show "graph_inv (h_GraphManager ex_handler)" unfolding ex_handler_graph api_graph_def by (intro AddNode_inv) (simp add: graph_inv_def NewGraphManager_def)
  show "named (h_GraphManager ex_handler)" by (simp add: ex_handler_graph named_def api_graph_edges arrow_free_def)
qed

lemma GetMiddleRoute_correct:
  fixes req :: EndPoints
  assumes "graph_inv (h_GraphManager h)" "named (h_GraphManager h)"
  defines "s \<equiv> ep_IP (ep_Source req)"
  shows "case GetMiddleRoute targets h (Inr req) algorithm of
      Inr resp \<Rightarrow>
        (case gm_get targets (ep_Port (ep_Dest req)) of
           None \<Rightarrow> resp_Code resp = 400 \<and> resp_Data resp = None
         | Some source \<Rightarrow>
             resp_Code resp = 200 \<and> (\<exists>ps. resp_Data resp = Some \<lparr>Routing = ps\<rparr> \<and> length ps \<le> 3 \<and> distinct (map Hops ps)
               \<and> (\<forall>p \<in> set ps. relay_path (h_GraphManager h) s (origin_addr (st_IP source) (st_Port source)) (Hops p))
               \<and> (or_default ''k_shortest'' algorithm = ''k_shortest'' \<and> s \<noteq> origin_addr (st_IP source) (st_Port source)
                  \<and> (\<exists>p. relay_path (h_GraphManager h) s (origin_addr (st_IP source) (st_Port source)) p) \<longrightarrow> ps \<noteq> [])))
    | Inl (GoPanic _) \<Rightarrow> or_default ''k_shortest'' algorithm \<notin> {''k_shortest'', ''live_style''} \<and> gm_get targets (ep_Port (ep_Dest req)) \<noteq> None
    | Inl _ \<Rightarrow> False"
proof (cases "gm_get targets (ep_Port (ep_Dest req))")
  case None
  then show ?thesis by (simp add: GetMiddleRoute_def)
next
  case (Some source)
  let ?t = "origin_addr (st_IP source) (st_Port source)" and ?a = "or_default ''k_shortest'' algorithm"
  let ?m = "middle_Computing (mi_Operate (InitMiddleInterface (h_GraphManager h) ?a)) s ?t"
  have eq: "GetMiddleRoute targets h (Inr req) algorithm = bindr (routing_of ?m) (\<lambda>paths. Inr \<lparr>resp_Code = 200, resp_Msg = ''Successfully obtained path'', resp_Data = Some paths\<rparr>)"
    using Some by (simp add: GetMiddleRoute_def MiddleRouting_def or_default_def s_def)
  note c = middle_computing_correct [OF assms(1, 2), of ?a s ?t]
  show ?thesis
  proof (cases ?m)
    case (Inr ps)
    then show ?thesis using c Some by (simp add: eq)
  next
    case (Inl f)
    then show ?thesis using c Some by (cases f) (auto simp: eq)
  qed
qed

section \<open>Properties\<close>





text \<open>
  C28: The request for several destinations never panics and never runs forever: for every name of an algorithm, every
  random choice and different destinations the handler answers with code 200 and different paths. Those of the default algorithm are simple paths over
  registered nodes from the source to one of the destinations; those of the greedy algorithm are simple paths whose
  steps are links in one of the two directions; an unknown name gives no path.
\<close>

theorem multi_route_request:
  fixes req :: MultiDestRequest and algorithm :: string
  assumes "graph_inv (h_GraphManager h)" "named (h_GraphManager h)" "\<forall>e \<in> set (GetEdges (h_GraphManager h)). 0 \<le> Latency e"
    "rand_ok own" "rand_ok r" "distinct (map ep_IP (md_Dests req))"
  defines "a \<equiv> or_default ''onewan_multi'' algorithm" and "ts \<equiv> map ep_IP (md_Dests req)" and "s \<equiv> ep_IP (md_Source req)"
  shows "\<exists>resp ps. GetMiddleRouteMulti own r h (Inr req) algorithm = Inr resp \<and> resp_Code resp = 200 \<and> resp_Data resp = Some \<lparr>Routing = ps\<rparr>
     \<and> distinct (map Hops ps) \<and> (a = ''onewan_multi'' \<longrightarrow> (\<forall>p \<in> set ps. \<exists>t \<in> set ts. relay_path (h_GraphManager h) s t (Hops p)))
     \<and> (a = ''carousel-greedy'' \<longrightarrow> (\<forall>p \<in> set ps. linked_path (h_GraphManager h) s ts (Hops p)))
     \<and> (a \<notin> {''onewan_multi'', ''carousel-greedy''} \<longrightarrow> ps = [])"
proof -
  note m = multi_computing_correct [OF assms(1-5) assms(6), of s a, folded ts_def]
  then obtain ps where ps: "MiddleRoutingMulti own r (h_GraphManager h) s ts a = Inr \<lparr>Routing = ps\<rparr>" by blast
  then have "GetMiddleRouteMulti own r h (Inr req) algorithm = Inr \<lparr>resp_Code = 200, resp_Msg = ''Successfully obtained paths'', resp_Data = Some \<lparr>Routing = ps\<rparr>\<rparr>"
    by (simp add: GetMiddleRouteMulti_def Let_def a_def ts_def s_def or_default_def)
  then show ?thesis using m ps by auto
qed

theorem multi_route_request_witness:
  "\<exists>resp. GetMiddleRouteMulti ex_rng ex_rng ex_handler (Inr \<lparr>md_Source = ex_endpoint ''10.0.0.1'' 0, md_Dests = [ex_endpoint ''192.0.2.7:80'' 0]\<rparr>) []
     = Inr resp \<and> resp_Code resp = 200"
proof -
  let ?req = "\<lparr>md_Source = ex_endpoint ''10.0.0.1'' 0, md_Dests = [ex_endpoint ''192.0.2.7:80'' 0]\<rparr> :: MultiDestRequest"
  have l: "\<forall>e \<in> set (GetEdges (h_GraphManager ex_handler)). 0 \<le> Latency e" by (simp add: ex_handler_graph api_graph_edges)
  have d: "distinct (map ep_IP (md_Dests ?req))" by code_simp
  show ?thesis using multi_route_request [OF ex_handler_ok l ex_rng_ok ex_rng_ok d, of "[]"] by blast
qed

end
