(* ===== verification/Vm_Collector.thy ===== *)
theory Vm_Collector
  imports Cpu_Sampler Link_Probing Control_API
begin

text \<open>
  The node reports: \<^verbatim>\<open>collector.go\<close>, \<^verbatim>\<open>memory.go\<close>, \<^verbatim>\<open>disk.go\<close>, \<^verbatim>\<open>network.go\<close>, \<^verbatim>\<open>os.go\<close>, \<^verbatim>\<open>process.go\<close> and \<^verbatim>\<open>report.go\<close> of
  \<^verbatim>\<open>src/data-plane/collector\<close>. What the system library reads from the machine, the transport and JSON are arguments. The report type of
  the data plane is field by field the one the control plane decodes.
\<close>

section \<open>Definitions\<close>

text \<open>What the system library reads: total, used, free and used percent of memory and disk, the connections, bytes received and sent per
  interface, the host, and the processes with their name, processor and memory percent (an unreadable name or value
  reads as the zero value).\<close>

record ('c) vm_readings =
  rd_memory :: "string + u64 \<times> u64 \<times> u64 \<times> real"
  rd_disk :: "string + u64 \<times> u64 \<times> u64 \<times> real"
  rd_connections :: "string + 'c list"
  rd_interfaces :: "string + (u64 \<times> u64) list"
  rd_host :: "string + string \<times> string \<times> string \<times> u64"
  rd_processes :: "string + (int \<times> string \<times> real \<times> real) list"

fun collectMemory :: "string + u64 \<times> u64 \<times> u64 \<times> real \<Rightarrow> MemoryInfo result" where
  "collectMemory (Inl err) = Inl (GoError err)"
| "collectMemory (Inr (tot, used, free, percent)) = Inr \<lparr>mem_Total = tot, mem_Used = used, mem_Free = free, mem_Usage = percent\<rparr>"

fun collectDisk :: "string + u64 \<times> u64 \<times> u64 \<times> real \<Rightarrow> DiskInfo result" where
  "collectDisk (Inl err) = Inl (GoError err)"
| "collectDisk (Inr (tot, used, free, percent)) =
     Inr \<lparr>disk_Total = tot, disk_Used = used, disk_Free = free, disk_Usage = percent, disk_Path = ''/''\<rparr>"

definition sum_traffic :: "(u64 \<times> u64) list \<Rightarrow> u64 \<times> u64" where
  "sum_traffic ioStat = foldl (\<lambda>t stat. (fst t + fst stat, snd t + snd stat)) (0, 0) ioStat"

definition collectNetwork :: "string \<Rightarrow> string \<Rightarrow> string + 'c list \<Rightarrow> string + (u64 \<times> u64) list \<Rightarrow> NetworkInfo result" where
  "collectNetwork publicIP privateIP ports ioStat =
     (case ports of
        Inl err \<Rightarrow> Inl (GoError err)
      | Inr ps \<Rightarrow>
          (case ioStat of
             Inl err \<Rightarrow> Inl (GoError err)
           | Inr io \<Rightarrow> Inr \<lparr>net_PublicIP = publicIP, net_PrivateIP = privateIP, PortCount = int (length ps),
               TrafficIn = fst (sum_traffic io), TrafficOut = snd (sum_traffic io)\<rparr>))"

fun collectOS :: "string + string \<times> string \<times> string \<times> u64 \<Rightarrow> OSInfo result" where
  "collectOS (Inl err) = Inl (GoError err)"
| "collectOS (Inr (osn, kver, host, boot)) = Inr \<lparr>OSName = osn, KernelVer = kver, Hostname = host, BootTime = sint boot\<rparr>"

text \<open>The processes with a name and a share, the largest three.\<close>

definition top_processes :: "(int \<times> string \<times> real) list \<Rightarrow> ProcessDetail list" where
  "top_processes ps =
     (let ds = map (\<lambda>(pid, name, v). \<lparr>PID = pid, pd_Name = name, pd_Usage = v\<rparr>) (filter (\<lambda>(pid, name, v). \<not> (name = [] \<or> v = 0)) ps);
          ds = sort_Slice (\<lambda>d. - pd_Usage d) ds
      in if length ds > 3 then take 3 ds else ds)"

definition collectProcess :: "string + (int \<times> string \<times> real \<times> real) list \<Rightarrow> ProcessInfo result" where
  "collectProcess processes =
     (case processes of
        Inl err \<Rightarrow> Inl (GoError err)
      | Inr ps \<Rightarrow> Inr \<lparr>ActiveCount = int (length ps), TopCPU = top_processes (map (\<lambda>(pid, name, c, m). (pid, name, c)) ps),
          TopMem = top_processes (map (\<lambda>(pid, name, c, m). (pid, name, m)) ps)\<rparr>)"

text \<open>Collecting takes the processor usage first, which resets its window also when a later reading fails.\<close>

definition VM_Collect :: "string \<Rightarrow> string \<Rightarrow> 'c vm_readings \<Rightarrow> int \<Rightarrow> (string, Result) gomap \<Rightarrow> Sampler \<Rightarrow> VMReport result \<times> Sampler" where
  "VM_Collect publicIP privateIP rd now latest st =
     (let (cpuInfo, st') = collectCPU st
      in (bindr (collectMemory (rd_memory rd)) (\<lambda>memoryInfo.
          bindr (collectDisk (rd_disk rd)) (\<lambda>diskInfo.
          bindr (collectNetwork publicIP privateIP (rd_connections rd) (rd_interfaces rd)) (\<lambda>networkInfo.
          bindr (collectOS (rd_host rd)) (\<lambda>osInfo.
          bindr (collectProcess (rd_processes rd)) (\<lambda>processInfo.
          Inr \<lparr>VMID = ''vm-'' @ net_PublicIP networkInfo @ ''-001'', CollectTime = now, ReportID = [], rep_CPU = cpuInfo, rep_Memory = memoryInfo,
               rep_Disk = diskInfo, rep_Network = networkInfo, rep_OS = osInfo, rep_Process = processInfo,
               rep_Links = BuildLinkCongestion latest\<rparr>))))), st'))"

definition with_id :: "string \<Rightarrow> VMReport \<Rightarrow> VMReport" where
  "with_id uuid vmReport = (if ReportID vmReport = [] then vmReport\<lparr>ReportID := uuid\<rparr> else vmReport)"

definition Report ::
  "(VMReport \<Rightarrow> string + 'j) \<Rightarrow> (string \<Rightarrow> 'j \<Rightarrow> string + string) \<Rightarrow> (string \<Rightarrow> string + int \<times> string) \<Rightarrow> string \<Rightarrow> string \<Rightarrow> string \<Rightarrow> VMReport \<Rightarrow> unit result" where
  "Report marshal post decode uuid controlHost publicIP vmReport =
     (case marshal (with_id uuid vmReport) of
        Inl err \<Rightarrow> Inl (GoError err)
      | Inr jsonData \<Rightarrow>
          (case post (controlHost @ ''/api/v1/vm/receive?ip='' @ publicIP) jsonData of
             Inl err \<Rightarrow> Inl (GoError err)
           | Inr resp \<Rightarrow>
               (case decode resp of
                  Inl err \<Rightarrow> Inl (GoError err)
                | Inr (code, msg) \<Rightarrow> if code \<noteq> 200 then Inl (GoError (''report failed, '' @ msg)) else Inr ())))"

text \<open>One tick: the outcome of the report, if there is one to send.\<close>

definition reportOnce :: "(VMReport \<Rightarrow> unit result) \<Rightarrow> VMReport result \<times> Sampler \<Rightarrow> unit result option \<times> Sampler" where
  "reportOnce report collected =
     (case fst collected of Inl err \<Rightarrow> (None, snd collected) | Inr vmReport \<Rightarrow> (Some (report vmReport), snd collected))"

text \<open>Sample readings.\<close>

definition ex_readings :: "unit vm_readings" where
  "ex_readings = \<lparr>rd_memory = Inr (8, 3, 5, 37), rd_disk = Inr (9, 1, 8, 11), rd_connections = Inr [(), ()],
     rd_interfaces = Inr [(1, 2), (3, 4)], rd_host = Inr (''linux'', ''6'', ''h'', 7), rd_processes = Inr [(1, ''init'', 1, 1)]\<rparr>"

section \<open>Lemmas\<close>

lemma top_processes_spec:
  "length (top_processes ps) \<le> 3" "sorted_wrt (\<lambda>d e. pd_Usage e \<le> pd_Usage d) (top_processes ps)"
  "d \<in> set (top_processes ps) \<Longrightarrow> (PID d, pd_Name d, pd_Usage d) \<in> set ps \<and> pd_Name d \<noteq> [] \<and> pd_Usage d \<noteq> 0"
proof -
  define ds where "ds = map (\<lambda>(pid, name, v). \<lparr>PID = pid, pd_Name = name, pd_Usage = v\<rparr>) (filter (\<lambda>(pid, name, v). \<not> (name = [] \<or> v = 0)) ps)"
  have top: "top_processes ps = take 3 (sort_Slice (\<lambda>d. - pd_Usage d) ds)" by (simp add: top_processes_def Let_def ds_def)
  have "sorted (map (\<lambda>d. - pd_Usage d) (sort_Slice (\<lambda>d. - pd_Usage d) ds))" by (simp add: sort_Slice_def)
  then show "length (top_processes ps) \<le> 3" "sorted_wrt (\<lambda>d e. pd_Usage e \<le> pd_Usage d) (top_processes ps)"
    unfolding top by (auto simp: sorted_wrt_map intro: sorted_wrt_take)
  assume "d \<in> set (top_processes ps)"
  then have "d \<in> set ds" unfolding top sort_Slice_def by (metis in_set_takeD set_sort)
  then show "(PID d, pd_Name d, pd_Usage d) \<in> set ps \<and> pd_Name d \<noteq> [] \<and> pd_Usage d \<noteq> 0" by (auto simp: ds_def)
qed

lemma sum_traffic_spec: "sum_traffic io = (sum_list (map fst io), sum_list (map snd io))"
proof -
  have "foldl (\<lambda>t stat. (fst t + fst stat, snd t + snd stat)) (a, b) io = (a + sum_list (map fst io), b + sum_list (map snd io))" for a b :: u64
    by (induction io arbitrary: a b) (auto simp: add.assoc)
  then show ?thesis by (simp add: sum_traffic_def)
qed

lemma VM_Collect_report:
  assumes "VM_Collect publicIP privateIP rd now latest st = (Inr report, st')"
  shows "VMID report \<noteq> []" "net_PublicIP (rep_Network report) = publicIP" "rep_Links report = BuildLinkCongestion latest"
    "rep_CPU report = fst (collectCPU st)" "ReportID report = []" "0 \<le> PortCount (rep_Network report)"
    "rd_memory rd = Inr (tot, used, free, percent) \<Longrightarrow> mem_Total (rep_Memory report) = tot"
  using assms by (auto simp: VM_Collect_def Let_def bindr_eq_Inr collectNetwork_def split: prod.splits sum.splits)

text \<open>A node that knows its address and reads its memory sends a report that the control plane accepts.\<close>

lemma report_accepted:
  assumes "VM_Collect publicIP privateIP rd now latest st = (Inr report, st')" "publicIP \<noteq> []"
    and "rd_memory rd = Inr (tot, used, free, percent)" "tot \<noteq> 0" "0 \<le> physicalCores st" "0 \<le> logicalCores st"
    and "marshal data = Inr bytes" "decode bytes = Inr (with_id uuid report)"
  shows "\<exists>resp report'. PostVMReceive marshal decode cfg now' uuid' (Inr data) = (resp, Some (DoClusterWeightedAvg cfg report'))
    \<and> resp_Code resp = 200 \<and> rep_Links report' = BuildLinkCongestion latest \<and> rep_CPU report' = fst (collectCPU st)"
proof -
  note C = VM_Collect_report [OF assms(1)]
  have mem: "mem_Total (rep_Memory report) \<noteq> 0" using C(7) [OF assms(3)] assms(4) by simp
  have cores: "PhysicalCore (fst (collectCPU st)) = physicalCores st" "LogicalCore (fst (collectCPU st)) = logicalCores st"
    by (simp_all add: collectCPU_def Let_def)
  have id: "rep_CPU (with_id uuid report) = rep_CPU report" "rep_Memory (with_id uuid report) = rep_Memory report"
    "rep_Network (with_id uuid report) = rep_Network report" "VMID (with_id uuid report) = VMID report"
    "rep_Links (with_id uuid report) = rep_Links report" by (simp_all add: with_id_def)
  have ok: "validate_report (with_id uuid report) = []"
    using assms(2, 5, 6) mem cores C by (simp add: validate_report_def id)
  let ?r = "complete_report now' uuid' (with_id uuid report)"
  have "rep_Links ?r = rep_Links report" "rep_CPU ?r = rep_CPU report" by (simp_all add: complete_report_def Let_def id)
  then have "PostVMReceive marshal decode cfg now' uuid' (Inr data)
        = (\<lparr>resp_Code = 200, resp_Msg = ''VM information reported successfully'', resp_Data = Some (ReportID ?r, CollectTime ?r)\<rparr>, Some (DoClusterWeightedAvg cfg ?r))
      \<and> rep_Links ?r = BuildLinkCongestion latest \<and> rep_CPU ?r = fst (collectCPU st)"
    using C by (simp add: PostVMReceive_def assms(7, 8) ok Let_def)
  then show ?thesis by auto
qed

section \<open>Properties\<close>

text \<open>
  C30: What a node measures is what the overlay routes by. A node with an address that reads its memory sends a report
  that the control plane accepts; the telemetry it puts to etcd carries the processor usage of the node, at least 1, and
  the watch event gives the edge from the node to every probed target that is known the weight of the last probe: the
  risk of its loss, its latency in whole milliseconds and the load of the target.
\<close>

theorem measured_link_reaches_graph:
  assumes "latest_inv latest" "\<And>k. k \<in> fst ` set latest \<Longrightarrow> CHR '':'' \<notin> set k" "gm_get latest ip = Some r"
    and "VM_Collect publicIP privateIP rd now latest st = (Inr report, st')" "publicIP \<noteq> []"
    and "rd_memory rd = Inr (tot, used, free, percent)" "tot \<noteq> 0" "0 \<le> physicalCores st" "0 \<le> logicalCores st"
    and "marshal data = Inr bytes" "decode bytes = Inr (with_id uuid report)"
    and "\<And>resp tel. PostVMReceive marshal decode cfg now' uuid' (Inr data) = (resp, Some tel) \<Longrightarrow> encode tel \<noteq> [] \<and> unmarshal (encode tel) = Some tel"
  shows "\<exists>resp tel. PostVMReceive marshal decode cfg now' uuid' (Inr data) = (resp, Some tel) \<and> resp_Code resp = 200
    \<and> CpuPressure tel = max 1 (currUsage st)
    \<and> (\<forall>cpu. link_load (gm_set (g_nodes g) (cfg_PublicIP cfg) tel) (result_link r) = Some cpu \<longrightarrow>
        (\<exists>e. GetEdge (edge_key (cfg_PublicIP cfg) (link_dst (result_link r)))
               (HandleRoutingWatchEvent unmarshal g (watch_args (EPut created key (encode tel)))) = Some e
             \<and> EdgeWeight e = EdgeRisk cpu (LossRate r) (of_int (AvgRTT r div 10 ^ 6))))"
proof -
  from report_accepted [where marshal = marshal and decode = decode and data = data, OF assms(4-11), of cfg now' uuid'] obtain resp report' where
    R: "PostVMReceive marshal decode cfg now' uuid' (Inr data) = (resp, Some (DoClusterWeightedAvg cfg report'))"
      "resp_Code resp = 200" "rep_Links report' = BuildLinkCongestion latest" "rep_CPU report' = fst (collectCPU st)" by blast
  let ?tel = "DoClusterWeightedAvg cfg report'"
  have "CpuPressure ?tel = max 1 (currUsage st)" by (simp add: DoClusterWeightedAvg_def R(4) collectCPU_def Let_def max_def)
  moreover have "HandleRoutingWatchEvent unmarshal g (watch_args (EPut created key (encode ?tel))) = AddNode ?tel g"
    using assms(12) [OF R(1)] by (simp add: HandleRoutingWatchEvent_def)
  moreover note reported_edge [OF assms(1, 2) R(3) assms(3), where g = g and cfg = cfg]
  ultimately show ?thesis using R(1, 2) by (intro exI [of _ resp] exI [of _ ?tel]) simp
qed

theorem measured_link_reaches_graph_witness:
  "\<exists>report tel. fst (VM_Collect ''10.0.0.1'' [] ex_readings 5 [(''192.0.2.7'', ex_dead)] new_sampler) = Inr report
     \<and> snd (PostVMReceive (\<lambda>d. Inr ''j'') (\<lambda>b. Inr (with_id ''id'' report)) ex_node_config 6 [] (Inr ())) = Some tel
     \<and> (\<exists>e. GetEdge ''10.0.0.1->192.0.2.7:80'' (HandleRoutingWatchEvent (\<lambda>b. Some tel) NewGraphManager (watch_args (EPut True [] ''t''))) = Some e
          \<and> EdgeWeight e = 0)"
proof -
  let ?latest = "[(''192.0.2.7'', ex_dead)]"
  obtain report st' where C: "VM_Collect ''10.0.0.1'' [] ex_readings 5 ?latest new_sampler = (Inr report, st')"
    by (cases "collectCPU new_sampler") (auto simp: VM_Collect_def ex_readings_def collectNetwork_def collectProcess_def)
  let ?post = "PostVMReceive (\<lambda>d. Inr ''j'') (\<lambda>b. Inr (with_id ''id'' report)) ex_node_config 6 [] (Inr ())"
  have inv: "latest_inv ?latest" using probe_target_bounds by (simp add: latest_inv_def ex_dead_def ex_task_def)
  have mem: "rd_memory ex_readings = Inr (8, 3, 5, 37)" by (simp add: ex_readings_def)
  have key: "edge_key (cfg_PublicIP ex_node_config) (link_dst (result_link ex_dead)) = ''10.0.0.1->192.0.2.7:80''"
    by (simp add: edge_key_def ex_node_config_def link_dst_def result_link_def ex_dead_def ex_task_def origin_addr_def itoa_def
        nat_digits.simps digit_char_def) code_simp
  have dead: "LossRate ex_dead = 1" "AvgRTT ex_dead = 1"
    unfolding ex_dead_def by (rule dead_target; simp add: ex_probe_def)+
  have load: "link_load ns (result_link ex_dead) = Some 0" for ns by (simp add: link_load_def result_link_def ex_dead_def ex_task_def)
  obtain tel where tel: "snd ?post = Some tel" "\<exists>e. GetEdge (edge_key (cfg_PublicIP ex_node_config) (link_dst (result_link ex_dead)))
      (HandleRoutingWatchEvent (\<lambda>b. Some (the (snd ?post))) NewGraphManager (watch_args (EPut True [] ''t''))) = Some e
      \<and> EdgeWeight e = EdgeRisk 0 1 0"
    using measured_link_reaches_graph [OF inv _ _ C, of "''192.0.2.7''" ex_dead 8 3 5 37 "\<lambda>d. Inr ''j''" "()" "''j''"
        "\<lambda>b. Inr (with_id ''id'' report)" "''id''" ex_node_config 6 "[]" "\<lambda>t. ''t''" "\<lambda>b. Some (the (snd ?post))" NewGraphManager True "[]"]
    by (auto simp: mem load dead new_sampler_def)
  with C key show ?thesis by (auto simp: EdgeRisk_eq)
qed

end
