(* ===== verification/IP_Library.thy ===== *)
theory IP_Library
  imports Routing_Dispatch
begin

text \<open>
  The location service of a node: \<^verbatim>\<open>src/data-plane/util/ip-lib.go\<close>, \<^verbatim>\<open>continent.go\<close> and the handler \<^verbatim>\<open>getIPInfoHandler\<close> of
  \<^verbatim>\<open>src/data-plane/main.go\<close>, with the client of the control plane (\<^verbatim>\<open>src/control-plane/util/get-ip-info.go\<close>) over it. Opening and
  searching the location database, reading files and decoding JSON are arguments. The result type of the data plane is
  field by field the one of the control plane.
\<close>

section \<open>Definitions\<close>

record ipOverride =
  ov_Country :: string
  ov_Continent :: string
  ov_Province :: string
  ov_City :: string

text \<open>A record of the location database, as far as it is used.\<close>

record ip_record =
  Country_short :: string
  db_Region :: string
  db_City :: string

type_synonym ip_db = "string \<Rightarrow> string + ip_record"

record IPLib =
  ipDb :: "ip_db option"
  ipOverrides :: "(string, ipOverride) gomap"
  countryToContinent :: "(string, string) gomap"

definition loadIPOverrides :: "string + string \<Rightarrow> (string \<Rightarrow> string + (string, ipOverride) gomap) \<Rightarrow> IPLib \<Rightarrow> IPLib" where
  "loadIPOverrides file unmarshal l =
     (case file of
        Inl err \<Rightarrow> l
      | Inr data \<Rightarrow>
          (case unmarshal data of
             Inl err \<Rightarrow> l
           | Inr raw \<Rightarrow> l\<lparr>ipOverrides := foldl (\<lambda>m kv. gm_set m (fst kv) (snd kv)) [] raw\<rparr>))"

text \<open>The database stays nil when it cannot be opened, and the function reports no error.\<close>

definition InitIPInfo :: "string + ip_db \<Rightarrow> string + string \<Rightarrow> (string \<Rightarrow> string + (string, ipOverride) gomap) \<Rightarrow> IPLib \<Rightarrow> IPLib" where
  "InitIPInfo OpenDB file unmarshal l =
     loadIPOverrides file unmarshal (l\<lparr>ipDb := (case OpenDB of Inl err \<Rightarrow> None | Inr db \<Rightarrow> Some db)\<rparr>)"

definition LoadCountryContinent :: "string + string \<Rightarrow> (string \<Rightarrow> string + (string, string \<times> string) gomap) \<Rightarrow> IPLib \<Rightarrow> IPLib result" where
  "LoadCountryContinent file unmarshal l =
     (case file of
        Inl err \<Rightarrow> Inl (GoError err)
      | Inr data \<Rightarrow>
          (case unmarshal data of
             Inl err \<Rightarrow> Inl (GoError err)
           | Inr raw \<Rightarrow> Inr (l\<lparr>countryToContinent := foldl (\<lambda>m kv. gm_set m (fst kv) (snd (snd kv))) [] raw\<rparr>)))"

definition GetContinentByCountry :: "IPLib \<Rightarrow> string \<Rightarrow> string" where
  "GetContinentByCountry l country = (case gm_get (countryToContinent l) country of Some continent \<Rightarrow> continent | None \<Rightarrow> ''Unknown'')"

text \<open>The exact entry, or the first entry in the order of the map whose key is a prefix.\<close>

definition findIPOverride :: "IPLib \<Rightarrow> string \<Rightarrow> ipOverride option" where
  "findIPOverride l ip =
     (case gm_get (ipOverrides l) ip of
        Some ov \<Rightarrow> Some ov
      | None \<Rightarrow> map_option snd (List.find (\<lambda>kv. take (length (fst kv)) ip = fst kv) (ipOverrides l)))"

definition apply_override :: "ipOverride \<Rightarrow> IPInfoResult \<Rightarrow> IPInfoResult" where
  "apply_override ov result =
     (let result = (if ov_Country ov \<noteq> [] then result\<lparr>ii_Country := ov_Country ov\<rparr> else result);
          result = (if ov_Continent ov \<noteq> [] then result\<lparr>ii_Continent := ov_Continent ov\<rparr> else result);
          result = (if ov_Province ov \<noteq> [] then result\<lparr>ii_Province := ov_Province ov\<rparr> else result)
      in if ov_City ov \<noteq> [] then result\<lparr>ii_City := ov_City ov\<rparr> else result)"

definition lookup_ip :: "IPLib \<Rightarrow> string \<Rightarrow> IPInfoResult result" where
  "lookup_ip l ip =
     (case ipDb l of
        None \<Rightarrow> Inl (GoError ''ipDb is nil'')
      | Some Get_all \<Rightarrow>
          (case Get_all ip of
             Inl err \<Rightarrow> Inl (GoError err)
           | Inr res \<Rightarrow>
               (let result = \<lparr>ii_IP = ip, ii_Country = Country_short res, ii_Continent = GetContinentByCountry l (Country_short res),
                              ii_Province = db_Region res, ii_City = db_City res, ii_ISP = []\<rparr>
                in Inr (case findIPOverride l ip of Some ov \<Rightarrow> apply_override ov result | None \<Rightarrow> result))))"

text \<open>The handler: the status and the result or the text of the error.\<close>

definition getIPInfoHandler :: "IPLib \<Rightarrow> string \<Rightarrow> int \<times> (string + IPInfoResult)" where
  "getIPInfoHandler l ip =
     (if ip = [] then (400, Inl ''ip parameter is required'')
      else case lookup_ip l ip of
             Inr ipInfo \<Rightarrow> (200, Inr ipInfo)
           | Inl (GoError err) \<Rightarrow> (500, Inl err)
           | Inl f \<Rightarrow> (500, Inl []))"

text \<open>
  The client of the control plane decodes the body whatever the status says; the object of an error has none of the
  fields of a result, so that all of them stay empty.
\<close>

definition zero_ip_info :: IPInfoResult where
  "zero_ip_info = \<lparr>ii_IP = [], ii_Country = [], ii_Continent = [], ii_Province = [], ii_City = [], ii_ISP = []\<rparr>"

definition ip_service :: "IPLib \<Rightarrow> string \<Rightarrow> IPInfoResult result" where
  "ip_service l ip = (case snd (getIPInfoHandler l ip) of Inl err \<Rightarrow> Inr zero_ip_info | Inr r \<Rightarrow> Inr r)"

definition new_lib :: IPLib where "new_lib = \<lparr>ipDb = None, ipOverrides = [], countryToContinent = []\<rparr>"

section \<open>Lemmas\<close>

lemma HasPrefix_iff: "take (length p) s = p \<longleftrightarrow> (\<exists>r. s = p @ r)"
  by (metis append_eq_conv_conj append_take_drop_id)

text \<open>An override that is found belongs to the address or to a prefix of it, and one is found whenever there is one.\<close>

lemma override_found:
  assumes "gm_ok (ipOverrides l)"
  shows "case findIPOverride l ip of
      Some ov \<Rightarrow> \<exists>p r. gm_get (ipOverrides l) p = Some ov \<and> ip = p @ r \<and> (gm_get (ipOverrides l) ip \<noteq> None \<longrightarrow> r = [])
    | None \<Rightarrow> \<forall>p r. ip = p @ r \<longrightarrow> gm_get (ipOverrides l) p = None"
proof (cases "gm_get (ipOverrides l) ip")
  case None
  show ?thesis
  proof (cases "List.find (\<lambda>kv. take (length (fst kv)) ip = fst kv) (ipOverrides l)")
    case None': None
    then have no: "take (length p) ip \<noteq> p" if "gm_get (ipOverrides l) p = Some ov" for p ov
      using map_of_SomeD [OF that] by (fastforce simp: find_None_iff)
    have "gm_get (ipOverrides l) p = None" if "ip = p @ r" for p r using no [of p] that by (cases "gm_get (ipOverrides l) p") auto
    with None None' show ?thesis by (simp add: findIPOverride_def)
  next
    case (Some kv)
    then have "kv \<in> set (ipOverrides l)" "take (length (fst kv)) ip = fst kv" by (auto simp: find_Some_iff)
    then have "gm_get (ipOverrides l) (fst kv) = Some (snd kv)" "\<exists>r. ip = fst kv @ r"
      using assms by (auto simp: HasPrefix_iff)
    with None Some show ?thesis by (auto simp: findIPOverride_def)
  qed
next
  case (Some ov)
  then show ?thesis by (auto simp: findIPOverride_def)
qed

text \<open>Two orders of the same map of overrides give different results: the longest prefix does not win.\<close>

lemma override_depends_on_order:
  "\<exists>m m' l. mset m = mset m' \<and> gm_ok m \<and> findIPOverride (l\<lparr>ipOverrides := m\<rparr>) ''47.86.1.1'' \<noteq> findIPOverride (l\<lparr>ipOverrides := m'\<rparr>) ''47.86.1.1''"
proof -
  let ?a = "(''47'', \<lparr>ov_Country = ''US'', ov_Continent = [], ov_Province = [], ov_City = []\<rparr>)"
  let ?b = "(''47.86'', \<lparr>ov_Country = ''HK'', ov_Continent = [], ov_Province = [], ov_City = []\<rparr>)"
  show ?thesis by (intro exI [of _ "[?a, ?b]"] exI [of _ "[?b, ?a]"] exI [of _ new_lib]) (simp add: findIPOverride_def)
qed

text \<open>An error of the location service reaches the router as an empty location, not as an error.\<close>

lemma error_becomes_empty_location:
  assumes "lookup_ip l (ep_IP (ep_Source eps)) = Inl (GoError err)" "ep_IP (ep_Source eps) \<noteq> []"
  shows "LastRouting (ip_service l) ip g a eps algorithm cpuW latencyW
    = routing_of (last_Computing ip (li_Operate (InitLastInterface g a algorithm cpuW latencyW)) (located zero_ip_info eps))"
  using assms by (simp add: LastRouting_def GetIPInfo_def ip_service_def getIPInfoHandler_def)

lemma located_known:
  assumes "ipDb l = Some db" "db (ep_IP (ep_Source eps)) = Inr res" "findIPOverride l (ep_IP (ep_Source eps)) = None" "ep_IP (ep_Source eps) \<noteq> []"
  shows "GetIPInfo (ip_service l) (ep_IP (ep_Source eps))
    = Inr \<lparr>ii_IP = ep_IP (ep_Source eps), ii_Country = Country_short res, ii_Continent = GetContinentByCountry l (Country_short res),
           ii_Province = db_Region res, ii_City = db_City res, ii_ISP = []\<rparr>"
  using assms by (simp add: GetIPInfo_def ip_service_def getIPInfoHandler_def lookup_ip_def Let_def)

end
