(* ===== verification/User_Telemetry.thy ===== *)
theory User_Telemetry
  imports IP_Library Control_API
begin

text \<open>
  The user latencies of a node: \<^verbatim>\<open>src/data-plane/edge-domain/telemetry.go\<close> (reading the access log, the statistics per city) and
  \<^verbatim>\<open>report.go\<close> (sending them). The contents of the log, the clock, reading times and numbers and the transport are
  arguments; times are in nanoseconds and text is ASCII. The records are guarded by a lock, so that appending a record and
  taking the records of the window are one step each.
\<close>

section \<open>Definitions\<close>

record Record =
  rec_Ts :: int
  rec_ClientIP :: string
  ConnRT :: int
  rec_Continent :: string
  rec_Country :: string
  rec_Province :: string
  rec_City :: string

definition window :: int where "window = 10 * 10 ^ 9"

subsection \<open>Reading the log\<close>

text \<open>
  \<^verbatim>\<open>extract\<close>: the leftmost place where the key is followed by at least one character of the class, and the longest run of
  such characters there.
\<close>

fun extract_field :: "(char \<Rightarrow> bool) \<Rightarrow> string \<Rightarrow> string \<Rightarrow> string" where
  "extract_field ok key [] = []"
| "extract_field ok key (c # s) =
     (let m = takeWhile ok (drop (length key) (c # s)) in
      if take (length key) (c # s) = key \<and> m \<noteq> [] then m else extract_field ok key s)"

definition not_blank :: "char \<Rightarrow> bool" where
  "not_blank c = ((of_char c :: nat) \<notin> {9, 10, 12, 13, 32})"

definition digit_or_dot :: "char \<Rightarrow> bool" where
  "digit_or_dot c = (c = CHR ''.'' \<or> is_digit c)"

text \<open>\<^verbatim>\<open>math.Round\<close>: halves away from zero.\<close>

definition go_round :: "real \<Rightarrow> int" where
  "go_round x = (if x \<ge> 0 then \<lfloor>x + 1 / 2\<rfloor> else - \<lfloor>- x + 1 / 2\<rfloor>)"

text \<open>\<^verbatim>\<open>bufio.ScanLines\<close>: lines without their end, a carriage return before it dropped.\<close>

definition drop_cr :: "string \<Rightarrow> string" where
  "drop_cr s = (if s \<noteq> [] \<and> last s = CHR 0x0D then butlast s else s)"

fun scan_lines :: "string \<Rightarrow> string \<Rightarrow> string list" where
  "scan_lines acc [] = (if acc = [] then [] else [drop_cr acc])"
| "scan_lines acc (c # s) = (if c = CHR 0x0A then drop_cr acc # scan_lines [] s else scan_lines (acc @ [c]) s)"

definition readSize :: nat where "readSize = 32 * 1024"

text \<open>
  The part of the file that is scanned: from the first line start among the first 1024 bytes of the tail, or from the
  end of these bytes when no line starts there.
\<close>

definition log_tail :: "string \<Rightarrow> string" where
  "log_tail content =
     (let startPos = (if length content > readSize then length content - readSize else 0) in
      if startPos > 0
      then let buf = take 1024 (drop startPos content); idx = length (takeWhile (\<lambda>c. c \<noteq> CHR 0x0A) buf)
           in if idx < length buf then drop (startPos + idx + 1) content else drop (startPos + length buf) content
      else content)"

definition parse_record :: "(string \<Rightarrow> int option) \<Rightarrow> (string \<Rightarrow> real) \<Rightarrow> IPLib \<Rightarrow> string \<Rightarrow> Record option" where
  "parse_record ParseTime ParseFloat l line =
     (let tsStr = extract_field not_blank ''time='' line;
          ip = extract_field not_blank ''client_ip='' line;
          rtStr = extract_field digit_or_dot ''conn_rt_ms='' line
      in if tsStr = [] \<or> ip = [] \<or> rtStr = [] then None
         else case ParseTime tsStr of
                None \<Rightarrow> None
              | Some ts \<Rightarrow>
                  (case lookup_ip l ip of
                     Inl err \<Rightarrow> None
                   | Inr ipInfo \<Rightarrow> Some \<lparr>rec_Ts = ts, rec_ClientIP = ip, ConnRT = go_round (ParseFloat rtStr), rec_Continent = [],
                       rec_Country = ii_Country ipInfo, rec_Province = ii_Province ipInfo, rec_City = ii_City ipInfo\<rparr>))"

definition readLatestLogs :: "(string \<Rightarrow> int option) \<Rightarrow> (string \<Rightarrow> real) \<Rightarrow> IPLib \<Rightarrow> string + string \<Rightarrow> Record list \<Rightarrow> Record list" where
  "readLatestLogs ParseTime ParseFloat l file records =
     (case file of
        Inl err \<Rightarrow> records
      | Inr content \<Rightarrow> records @ List.map_filter (parse_record ParseTime ParseFloat l) (scan_lines [] (log_tail content)))"

subsection \<open>The statistics\<close>

definition add_record :: "(string, LastCongestion) gomap \<times> (string, int list) gomap \<Rightarrow> Record
    \<Rightarrow> (string, LastCongestion) gomap \<times> (string, int list) gomap" where
  "add_record acc r =
     (let (agg, rts) = acc; key = rec_City r;
          s = (case gm_get agg key of None \<Rightarrow> zero_congestion | Some s \<Rightarrow> s)
      in (gm_set agg key (s\<lparr>Count := Count s + 1, SumRT := SumRT s + of_int (ConnRT r)\<rparr>),
          gm_set rts key (gm_list rts key @ [ConnRT r])))"

definition finish_stat :: "int list \<Rightarrow> LastCongestion \<Rightarrow> LastCongestion" where
  "finish_stat rtList s =
     (let s = s\<lparr>AvgRT := SumRT s / of_int (Count s)\<rparr>;
          s = (if AvgRT s \<le> 0 then s\<lparr>AvgRT := 1\<rparr> else s)
      in if rtList = [] then s
         else let rtList = sort rtList;
                  p95Idx = nat \<lfloor>real (length rtList) * (95 / 100)\<rfloor>;
                  p95Idx = (if p95Idx \<ge> length rtList then length rtList - 1 else p95Idx);
                  s = s\<lparr>P95RT := rtList ! p95Idx\<rparr>
              in if P95RT s \<le> 0 then s\<lparr>P95RT := 1\<rparr> else s)"

text \<open>The records of the window, or all records when the window is empty; these are also the records kept.\<close>

definition valid_records :: "int \<Rightarrow> Record list \<Rightarrow> Record list" where
  "valid_records now records =
     (let valid = filter (\<lambda>r. now - rec_Ts r \<le> window) records in
      if valid = [] \<and> records \<noteq> [] then records else valid)"

definition calculateLastCongestion :: "int \<Rightarrow> Record list \<Rightarrow> (string, LastCongestion) gomap \<times> Record list" where
  "calculateLastCongestion now records =
     (let valid = valid_records now records;
          (agg, rts) = foldl add_record ([], []) valid
      in (map (\<lambda>(k, s). (k, finish_stat (gm_list rts k) s)) agg, valid))"

subsection \<open>Sending\<close>

definition last_telemetry :: "NodeConfig \<Rightarrow> (string, LastCongestion) gomap \<Rightarrow> LastTelemetry" where
  "last_telemetry c delayStats =
     \<lparr>LastsCongestion = map (\<lambda>(k, s). (k, Some s)) delayStats, lt_IP = cfg_PublicIP c, lt_Continent = cfg_Continent c,
      lt_Country = cfg_Country c, lt_City = cfg_City c\<rparr>"

definition SendLastTelemetry ::
  "(LastTelemetry \<Rightarrow> string + 'j) \<Rightarrow> (string \<Rightarrow> 'j \<Rightarrow> string + string) \<Rightarrow> (string \<Rightarrow> string + int \<times> string) \<Rightarrow> string \<Rightarrow> NodeConfig
     \<Rightarrow> (string, LastCongestion) gomap \<Rightarrow> unit result" where
  "SendLastTelemetry marshal post decode controlHost c delayStats =
     (case marshal (last_telemetry c delayStats) of
        Inl err \<Rightarrow> Inl (GoError err)
      | Inr jsonData \<Rightarrow>
          (case post (controlHost @ ''/api/v1/last/receive?ip='' @ cfg_PublicIP c) jsonData of
             Inl err \<Rightarrow> Inl (GoError err)
           | Inr resp \<Rightarrow>
               (case decode resp of
                  Inl err \<Rightarrow> Inl (GoError err)
                | Inr (code, msg) \<Rightarrow>
                    if code \<noteq> 200 then Inl (GoError (''control-plane processing failed: code='' @ itoa code @ '', msg='' @ msg)) else Inr ())))"

text \<open>One tick of the reporter: what is sent, if anything, and the records kept.\<close>

definition report_tick :: "NodeConfig \<Rightarrow> int \<Rightarrow> Record list \<Rightarrow> LastTelemetry option \<times> Record list" where
  "report_tick c now records =
     (let (agg, records) = calculateLastCongestion now records
      in (if length agg > 0 then Some (last_telemetry c agg) else None, records))"

text \<open>The response times of a city, and their mean as it is reported.\<close>

definition city_times :: "string \<Rightarrow> Record list \<Rightarrow> int list" where
  "city_times city records = map ConnRT (filter (\<lambda>r. rec_City r = city) records)"

definition mean_time :: "int list \<Rightarrow> real" where
  "mean_time xs = (let m = of_int (sum_list xs) / of_nat (length xs) in if m \<le> 0 then 1 else m)"

text \<open>The percentile: a time of the list, or 1 for a time that is not positive, with at least 95 percent of the times at most as large.\<close>

definition percentile_ok :: "int list \<Rightarrow> int \<Rightarrow> bool" where
  "percentile_ok xs p = ((p \<in> set xs \<or> p = 1) \<and> 1 \<le> p \<and> real (length xs) * (95 / 100) \<le> real (length (filter (\<lambda>x. x \<le> p) xs)))"

text \<open>A sample.\<close>

definition ex_record :: "string \<Rightarrow> int \<Rightarrow> int \<Rightarrow> Record" where
  "ex_record city ts rt = \<lparr>rec_Ts = ts, rec_ClientIP = ''203.0.113.9'', ConnRT = rt, rec_Continent = [], rec_Country = [], rec_Province = [], rec_City = city\<rparr>"

definition ex_records :: "Record list" where
  "ex_records = [ex_record ''Paris'' 5 20, ex_record ''Paris'' 7 40, ex_record ''Oslo'' 7 90]"

definition ex_reporter :: NodeConfig where
  "ex_reporter = \<lparr>cfg_PublicIP = ''10.0.0.1'', cfg_Provider = [], cfg_Continent = [], cfg_Country = [], cfg_City = []\<rparr>"

section \<open>Lemmas: the log\<close>

lemma scan_lines_line:
  assumes "CHR 0x0A \<notin> set w"
  shows "scan_lines acc (w @ CHR 0x0A # s) = drop_cr (acc @ w) # scan_lines [] s"
  using assms by (induction w arbitrary: acc) auto

lemma drop_whole_line:
  assumes "CHR 0x0A \<notin> set w"
  shows "scan_lines [] (drop (Suc (length w)) (w @ CHR 0x0A # s)) = tl (scan_lines [] (w @ CHR 0x0A # s))"
  using scan_lines_line [OF assms, of "[]" s] by simp

lemma scan_lines_append: "scan_lines acc (s @ [CHR 0x0A] @ t) = scan_lines acc (s @ [CHR 0x0A]) @ scan_lines [] t"
  by (induction s arbitrary: acc) auto

text \<open>Only whole lines of the file are scanned, as long as a line starts in the first 1024 bytes of the tail.\<close>

lemma log_tail_lines:
  assumes "length content > readSize \<Longrightarrow> CHR 0x0A \<in> set (take 1024 (drop (length content - readSize) content))"
  shows "\<exists>pre. content = pre @ log_tail content \<and> (pre = [] \<or> last pre = CHR 0x0A)"
proof (cases "length content > readSize")
  case True
  define p where "p = length content - readSize"
  define buf where "buf = take 1024 (drop p content)"
  define idx where "idx = length (takeWhile (\<lambda>c. c \<noteq> CHR 0x0A) buf)"
  have "CHR 0x0A \<in> set buf" using assms True by (simp add: p_def buf_def)
  then obtain w z where buf: "buf = w @ CHR 0x0A # z" "CHR 0x0A \<notin> set w" by (meson split_list_first)
  have tw: "takeWhile (\<lambda>c. c \<noteq> CHR 0x0A) (w @ CHR 0x0A # z) = w" using buf(2) by (induction w) auto
  have idx: "idx = length w" by (simp only: idx_def buf(1) tw)
  have eq: "log_tail content = drop (p + idx + 1) content"
    using True buf(1) idx by (simp add: log_tail_def Let_def p_def [symmetric] buf_def [symmetric] tw) (simp add: p_def)
  have "content = take p content @ buf @ drop 1024 (drop p content)" by (simp only: buf_def append_take_drop_id)
  then have "content = (take p content @ w @ [CHR 0x0A]) @ z @ drop 1024 (drop p content)" by (simp add: buf(1))
  moreover have "length (take p content @ w @ [CHR 0x0A]) = p + idx + 1" using True by (simp add: p_def idx)
  ultimately have "take (p + idx + 1) content = take p content @ w @ [CHR 0x0A]" by (metis append_eq_conv_conj)
  then have "last (take (p + idx + 1) content) = CHR 0x0A" by simp
  moreover have "content = take (p + idx + 1) content @ log_tail content" unfolding eq by (rule append_take_drop_id [symmetric])
  ultimately show ?thesis by blast
qed (simp add: log_tail_def)

text \<open>Reading an unchanged log again appends its records again.\<close>

lemma read_twice:
  "readLatestLogs pt pf l (Inr content) (readLatestLogs pt pf l (Inr content) []) =
     readLatestLogs pt pf l (Inr content) [] @ readLatestLogs pt pf l (Inr content) []"
  by (simp add: readLatestLogs_def)

lemma idle_keeps_all:
  assumes "\<forall>r \<in> set records. now - rec_Ts r > window"
  shows "snd (calculateLastCongestion now records) = records"
  using assms by (auto simp: calculateLastCongestion_def valid_records_def Let_def filter_empty_conv split: prod.split)

section \<open>Lemmas: the statistics\<close>

lemma add_records_spec:
  defines "acc rs \<equiv> foldl add_record ([], []) rs"
  shows "gm_ok (fst (acc rs)) \<and> gm_get (fst (acc rs)) city = (if city_times city rs = [] then None
      else Some \<lparr>Count = int (length (city_times city rs)), SumRT = of_int (sum_list (city_times city rs)), AvgRT = 0, P95RT = 0\<rparr>)
    \<and> gm_list (snd (acc rs)) city = city_times city rs"
proof (induction rs rule: rev_induct)
  case Nil
  show ?case by (simp add: acc_def city_times_def)
next
  case (snoc r rs)
  have step: "acc (rs @ [r]) = add_record (acc rs) r" by (simp add: acc_def)
  obtain agg rts where acc: "acc rs = (agg, rts)" by force
  show ?case
  proof (cases "rec_City r = city")
    case True
    then have "city_times city (rs @ [r]) = city_times city rs @ [ConnRT r]" by (simp add: city_times_def)
    with snoc True show ?thesis unfolding step acc
      by (auto simp: add_record_def Let_def update_conv' distinct_update zero_congestion_def)
  next
    case False
    then have "city_times city (rs @ [r]) = city_times city rs" by (simp add: city_times_def)
    with snoc False show ?thesis unfolding step acc
      by (simp add: add_record_def Let_def update_conv' distinct_update)
  qed
qed

lemma p95_index: "xs \<noteq> [] \<Longrightarrow> nat \<lfloor>real (length xs) * (95 / 100)\<rfloor> < length xs"
proof -
  assume "xs \<noteq> []"
  then have "real (length xs) * (95 / 100) < real (length xs)" by simp
  then have "\<lfloor>real (length xs) * (95 / 100)\<rfloor> < int (length xs)" by (simp add: floor_less_iff)
  then show ?thesis using \<open>xs \<noteq> []\<close> by (simp add: nat_less_iff)
qed

text \<open>The element at an index of the sorted list is at least as large as that many elements of the list, and one more.\<close>

lemma sorted_rank:
  fixes xs :: "int list"
  assumes "i < length xs"
  shows "sort xs ! i \<in> set xs" "Suc i \<le> length (filter (\<lambda>x. x \<le> sort xs ! i) xs)"
proof -
  have len: "i < length (sort xs)" using assms by simp
  then show "sort xs ! i \<in> set xs" by (metis nth_mem set_sort)
  have "x \<le> sort xs ! i" if "x \<in> set (take (Suc i) (sort xs))" for x
    using that len by (auto simp: in_set_conv_nth sorted_nth_mono)
  then have "filter (\<lambda>x. x \<le> sort xs ! i) (take (Suc i) (sort xs)) = take (Suc i) (sort xs)" by (simp add: filter_id_conv)
  then have "Suc i \<le> length (filter (\<lambda>x. x \<le> sort xs ! i) (take (Suc i) (sort xs)))" using len by simp
  also have "\<dots> \<le> length (filter (\<lambda>x. x \<le> sort xs ! i) (sort xs))"
    by (subst (2) append_take_drop_id [of "Suc i" "sort xs", symmetric]) (simp only: filter_append length_append le_add1)
  also have "\<dots> = length (filter (\<lambda>x. x \<le> sort xs ! i) xs)"
    by (metis mset_filter mset_sort size_mset)
  finally show "Suc i \<le> length (filter (\<lambda>x. x \<le> sort xs ! i) xs)" .
qed

lemma finish_stat_spec:
  assumes "xs \<noteq> []"
  shows "\<exists>p. finish_stat xs \<lparr>Count = int (length xs), SumRT = of_int (sum_list xs), AvgRT = 0, P95RT = 0\<rparr>
      = \<lparr>Count = int (length xs), SumRT = of_int (sum_list xs), AvgRT = mean_time xs, P95RT = p\<rparr> \<and> percentile_ok xs p"
proof -
  define i where "i = nat \<lfloor>real (length xs) * (95 / 100)\<rfloor>"
  have i: "i < length xs" unfolding i_def by (rule p95_index [OF assms])
  have idx: "nat \<lfloor>real (length xs) * 19 / 20\<rfloor> = i" by (simp add: i_def)
  define v where "v = sort xs ! i"
  define p where "p = (if v \<le> 0 then 1 else v)"
  have eq: "finish_stat xs \<lparr>Count = int (length xs), SumRT = of_int (sum_list xs), AvgRT = 0, P95RT = 0\<rparr>
      = \<lparr>Count = int (length xs), SumRT = of_int (sum_list xs), AvgRT = mean_time xs, P95RT = p\<rparr>"
    using assms i idx unfolding p_def v_def by (simp add: finish_stat_def mean_time_def Let_def)
  have "real (length xs) * (95 / 100) \<le> real (Suc i)" unfolding i_def by linarith
  also have "\<dots> \<le> real (length (filter (\<lambda>x. x \<le> v) xs))" using sorted_rank(2) [OF i] by (simp add: v_def)
  also have "\<dots> \<le> real (length (filter (\<lambda>x. x \<le> p) xs))"
  proof -
    have "filter (\<lambda>x. x \<le> v) xs = filter (\<lambda>x. x \<le> v) (filter (\<lambda>x. x \<le> p) xs)" by (auto simp: p_def intro!: filter_cong)
    then show ?thesis by (metis length_filter_le of_nat_mono)
  qed
  finally have "percentile_ok xs p" using sorted_rank(1) [OF i] by (auto simp: percentile_ok_def p_def v_def)
  with eq show ?thesis by blast
qed

lemma calculate_spec:
  fixes now :: int and records :: "Record list"
  defines "agg \<equiv> fst (calculateLastCongestion now records)" and "valid \<equiv> valid_records now records"
  shows "gm_ok agg \<and> (case gm_get agg city of
      None \<Rightarrow> city_times city valid = []
    | Some s \<Rightarrow> city_times city valid \<noteq> [] \<and> Count s = int (length (city_times city valid))
        \<and> SumRT s = of_int (sum_list (city_times city valid)) \<and> AvgRT s = mean_time (city_times city valid)
        \<and> percentile_ok (city_times city valid) (P95RT s))"
proof -
  obtain a rts where acc: "foldl add_record ([], []) valid = (a, rts)" by force
  note spec = add_records_spec [where rs = valid and city = city, unfolded acc, simplified]
  have "agg = map (\<lambda>kv. (fst kv, finish_stat (gm_list rts (fst kv)) (snd kv))) a"
    by (simp add: agg_def calculateLastCongestion_def Let_def valid_def [symmetric] acc case_prod_beta')
  then have "gm_ok agg" "gm_get agg city = map_option (finish_stat (gm_list rts city)) (gm_get a city)"
    using spec by (simp_all add: gm_get_map comp_def)
  note agg = this
  show ?thesis
  proof (cases "city_times city valid = []")
    case True
    with agg spec show ?thesis by simp
  next
    case False
    from finish_stat_spec [OF this] obtain p where
      "finish_stat (city_times city valid) \<lparr>Count = int (length (city_times city valid)), SumRT = of_int (sum_list (city_times city valid)),
          AvgRT = 0, P95RT = 0\<rparr>
        = \<lparr>Count = int (length (city_times city valid)), SumRT = of_int (sum_list (city_times city valid)),
           AvgRT = mean_time (city_times city valid), P95RT = p\<rparr>" "percentile_ok (city_times city valid) p" by blast
    with agg spec False show ?thesis by simp
  qed
qed

section \<open>Lemmas: the statistics of the control plane\<close>

lemma rebuild_ok: "list_all no_nil (gm_vals (nodeLast g)) \<Longrightarrow> \<exists>g'. rebuildAggregate g = Inr g'"
  using agg_nodes_rep [of "[]" "\<lambda>_. []" "gm_vals (nodeLast g)"] by (auto simp: rebuildAggregate_def agg_rep_def list_all_iff)

lemma agg_key_inj:
  assumes "CHR ''-'' \<notin> set ip" "CHR ''-'' \<notin> set ip'"
  shows "agg_key u ip = agg_key u' ip' \<longleftrightarrow> u = u' \<and> ip = ip'"
proof
  assume eq: "agg_key u ip = agg_key u' ip'"
  have "takeWhile (\<lambda>c. c \<noteq> CHR ''-'') (rev (agg_key v i)) = rev i" if "CHR ''-'' \<notin> set i" for v i
    using that by (simp add: agg_key_def takeWhile_append2 takeWhile_tail) (metis (mono_tags, lifting) rev_rev_ident set_rev takeWhile_tail takeWhile_eq_all_conv)
  then have "rev ip = rev ip'" using eq assms by metis
  then show "u = u' \<and> ip = ip'" using eq by (simp add: agg_key_def)
qed simp

lemma samples_one_node:
  assumes "gm_ok m" "\<forall>(k, n) \<in> set m. k = lt_IP n \<and> CHR ''-'' \<notin> set k" "gm_get m ip = Some n"
  shows "samples (agg_key u ip) (gm_vals m) = node_samples (agg_key u ip) n"
proof -
  have n: "(ip, n) \<in> set m" using assms(3) by (rule map_of_SomeD)
  have other: "node_samples (agg_key u ip) n' = []" if "(k, n') \<in> set m" "k \<noteq> ip" for k n'
  proof -
    have "CHR ''-'' \<notin> set ip" "CHR ''-'' \<notin> set (lt_IP n')" "lt_IP n' \<noteq> ip" using assms(2) n that by auto
    then show ?thesis by (auto simp: node_samples_def agg_key_inj split: option.splits)
  qed
  show ?thesis using assms(1, 3) other
  proof (induction m)
    case (Cons kn m)
    obtain k n' where kn: "kn = (k, n')" by force
    show ?case
    proof (cases "k = ip")
      case True
      then have "n' = n" using Cons.prems(2) kn by simp
      moreover have "samples (agg_key u ip) (gm_vals m) = []"
        using Cons.prems(1, 3) True kn by (force simp: samples_def)
      ultimately show ?thesis by (simp add: kn)
    next
      case False
      have "node_samples (agg_key u ip) n' = []" using Cons.prems(3) [of k n'] False kn by simp
      moreover have "samples (agg_key u ip) (gm_vals m) = node_samples (agg_key u ip) n"
        by (rule Cons.IH) (use Cons.prems False kn in auto)
      ultimately show ?thesis by (simp add: kn)
    qed
  qed simp
qed

lemma node_samples_sent:
  "gm_ok agg \<Longrightarrow> node_samples (agg_key city (cfg_PublicIP c)) (last_telemetry c agg)
     = (case gm_get agg city of Some s \<Rightarrow> [s] | None \<Rightarrow> [])"
proof -
  have none: "u \<notin> fst ` set m \<Longrightarrow> concat (map (\<lambda>(k, s). if agg_key k ip = agg_key u ip then [s] else []) m) = []"
    for u ip and m :: "(string, LastCongestion) gomap"
    by (induction m) (auto simp: agg_key_def)
  have "gm_ok m \<Longrightarrow> concat (map (\<lambda>(k, s). if agg_key k ip = agg_key u ip then [s] else []) m)
      = (case gm_get m u of Some s \<Rightarrow> [s] | None \<Rightarrow> [])" for u ip and m :: "(string, LastCongestion) gomap"
    by (induction m) (auto simp: agg_key_def none [unfolded agg_key_def] split: option.splits dest!: map_of_SomeD intro: rev_image_eqI)
  then show "gm_ok agg \<Longrightarrow> ?thesis" by (simp add: node_samples_def last_telemetry_def comp_def case_prod_beta')
qed

section \<open>Properties\<close>




end
