(* ===== verification/Conn_Pool.thy ===== *)
theory Conn_Pool
  imports Sky_Prelude
begin

text \<open>
  \<^verbatim>\<open>src/data-proxy/backsourcer/tcp_pool.go\<close>: the pool of connections to origin servers. A connection is a number; which
  connections have been closed is part of the state. The pool is guarded by a lock, so that taking a connection out,
  putting one back, cleaning and closing are one step each; dialling and the exchange over a connection are arguments.
  The clock is read anew for every connection that \<^verbatim>\<open>Get\<close> looks at.
\<close>

section \<open>Definitions\<close>

record pooledConn =
  pc_conn :: nat
  pc_created :: int
  pc_lastUsed :: int

record TCPConnPool =
  pools :: "(string, pooledConn list) gomap"
  maxIdle :: int
  maxLifetime :: int
  pool_closed :: "nat list"

definition NewTCPConnPool :: "int \<Rightarrow> int \<Rightarrow> TCPConnPool" where
  "NewTCPConnPool idle lifetime = \<lparr>pools = [], maxIdle = idle, maxLifetime = lifetime, pool_closed = []\<rparr>"

definition pc_expired :: "int \<Rightarrow> int \<Rightarrow> pooledConn \<Rightarrow> bool" where
  "pc_expired lifetime now pc = (now - pc_lastUsed pc > lifetime \<or> now - pc_created pc > lifetime * 2)"

text \<open>Cleaning closes the expired connections of every list, in order, and drops the lists that are empty then.\<close>

definition pool_cleanup :: "int \<Rightarrow> TCPConnPool \<Rightarrow> TCPConnPool" where
  "pool_cleanup now p =
     (let expired = pc_expired (maxLifetime p) now
      in p\<lparr>pools := filter (\<lambda>(addr, lst). length lst \<noteq> 0) (map (\<lambda>(addr, lst). (addr, filter (\<lambda>pc. \<not> expired pc) lst)) (pools p)),
           pool_closed := pool_closed p @ concat (map (\<lambda>(addr, lst). map pc_conn (filter expired lst)) (pools p))\<rparr>)"

text \<open>The search for a connection: expired ones are closed, the first other one is taken.\<close>

fun get_loop :: "int \<Rightarrow> (nat \<Rightarrow> int) \<Rightarrow> nat \<Rightarrow> pooledConn list \<Rightarrow> nat list \<Rightarrow> pooledConn option \<times> pooledConn list \<times> nat list" where
  "get_loop lifetime clock i [] cl = (None, [], cl)"
| "get_loop lifetime clock i (pc # lst) cl =
     (if clock i - pc_lastUsed pc > lifetime then get_loop lifetime clock (Suc i) lst (cl @ [pc_conn pc]) else (Some pc, lst, cl))"

definition pool_Get :: "(nat \<Rightarrow> int) \<Rightarrow> (string \<Rightarrow> string + nat) \<Rightarrow> string \<Rightarrow> TCPConnPool \<Rightarrow> nat result \<times> TCPConnPool" where
  "pool_Get clock dial addr p =
     (let lst = gm_list (pools p) addr;
          (found, rest, cl) = get_loop (maxLifetime p) clock 0 lst (pool_closed p);
          p' = p\<lparr>pools := gm_set (pools p) addr rest, pool_closed := cl\<rparr>
      in case found of
           Some pc \<Rightarrow> (Inr (pc_conn pc), p')
         | None \<Rightarrow> (case dial addr of Inl err \<Rightarrow> (Inl (GoError err), p') | Inr conn \<Rightarrow> (Inr conn, p')))"

definition pool_Put :: "int \<Rightarrow> string \<Rightarrow> nat option \<Rightarrow> bool \<Rightarrow> TCPConnPool \<Rightarrow> TCPConnPool" where
  "pool_Put now addr conn healthy p =
     (case conn of
        None \<Rightarrow> p
      | Some c \<Rightarrow>
          (case gm_get (pools p) addr of
             None \<Rightarrow> p\<lparr>pool_closed := pool_closed p @ [c]\<rparr>
           | Some lst \<Rightarrow>
               if \<not> healthy \<or> int (length lst) \<ge> maxIdle p then p\<lparr>pool_closed := pool_closed p @ [c]\<rparr>
               else p\<lparr>pools := gm_set (pools p) addr (\<lparr>pc_conn = c, pc_created = now, pc_lastUsed = now\<rparr> # lst)\<rparr>))"

definition pool_Close :: "TCPConnPool \<Rightarrow> TCPConnPool" where
  "pool_Close p = p\<lparr>pools := [], pool_closed := pool_closed p @ concat (map (map pc_conn) (gm_vals (pools p)))\<rparr>"

text \<open>A request over a pooled connection: writing it and reading a line are arguments.\<close>

definition pool_DoRequest ::
  "(nat \<Rightarrow> byte list \<Rightarrow> string option) \<Rightarrow> (nat \<Rightarrow> string + byte list) \<Rightarrow> (nat \<Rightarrow> int) \<Rightarrow> int \<Rightarrow> (string \<Rightarrow> string + nat) \<Rightarrow> string \<Rightarrow> byte list \<Rightarrow> TCPConnPool
     \<Rightarrow> byte list result \<times> TCPConnPool" where
  "pool_DoRequest write readLine clock now dial addr reqData p =
     (case pool_Get clock dial addr p of
        (Inl err, p) \<Rightarrow> (Inl err, p)
      | (Inr conn, p) \<Rightarrow>
          (case write conn reqData of
             Some err \<Rightarrow> (Inl (GoError err), pool_Put now addr (Some conn) False p)
           | None \<Rightarrow>
               (case readLine conn of
                  Inl err \<Rightarrow> (Inl (GoError err), pool_Put now addr (Some conn) False p)
                | Inr line \<Rightarrow> (Inr line, pool_Put now addr (Some conn) True p))))"

text \<open>
  The pool with its users: the connections in use and all connections ever opened. A user takes a connection, puts back
  one it holds, and the cleaner and the owner run at any time. Dialling gives a connection that was not open before.
\<close>

inductive pool_step :: "TCPConnPool \<times> nat set \<times> nat set \<Rightarrow> TCPConnPool \<times> nat set \<times> nat set \<Rightarrow> bool" where
  got: "pool_Get clock dial addr p = (Inr c, p') \<Longrightarrow> (\<And>c'. dial addr = Inr c' \<Longrightarrow> c' \<notin> opened)
    \<Longrightarrow> pool_step (p, used, opened) (p', insert c used, insert c opened)"
| refused: "pool_Get clock dial addr p = (Inl err, p') \<Longrightarrow> pool_step (p, used, opened) (p', used, opened)"
| put: "c \<in> used \<Longrightarrow> pool_step (p, used, opened) (pool_Put now addr (Some c) healthy p, used - {c}, opened)"
| clean: "pool_step (p, used, opened) (pool_cleanup now p, used, opened)"
| close: "pool_step (p, used, opened) (pool_Close p, used, opened)"

text \<open>The idle connections, and the invariant: every connection opened is idle, in use or closed, in one way and once.\<close>

definition idle_conns :: "TCPConnPool \<Rightarrow> nat list" where
  "idle_conns p = concat (map (map pc_conn) (gm_vals (pools p)))"

definition pool_inv :: "int \<Rightarrow> TCPConnPool \<times> nat set \<times> nat set \<Rightarrow> bool" where
  "pool_inv idle s = (case s of (p, used, opened) \<Rightarrow>
     finite opened \<and> finite used \<and> mset (idle_conns p) + mset (pool_closed p) + mset_set used = mset_set opened
     \<and> gm_ok (pools p) \<and> maxIdle p = idle \<and> (\<forall>(a, l) \<in> set (pools p). int (length l) \<le> max 0 idle
          \<and> (\<forall>pc \<in> set l. pc_created pc = pc_lastUsed pc)))"

definition lists_ok :: "int \<Rightarrow> (string, pooledConn list) gomap \<Rightarrow> bool" where
  "lists_ok idle m = (gm_ok m \<and> (\<forall>(a, l) \<in> set m. int (length l) \<le> max 0 idle \<and> (\<forall>pc \<in> set l. pc_created pc = pc_lastUsed pc)))"

section \<open>Lemmas: the connections of the pool\<close>

lemma idle_set:
  assumes "gm_ok (m :: (string, pooledConn list) gomap)"
  shows "mset (concat (map (map pc_conn) (gm_vals (gm_set m a l)))) + mset (map pc_conn (gm_list m a))
    = mset (concat (map (map pc_conn) (gm_vals m))) + mset (map pc_conn l)"
  using assms
proof (induction m)
  case (Cons kv m)
  show ?case
  proof (cases "fst kv = a")
    case True
    then have "gm_set (kv # m) a l = (a, l) # m" by (cases kv) simp
    moreover have "gm_list (kv # m) a = snd kv" using True by (cases kv) (simp add: gm_list_def)
    ultimately show ?thesis by simp
  next
    case False
    then have "gm_set (kv # m) a l = kv # gm_set m a l" "gm_list (kv # m) a = gm_list m a"
      by (cases kv; simp add: gm_list_def)+
    with Cons show ?thesis by simp
  qed
qed (simp add: gm_list_def)

lemma get_loop_spec:
  "get_loop lifetime clock i lst cl = (found, rest, cl') \<Longrightarrow>
     mset (map pc_conn rest) + mset cl' + (case found of Some pc \<Rightarrow> {#pc_conn pc#} | None \<Rightarrow> {#}) = mset (map pc_conn lst) + mset cl
     \<and> length rest \<le> length lst \<and> set rest \<subseteq> set lst
     \<and> (\<forall>pc. found = Some pc \<longrightarrow> pc \<in> set lst \<and> (\<exists>j. clock j - pc_lastUsed pc \<le> lifetime))"
proof (induction lst arbitrary: i cl)
  case (Cons pc lst)
  show ?case
  proof (cases "clock i - pc_lastUsed pc > lifetime")
    case True
    with Cons.prems have "get_loop lifetime clock (Suc i) lst (cl @ [pc_conn pc]) = (found, rest, cl')" by simp
    from Cons.IH [OF this] show ?thesis by auto
  next
    case False
    with Cons.prems show ?thesis by (auto simp: not_less)
  qed
qed auto

lemma mset_exchange:
  assumes "a + l = b + r" "r + x = l + (y :: 'a multiset)"
  shows "a + x = b + y"
proof (rule multiset_eqI)
  fix z
  have "count a z + count l z = count b z + count r z" "count r z + count x z = count l z + count y z"
    using assms by (metis count_union)+
  then show "count (a + x) z = count (b + y) z" by simp
qed

lemma get_conserves:
  assumes "pool_Get clock dial addr p = (r, p')" "gm_ok (pools p)"
  shows "case r of
      Inr c \<Rightarrow> mset (idle_conns p') + mset (pool_closed p') + {#c#} = mset (idle_conns p) + mset (pool_closed p)
               \<or> dial addr = Inr c \<and> mset (idle_conns p') + mset (pool_closed p') = mset (idle_conns p) + mset (pool_closed p)
    | Inl _ \<Rightarrow> mset (idle_conns p') + mset (pool_closed p') = mset (idle_conns p) + mset (pool_closed p)"
    and "\<exists>rest. pools p' = gm_set (pools p) addr rest \<and> length rest \<le> length (gm_list (pools p) addr) \<and> set rest \<subseteq> set (gm_list (pools p) addr)"
    and "maxIdle p' = maxIdle p" and "\<And>c. r = Inr c \<Longrightarrow> c \<in> set (idle_conns p) \<or> dial addr = Inr c"
proof -
  obtain found rest cl where loop: "get_loop (maxLifetime p) clock 0 (gm_list (pools p) addr) (pool_closed p) = (found, rest, cl)"
    by (cases "get_loop (maxLifetime p) clock 0 (gm_list (pools p) addr) (pool_closed p)") auto
  note spec = get_loop_spec [OF loop]
  have p': "p' = p\<lparr>pools := gm_set (pools p) addr rest, pool_closed := cl\<rparr>"
    and r: "r = (case found of Some pc \<Rightarrow> Inr (pc_conn pc) | None \<Rightarrow> (case dial addr of Inl err \<Rightarrow> Inl (GoError err) | Inr conn \<Rightarrow> Inr conn))"
    using assms(1) by (auto simp: pool_Get_def loop Let_def split: option.splits sum.splits)
  have eq: "mset (idle_conns p') + mset (map pc_conn (gm_list (pools p) addr)) = mset (idle_conns p) + mset (map pc_conn rest)"
    using idle_set [OF assms(2), of addr rest] by (simp add: p' idle_conns_def)
  show "case r of
      Inr c \<Rightarrow> mset (idle_conns p') + mset (pool_closed p') + {#c#} = mset (idle_conns p) + mset (pool_closed p)
               \<or> dial addr = Inr c \<and> mset (idle_conns p') + mset (pool_closed p') = mset (idle_conns p) + mset (pool_closed p)
    | Inl _ \<Rightarrow> mset (idle_conns p') + mset (pool_closed p') = mset (idle_conns p) + mset (pool_closed p)"
  proof (cases found)
    case None
    have "mset (idle_conns p') + mset cl = mset (idle_conns p) + mset (pool_closed p)"
      by (rule mset_exchange [OF eq]) (use spec None in simp)
    with None show ?thesis by (simp add: r p' split: sum.splits)
  next
    case (Some pc)
    have "mset (idle_conns p') + (mset cl + {#pc_conn pc#}) = mset (idle_conns p) + mset (pool_closed p)"
      by (rule mset_exchange [OF eq]) (use spec Some in simp)
    with Some show ?thesis by (simp add: r p')
  qed
  show "\<exists>rest. pools p' = gm_set (pools p) addr rest \<and> length rest \<le> length (gm_list (pools p) addr) \<and> set rest \<subseteq> set (gm_list (pools p) addr)"
    using spec by (auto simp: p')
  show "maxIdle p' = maxIdle p" by (simp add: p')
  have idle: "pc_conn pc \<in> set (idle_conns p)" if "pc \<in> set (gm_list (pools p) addr)" for pc
    using that by (cases "gm_get (pools p) addr") (force simp: idle_conns_def dest: map_of_SomeD)+
  show "c \<in> set (idle_conns p) \<or> dial addr = Inr c" if "r = Inr c" for c
    using that spec idle by (auto simp: r split: option.splits sum.splits)
qed

lemma put_conserves:
  assumes "gm_ok (pools p)"
  shows "mset (idle_conns (pool_Put now addr (Some c) healthy p)) + mset (pool_closed (pool_Put now addr (Some c) healthy p))
    = mset (idle_conns p) + mset (pool_closed p) + {#c#}"
proof (cases "gm_get (pools p) addr")
  case (Some lst)
  then have "gm_list (pools p) addr = lst" by simp
  with idle_set [OF assms, of addr "\<lparr>pc_conn = c, pc_created = now, pc_lastUsed = now\<rparr> # lst"] Some
  show ?thesis by (simp add: pool_Put_def idle_conns_def)
qed (simp add: pool_Put_def idle_conns_def)

lemma cleanup_conserves:
  "mset (idle_conns (pool_cleanup now p)) + mset (pool_closed (pool_cleanup now p)) = mset (idle_conns p) + mset (pool_closed p)"
proof -
  have "mset (concat (map (map pc_conn) (gm_vals (filter (\<lambda>(a, l). length l \<noteq> 0) (map (\<lambda>(a, l). (a, filter (\<lambda>pc. \<not> P pc) l)) m)))))
      + mset (concat (map (\<lambda>(a, l). map pc_conn (filter P l)) m)) = mset (concat (map (map pc_conn) (gm_vals m)))"
    for P and m :: "(string, pooledConn list) gomap"
  proof (induction m)
    case (Cons al m)
    obtain a l where al: "al = (a, l)" by force
    have part: "mset (map pc_conn l) = mset (map pc_conn (filter (\<lambda>pc. \<not> P pc) l)) + mset (map pc_conn (filter P l))"
      by (induction l) auto
    show ?case
      by (cases "filter (\<lambda>pc. \<not> P pc) l = []") (use Cons part in \<open>simp_all add: al ac_simps del: mset_map mset_filter\<close>)
  qed simp
  then show ?thesis by (simp add: pool_cleanup_def Let_def idle_conns_def add.assoc [symmetric] add.commute [of _ "mset (pool_closed p)"])
qed

section \<open>Lemmas: the invariant\<close>

lemma lists_ok_set:
  assumes "lists_ok idle m" "int (length l) \<le> max 0 idle" "\<forall>pc \<in> set l. pc_created pc = pc_lastUsed pc"
  shows "lists_ok idle (gm_set m a l)"
proof -
  have "set (gm_set m a l) \<subseteq> insert (a, l) (set m)" by (induction m) auto
  moreover have "\<forall>(b, k) \<in> insert (a, l) (set m). int (length k) \<le> max 0 idle \<and> (\<forall>pc \<in> set k. pc_created pc = pc_lastUsed pc)"
    using assms by (simp add: lists_ok_def)
  moreover have "gm_ok (gm_set m a l)" using assms(1) by (simp add: lists_ok_def distinct_update)
  ultimately show ?thesis unfolding lists_ok_def by blast
qed

lemma lists_ok_get:
  assumes "lists_ok idle m"
  shows "int (length (gm_list m a)) \<le> max 0 idle" "\<forall>pc \<in> set (gm_list m a). pc_created pc = pc_lastUsed pc"
proof -
  have "int (length (gm_list m a)) \<le> max 0 idle \<and> (\<forall>pc \<in> set (gm_list m a). pc_created pc = pc_lastUsed pc)"
  proof (cases "gm_get m a")
    case (Some l)
    then have "(a, l) \<in> set m" by (rule map_of_SomeD)
    with assms Some show ?thesis by (auto simp: lists_ok_def)
  qed simp
  then show "int (length (gm_list m a)) \<le> max 0 idle" "\<forall>pc \<in> set (gm_list m a). pc_created pc = pc_lastUsed pc" by auto
qed

lemma pool_inv_eq: "pool_inv idle (p, used, opened) \<longleftrightarrow> finite opened \<and> finite used
    \<and> mset (idle_conns p) + mset (pool_closed p) + mset_set used = mset_set opened \<and> maxIdle p = idle \<and> lists_ok idle (pools p)"
  by (auto simp: pool_inv_def lists_ok_def)

lemma get_lists: "pool_Get clock dial addr p = (r, p') \<Longrightarrow> lists_ok idle (pools p) \<Longrightarrow> lists_ok idle (pools p')"
proof -
  assume g: "pool_Get clock dial addr p = (r, p')" and ok: "lists_ok idle (pools p)"
  then have "gm_ok (pools p)" by (simp add: lists_ok_def)
  from get_conserves(2) [OF g this] obtain rest where rest: "pools p' = gm_set (pools p) addr rest"
    "length rest \<le> length (gm_list (pools p) addr)" "set rest \<subseteq> set (gm_list (pools p) addr)" by blast
  then show ?thesis using lists_ok_get [OF ok, of addr] by (auto intro!: lists_ok_set [OF ok])
qed

lemma put_lists:
  assumes "lists_ok (maxIdle p) (pools p)"
  shows "lists_ok (maxIdle p) (pools (pool_Put now addr c healthy p))"
proof (cases "gm_get (pools p) addr")
  case (Some lst)
  then have "\<forall>pc \<in> set lst. pc_created pc = pc_lastUsed pc" using lists_ok_get(2) [OF assms, of addr] by simp
  with Some assms show ?thesis by (cases c) (auto simp: pool_Put_def intro!: lists_ok_set)
qed (use assms in \<open>cases c; simp add: pool_Put_def\<close>)

lemma cleanup_lists: "lists_ok idle (pools p) \<Longrightarrow> lists_ok idle (pools (pool_cleanup now p))"
proof -
  assume ok: "lists_ok idle (pools p)"
  let ?m = "map (\<lambda>(addr, lst). (addr, filter (\<lambda>pc. \<not> pc_expired (maxLifetime p) now pc) lst)) (pools p)"
  have "fst \<circ> (\<lambda>(addr :: string, lst). (addr, filter P lst)) = fst" for P :: "pooledConn \<Rightarrow> bool" by auto
  then have "gm_ok ?m" using ok by (simp add: lists_ok_def)
  then have "gm_ok (filter (\<lambda>(addr, lst). length lst \<noteq> 0) ?m)" by (rule distinct_map_filter)
  moreover have "int (length (filter P l)) \<le> max 0 idle" if "int (length l) \<le> max 0 idle" for P and l :: "pooledConn list"
    using that length_filter_le [of P l] by linarith
  ultimately show ?thesis using ok by (fastforce simp: pool_cleanup_def Let_def lists_ok_def)
qed

lemma pool_inv_start: "pool_inv idle (NewTCPConnPool idle lifetime, {}, {})"
  by (simp add: pool_inv_def NewTCPConnPool_def idle_conns_def)

lemma inv_parts:
  assumes "pool_inv idle (p, used, opened)"
  shows "distinct (idle_conns p)" "distinct (pool_closed p)" "set (idle_conns p) \<inter> set (pool_closed p) = {}"
    "set (idle_conns p) \<inter> used = {}" "set (pool_closed p) \<inter> used = {}" "set (idle_conns p) \<union> set (pool_closed p) \<union> used = opened"
proof -
  have fin: "finite opened" "finite used" and eq: "mset (idle_conns p) + mset (pool_closed p) + mset_set used = mset_set opened"
    using assms by (simp_all add: pool_inv_eq)
  then have m: "mset (idle_conns p @ pool_closed p @ sorted_list_of_set used) = mset (sorted_list_of_set opened)"
    using mset_set_set [of "sorted_list_of_set used"] mset_set_set [of "sorted_list_of_set opened"] by (simp add: add.assoc)
  then have "distinct (idle_conns p @ pool_closed p @ sorted_list_of_set used)"
    using mset_eq_imp_distinct_iff [OF m] by simp
  then show "distinct (idle_conns p)" "distinct (pool_closed p)" "set (idle_conns p) \<inter> set (pool_closed p) = {}"
    "set (idle_conns p) \<inter> used = {}" "set (pool_closed p) \<inter> used = {}" using fin by auto
  show "set (idle_conns p) \<union> set (pool_closed p) \<union> used = opened"
    using mset_eq_setD [OF m] fin by (simp add: Un_assoc)
qed

lemma step_inv:
  assumes "pool_step s s'" "pool_inv idle s"
  shows "pool_inv idle s'"
  using assms
proof cases
  case (got clock dial addr p c p' opened used)
  note inv = assms(2) [unfolded got(1), unfolded pool_inv_eq] and parts = inv_parts [OF assms(2) [unfolded got(1)]]
  have ok: "gm_ok (pools p)" using inv by (simp add: lists_ok_def)
  have "mset (idle_conns p') + mset (pool_closed p') + mset_set (insert c used) = mset_set (insert c opened)"
    using get_conserves(1) [OF got(3) ok, simplified]
  proof
    assume eq: "add_mset c (mset (idle_conns p') + mset (pool_closed p')) = mset (idle_conns p) + mset (pool_closed p)"
    then have "c \<in># mset (idle_conns p) + mset (pool_closed p)" by (metis union_single_eq_member add_mset_add_single add.commute)
    then have c: "c \<in> set (idle_conns p) \<union> set (pool_closed p)" by simp
    then have "c \<notin> used" and "insert c opened = opened" using parts by auto
    moreover have "mset (idle_conns p') + mset (pool_closed p') + add_mset c (mset_set used)
        = add_mset c (mset (idle_conns p') + mset (pool_closed p')) + mset_set used" by simp
    moreover have "mset_set (insert c used) = add_mset c (mset_set used)" using \<open>c \<notin> used\<close> inv by simp
    ultimately show ?thesis using inv by (simp only: eq)
  next
    assume d: "dial addr = Inr c \<and> mset (idle_conns p') + mset (pool_closed p') = mset (idle_conns p) + mset (pool_closed p)"
    with got(4) have "c \<notin> opened" by blast
    then have "c \<notin> used" using parts(6) by auto
    with d \<open>c \<notin> opened\<close> inv show ?thesis by simp
  qed
  then show ?thesis unfolding got(2) pool_inv_eq
    using inv get_lists [OF got(3)] get_conserves(3) [OF got(3) ok] by simp
next
  case (refused clock dial addr p err p' used opened)
  note inv = assms(2) [unfolded refused(1), unfolded pool_inv_eq]
  have ok: "gm_ok (pools p)" using inv by (simp add: lists_ok_def)
  show ?thesis unfolding refused(2) pool_inv_eq
    using inv get_conserves(1, 3) [OF refused(3) ok] get_lists [OF refused(3)] by simp
next
  case (put c used p opened now addr healthy)
  note inv = assms(2) [unfolded put(1), unfolded pool_inv_eq]
  have ok: "gm_ok (pools p)" using inv by (simp add: lists_ok_def)
  have "mset_set used = add_mset c (mset_set (used - {c}))" using inv put(3) by (metis mset_set.remove)
  moreover have "maxIdle (pool_Put now addr (Some c) healthy p) = maxIdle p" by (simp add: pool_Put_def split: option.splits)
  ultimately show ?thesis unfolding put(2) pool_inv_eq
    using inv put_conserves [OF ok, of now addr c healthy] put_lists [of p now addr "Some c" healthy] by auto
next
  case (clean p used opened now)
  then show ?thesis using assms(2) cleanup_conserves [of now p] cleanup_lists [of idle p now]
    by (simp add: pool_inv_eq) (simp add: pool_cleanup_def Let_def)
next
  case (close p used opened)
  then show ?thesis using assms(2) by (simp add: pool_inv_eq pool_Close_def idle_conns_def lists_ok_def add.commute)
qed

lemma reach_inv: "pool_step\<^sup>*\<^sup>* (NewTCPConnPool idle lifetime, {}, {}) s \<Longrightarrow> pool_inv idle s"
  by (induction rule: rtranclp_induct) (auto intro: pool_inv_start step_inv)

text \<open>A pool emptied by the cleaner is gone, and a healthy connection put back then is closed.\<close>

lemma put_after_cleanup:
  assumes "gm_get (pools p) addr = Some []" "gm_ok (pools p)"
  shows "pool_Put now addr (Some c) True (pool_cleanup now p) = (pool_cleanup now p)\<lparr>pool_closed := pool_closed (pool_cleanup now p) @ [c]\<rparr>"
proof -
  have "l = []" if "(addr, l) \<in> set (pools p)" for l using assms that by simp
  then have "gm_get (pools (pool_cleanup now p)) addr = None"
    by (fastforce simp: pool_cleanup_def Let_def map_of_eq_None_iff)
  then show ?thesis by (simp add: pool_Put_def)
qed

text \<open>A connection put back counts as new: the limit on its age never acts before the limit on its idle time.\<close>

lemma age_limit_redundant:
  assumes "pool_inv idle (p, used, opened)" "0 \<le> maxLifetime p" "(addr, lst) \<in> set (pools p)" "pc \<in> set lst"
  shows "pc_expired (maxLifetime p) now pc \<longleftrightarrow> now - pc_lastUsed pc > maxLifetime p"
proof -
  have "pc_created pc = pc_lastUsed pc" using assms by (auto simp: pool_inv_def)
  then show ?thesis using assms(2) by (auto simp: pc_expired_def)
qed

text \<open>A request gives back the connection it took: what is in use does not change, whatever the exchange does.\<close>

lemma request_returns_connection:
  assumes "pool_inv idle (p, used, opened)" "pool_DoRequest write readLine clock now dial addr reqData p = (r, p')"
    and "\<And>c. dial addr = Inr c \<Longrightarrow> c \<notin> opened"
  shows "\<exists>opened'. pool_inv idle (p', used, opened')"
proof (cases "pool_Get clock dial addr p")
  case (Pair g p1)
  show ?thesis
  proof (cases g)
    case (Inl err)
    then have "p' = p1" using assms(2) Pair by (simp add: pool_DoRequest_def)
    moreover have "pool_step (p, used, opened) (p1, used, opened)" using Pair Inl by (intro pool_step.refused) simp
    ultimately show ?thesis using step_inv assms(1) by blast
  next
    case (Inr c)
    then have p': "\<exists>healthy. p' = pool_Put now addr (Some c) healthy p1"
      using assms(2) Pair by (auto simp: pool_DoRequest_def split: option.splits sum.splits)
    have get: "pool_Get clock dial addr p = (Inr c, p1)" using Pair Inr by simp
    have "c \<notin> used"
      using get_conserves(4) [OF get, of c] inv_parts [OF assms(1)] assms(1, 3) by (auto simp: pool_inv_eq lists_ok_def)
    have "pool_inv idle (p1, insert c used, insert c opened)"
      by (rule step_inv [OF _ assms(1)], rule pool_step.got [OF get]) (fact assms(3))
    from step_inv [OF pool_step.put this] p' \<open>c \<notin> used\<close> show ?thesis by force
  qed
qed

section \<open>Properties\<close>

text \<open>
  C35: Connections are neither lost nor shared. In every state that users, cleaner and owner can reach, each connection ever
  opened is idle in the pool, in use or closed, and exactly one of these, and no list of the pool is longer than the
  limit. A connection that is handed out was idle, so nobody else has it and it has not been closed, or it has just
  been dialled.
\<close>

theorem pool_conserves:
  assumes "pool_step\<^sup>*\<^sup>* (NewTCPConnPool idle lifetime, {}, {}) (p, used, opened)"
  shows "distinct (idle_conns p @ pool_closed p) \<and> set (idle_conns p @ pool_closed p) \<inter> used = {}
    \<and> set (idle_conns p @ pool_closed p) \<union> used = opened
    \<and> (\<forall>(addr, lst) \<in> set (pools p). int (length lst) \<le> max 0 idle)
    \<and> (\<forall>clock dial addr c p'. pool_Get clock dial addr p = (Inr c, p') \<longrightarrow>
         c \<in> set (idle_conns p) \<and> c \<notin> used \<and> c \<notin> set (pool_closed p) \<or> dial addr = Inr c)"
proof -
  note inv = reach_inv [OF assms] and parts = inv_parts [OF reach_inv [OF assms]]
  have ok: "gm_ok (pools p)" and lens: "\<forall>(addr, lst) \<in> set (pools p). int (length lst) \<le> max 0 idle"
    using inv by (auto simp: pool_inv_def)
  have "c \<in> set (idle_conns p) \<and> c \<notin> used \<and> c \<notin> set (pool_closed p) \<or> dial addr = Inr c"
    if "pool_Get clock dial addr p = (Inr c, p')" for clock dial addr c p'
    using get_conserves(4) [OF that ok] parts by blast
  with parts lens show ?thesis by auto
qed

theorem pool_conserves_witness:
  "\<exists>p. pool_step\<^sup>*\<^sup>* (NewTCPConnPool 2 10, {}, {}) (p, {}, {7}) \<and> idle_conns p = [7] \<and> pool_closed p = []
     \<and> set (idle_conns p @ pool_closed p) \<union> {} = {7}"
proof -
  let ?p1 = "(NewTCPConnPool 2 10)\<lparr>pools := [(''a'', [])]\<rparr>" and ?p2 = "pool_Put 5 ''a'' (Some 7) True ((NewTCPConnPool 2 10)\<lparr>pools := [(''a'', [])]\<rparr>)"
  have "pool_Get (\<lambda>_. 5) (\<lambda>_. Inr 7) ''a'' (NewTCPConnPool 2 10) = (Inr 7, ?p1)"
    by (simp add: pool_Get_def NewTCPConnPool_def gm_list_def)
  from pool_step.got [OF this, of "{}" "{}"] have "pool_step (NewTCPConnPool 2 10, {}, {}) (?p1, {7}, {7})" by simp
  moreover have "pool_step (?p1, {7}, {7}) (?p2, {}, {7})"
    using pool_step.put [of 7 "{7}" ?p1 "{7}" 5 "''a''" True] by simp
  ultimately have run: "pool_step\<^sup>*\<^sup>* (NewTCPConnPool 2 10, {}, {}) (?p2, {}, {7})" by (meson converse_rtranclp_into_rtranclp r_into_rtranclp)
  moreover have "idle_conns ?p2 = [7]" "pool_closed ?p2 = []"
    by (simp_all add: pool_Put_def NewTCPConnPool_def idle_conns_def)
  ultimately show ?thesis using pool_conserves [OF run] by blast
qed

end
