(* ===== verification/Tunnel_Packet.thy ===== *)
theory Tunnel_Packet
  imports Proxy_Util
begin

text \<open>
  \<^verbatim>\<open>src/data-proxy/tunnel-packet/tunnel-packet.go\<close>: the tunnel packet, a 24-byte header followed by
  the sub-packets of several users. The record fields are the fields of the struct; a method is a
  function from the packet before to the packet after, or to a fault where Go panics. Slices made by
  \<^verbatim>\<open>make\<close> have a capacity equal to their length, so slicing past the length is a panic. Debug logging
  is left out.
\<close>

section \<open>Definitions\<close>

definition HeaderSize :: nat where "HeaderSize = 24"

definition MaxHops :: nat where "MaxHops = 4"

record Packet =
  Buf :: "byte list"
  BuffSize :: nat
  HopPos :: byte
  HopIP :: "u32 list"
  PayloadLen :: u16
  Port :: u16
  Protocol :: byte
  Wp :: nat

record SubPacket =
  UserID :: u32
  Data :: "byte list"

definition NewPacket :: "nat \<Rightarrow> Packet" where
  "NewPacket buffSizes =
     \<lparr>Buf = replicate buffSizes 0, BuffSize = buffSizes, HopPos = 0, HopIP = [0, 0, 0, 0],
      PayloadLen = 0, Port = 0, Protocol = 0, Wp = HeaderSize\<rparr>"

definition SetHopIP :: "Packet \<Rightarrow> int \<Rightarrow> net_ip \<Rightarrow> Packet" where
  "SetHopIP p hopIdx ip =
     (if hopIdx < 0 \<or> hopIdx \<ge> int MaxHops then p
      else let ip4 = To4 ip in
        if ip4 = [] then p
        else p\<lparr>HopIP := (HopIP p)[nat hopIdx := of_be32 ip4]\<rparr>)"

definition SetHopPos :: "Packet \<Rightarrow> byte \<Rightarrow> Packet" where
  "SetHopPos p pos = (if pos \<ge> 0 \<and> unat pos < MaxHops then p\<lparr>HopPos := pos\<rparr> else p)"

definition AdvanceHop :: "Packet \<Rightarrow> Packet result" where
  "AdvanceHop p =
     (if unat (HopPos p) < MaxHops - 1
      then let pos = HopPos p + 1 in
        bindr (put_at (Buf p) 0 [pos]) (\<lambda>b. Inr (p\<lparr>HopPos := pos, Buf := b\<rparr>))
      else Inr p)"

definition AdvanceRawHop :: "byte list \<Rightarrow> byte list" where
  "AdvanceRawHop pkt =
     (if length pkt \<ge> HeaderSize \<and> unat (pkt ! 0) < MaxHops - 1 then pkt[0 := pkt ! 0 + 1] else pkt)"

definition SetPort :: "Packet \<Rightarrow> u16 \<Rightarrow> Packet" where
  "SetPort p port = p\<lparr>Port := port\<rparr>"

definition SetProtocol :: "Packet \<Rightarrow> string \<Rightarrow> Packet" where
  "SetProtocol p protocol = p\<lparr>Protocol := (if protocol = ''tcp'' then 6 else 17)\<rparr>"

text \<open>The boolean is the method's result: whether the data was taken.\<close>

definition AppendUserPacket :: "Packet \<Rightarrow> u32 \<Rightarrow> byte list \<Rightarrow> (Packet \<times> bool) result" where
  "AppendUserPacket p userID data =
     (let subSize = 4 + 2 + length data in
      if Wp p + subSize > BuffSize p then Inr (p, False)
      else bindr (put_at (Buf p) (Wp p) (be32 userID)) (\<lambda>b1.
           bindr (put_at b1 (Wp p + 4) (be16 (of_nat (length data)))) (\<lambda>b2.
           bindr (copy_at b2 (Wp p + 6) data) (\<lambda>b3.
           let wp = Wp p + 6 + length data in
           Inr (p\<lparr>Buf := b3, Wp := wp, PayloadLen := of_nat (wp - HeaderSize)\<rparr>, True)))))"

definition SerializeHead :: "Packet \<Rightarrow> Packet result" where
  "SerializeHead p =
     (if length (Buf p) < HeaderSize then Inl (GoPanic ''slice bounds out of range'')
      else bindr (put_at (Buf p) 0 [HopPos p]) (\<lambda>b.
           bindr (put_at b 1 (be32 (HopIP p ! 0))) (\<lambda>b.
           bindr (put_at b 5 (be32 (HopIP p ! 1))) (\<lambda>b.
           bindr (put_at b 9 (be32 (HopIP p ! 2))) (\<lambda>b.
           bindr (put_at b 13 (be32 (HopIP p ! 3))) (\<lambda>b.
           bindr (put_at b 17 (be16 (PayloadLen p))) (\<lambda>b.
           bindr (put_at b 19 (be16 (Port p))) (\<lambda>b.
           bindr (put_at b 21 [Protocol p]) (\<lambda>b. Inr (p\<lparr>Buf := b\<rparr>))))))))))"

definition TotalBytes :: "Packet \<Rightarrow> nat" where
  "TotalBytes p = HeaderSize + unat (PayloadLen p)"

text \<open>The eight reads that \<^verbatim>\<open>ParseHeader\<close> and \<^verbatim>\<open>Parse\<close> both make from the first 24 bytes.\<close>

definition read_header :: "byte list \<Rightarrow> Packet \<Rightarrow> Packet" where
  "read_header b p =
     p\<lparr>HopPos := b ! 0,
       HopIP := [of_be32 (take 4 (drop 1 b)), of_be32 (take 4 (drop 5 b)),
                 of_be32 (take 4 (drop 9 b)), of_be32 (take 4 (drop 13 b))],
       PayloadLen := of_be16 (take 2 (drop 17 b)),
       Port := of_be16 (take 2 (drop 19 b)),
       Protocol := b ! 21\<rparr>"

definition ParseHeader :: "byte list \<Rightarrow> Packet result" where
  "ParseHeader raw =
     (if length raw < HeaderSize then Inl (GoError ''invalid packet header: length too short'')
      else let p = \<lparr>Buf = replicate HeaderSize 0, BuffSize = 0, HopPos = 0, HopIP = [0, 0, 0, 0],
                    PayloadLen = 0, Port = 0, Protocol = 0, Wp = 0\<rparr>;
               b = go_copy (Buf p) (take HeaderSize raw)
           in Inr (read_header b (p\<lparr>Buf := b\<rparr>)))"

text \<open>
  The loop of \<^verbatim>\<open>Parse\<close> over the payload reader: \<^verbatim>\<open>binary.Read\<close> fails on fewer bytes than the
  integer has, \<^verbatim>\<open>bytes.Reader.Read\<close> fails with EOF exactly when no byte is left, also when none is
  asked for, and otherwise reads what there is into a zeroed slice.
\<close>

function parse_subs :: "byte list \<Rightarrow> SubPacket list" where
  "parse_subs r =
     (if length r < 4 then []
      else if length r < 6 then []
      else let userID = of_be32 (take 4 r);
               subLen = unat (of_be16 (take 2 (drop 4 r)));
               rest = drop 6 r
           in if rest = [] then []
              else \<lparr>UserID = userID, Data = go_copy (replicate subLen 0) rest\<rparr>
                     # parse_subs (drop subLen rest))"
  by pat_completeness auto
termination
  by (relation "measure length") auto

declare parse_subs.simps [simp del]

definition Parse :: "byte list \<Rightarrow> nat \<Rightarrow> (Packet \<times> SubPacket list) result" where
  "Parse raw bufferSize =
     (if length raw < HeaderSize then Inl (GoError ''raw data too short'')
      else let p = NewPacket bufferSize;
               buf = go_copy (Buf p) raw
           in if length buf < HeaderSize then Inl (GoPanic ''slice bounds out of range'')
              else let p = read_header (take HeaderSize buf) (p\<lparr>Buf := buf\<rparr>);
                       payloadEnd = HeaderSize + unat (PayloadLen p)
                   in if payloadEnd > length raw \<or> payloadEnd > bufferSize
                      then Inl (GoError ''invalid payload length'')
                      else Inr (p, parse_subs (drop HeaderSize (take payloadEnd buf))))"

text \<open>
  The abstract contents: a packet represents the list of sub-packets it has taken. The wire form of
  a sub-packet is its identifier, its length and its bytes.
\<close>

definition encode_sub :: "SubPacket \<Rightarrow> byte list" where
  "encode_sub s = be32 (UserID s) @ be16 (of_nat (length (Data s))) @ Data s"

definition encode_subs :: "SubPacket list \<Rightarrow> byte list" where
  "encode_subs subs = concat (map encode_sub subs)"

definition header_bytes :: "Packet \<Rightarrow> byte list" where
  "header_bytes p = [HopPos p] @ be32 (HopIP p ! 0) @ be32 (HopIP p ! 1) @ be32 (HopIP p ! 2)
     @ be32 (HopIP p ! 3) @ be16 (PayloadLen p) @ be16 (Port p) @ [Protocol p]"

definition packet_inv :: "Packet \<Rightarrow> bool" where
  "packet_inv p = (length (Buf p) = BuffSize p \<and> HeaderSize \<le> Wp p \<and> Wp p \<le> BuffSize p
     \<and> length (HopIP p) = MaxHops \<and> PayloadLen p = of_nat (Wp p - HeaderSize))"

definition packet_rep :: "Packet \<Rightarrow> SubPacket list \<Rightarrow> bool" where
  "packet_rep p subs = (packet_inv p \<and> drop HeaderSize (take (Wp p) (Buf p)) = encode_subs subs)"

text \<open>The abstract counterpart of an append, and of a sequence of them.\<close>

definition sub_fits :: "nat \<Rightarrow> SubPacket list \<Rightarrow> SubPacket \<Rightarrow> bool" where
  "sub_fits n subs s = (HeaderSize + length (encode_subs (subs @ [s])) \<le> n)"

fun AppendAll :: "Packet \<Rightarrow> SubPacket list \<Rightarrow> (Packet \<times> bool list) result" where
  "AppendAll p [] = Inr (p, [])"
| "AppendAll p (s # ss) =
     bindr (AppendUserPacket p (UserID s) (Data s)) (\<lambda>(p', ok).
     bindr (AppendAll p' ss) (\<lambda>(p'', oks). Inr (p'', ok # oks)))"

text \<open>The sub-packets an append sequence keeps: those that fit behind the ones already kept.\<close>

fun keep_fitting :: "nat \<Rightarrow> SubPacket list \<Rightarrow> SubPacket list \<Rightarrow> SubPacket list" where
  "keep_fitting n acc [] = acc"
| "keep_fitting n acc (s # ss) = keep_fitting n (if sub_fits n acc s then acc @ [s] else acc) ss"

definition drop_last_empty :: "SubPacket list \<Rightarrow> SubPacket list" where
  "drop_last_empty subs = (if subs \<noteq> [] \<and> Data (last subs) = [] then butlast subs else subs)"

section \<open>Lemmas\<close>

lemma length_encode_sub [simp]: "length (encode_sub s) = 6 + length (Data s)"
  by (simp add: encode_sub_def)

lemma encode_subs_simps [simp]:
  "encode_subs [] = []" "encode_subs (s # ss) = encode_sub s @ encode_subs ss"
  "encode_subs (xs @ ys) = encode_subs xs @ encode_subs ys"
  by (simp_all add: encode_subs_def)

lemma parse_subs_short: "length r \<le> 6 \<Longrightarrow> parse_subs r = []"
  by (simp add: parse_subs.simps [of r])

lemma of_be16_length: "n < 2 ^ 16 \<Longrightarrow> unat (of_be16 (be16 (of_nat n))) = n"
  by (simp add: unat_of_nat)

lemma parse_subs_Cons:
  assumes "length (Data s) < 2 ^ 16" "Data s @ r \<noteq> []"
  shows "parse_subs (encode_sub s @ r) = s # parse_subs r"
proof -
  let ?r = "encode_sub s @ r"
  have parts: "take 4 ?r = be32 (UserID s)" "take 2 (drop 4 ?r) = be16 (of_nat (length (Data s)))"
    "drop 6 ?r = Data s @ r" "6 \<le> length ?r"
    by (simp_all add: encode_sub_def)
  have "go_copy (replicate (length (Data s)) 0) (Data s @ r) = Data s"
    by (simp add: go_copy_def)
  then show ?thesis
    using assms parse_subs.simps [of ?r] parts of_be16_length [of "length (Data s)"]
    by (simp add: Let_def)
qed

lemma parse_encode_subs:
  "\<forall>s \<in> set subs. length (Data s) < 2 ^ 16 \<Longrightarrow> parse_subs (encode_subs subs) = drop_last_empty subs"
proof (induction subs)
  case Nil
  then show ?case by (simp add: parse_subs_short drop_last_empty_def)
next
  case (Cons s ss)
  show ?case
  proof (cases "Data s @ encode_subs ss = []")
    case True
    then have "ss = []" "Data s = []" by (cases ss; simp add: encode_sub_def be32_def)+
    then show ?thesis by (simp add: parse_subs_short drop_last_empty_def)
  next
    case False
    then have "drop_last_empty (s # ss) = s # drop_last_empty ss"
      by (auto simp: drop_last_empty_def)
    with False Cons show ?thesis by (simp add: parse_subs_Cons)
  qed
qed

lemma packet_rep_length:
  assumes "packet_rep p subs"
  shows "Wp p = HeaderSize + length (encode_subs subs)"
proof -
  have "length (drop HeaderSize (take (Wp p) (Buf p))) = length (encode_subs subs)"
    using assms by (simp add: packet_rep_def)
  then show ?thesis using assms by (auto simp: packet_rep_def packet_inv_def min_def split: if_splits)
qed

lemma NewPacket_rep: "HeaderSize \<le> n \<Longrightarrow> packet_rep (NewPacket n) []"
  by (simp add: packet_rep_def packet_inv_def NewPacket_def MaxHops_def)

lemma NewPacket_size [simp]: "BuffSize (NewPacket n) = n"
  by (simp add: NewPacket_def)

lemma AppendUserPacket_rep:
  fixes u d
  assumes "packet_rep p subs"
  defines "s \<equiv> \<lparr>UserID = u, Data = d\<rparr>"
  shows "\<exists>p'. AppendUserPacket p u d = Inr (p', sub_fits (BuffSize p) subs s)
           \<and> packet_rep p' (if sub_fits (BuffSize p) subs s then subs @ [s] else subs)
           \<and> BuffSize p' = BuffSize p \<and> HopPos p' = HopPos p \<and> HopIP p' = HopIP p
           \<and> Port p' = Port p \<and> Protocol p' = Protocol p"
proof -
  have wp: "Wp p = HeaderSize + length (encode_subs subs)" by (rule packet_rep_length) fact
  have fit: "sub_fits (BuffSize p) subs s \<longleftrightarrow> \<not> (Wp p + (4 + 2 + length d) > BuffSize p)"
    by (auto simp: sub_fits_def wp s_def)
  show ?thesis
  proof (cases "sub_fits (BuffSize p) subs s")
    case False
    then show ?thesis using assms(1) fit by (simp add: AppendUserPacket_def)
  next
    case True
    let ?b = "take (Wp p) (Buf p) @ encode_sub s @ drop (Wp p + 6 + length d) (Buf p)"
    let ?p = "p\<lparr>Buf := ?b, Wp := Wp p + 6 + length d,
                PayloadLen := of_nat (Wp p + 6 + length d - HeaderSize)\<rparr>"
    have inv: "length (Buf p) = BuffSize p" "HeaderSize \<le> Wp p" "Wp p + 6 + length d \<le> BuffSize p"
      "length (HopIP p) = MaxHops" "drop HeaderSize (take (Wp p) (Buf p)) = encode_subs subs"
      using assms(1) True fit by (auto simp: packet_rep_def packet_inv_def)
    have "AppendUserPacket p u d = Inr (?p, True)"
      using True fit inv(1,3)
      by (auto simp: AppendUserPacket_def Let_def put_at_def copy_at_def go_copy_def encode_sub_def s_def
        add.commute)
    moreover have "packet_rep ?p (subs @ [s])"
      using inv by (auto simp: packet_rep_def packet_inv_def s_def)
    ultimately show ?thesis using True by simp
  qed
qed


lemma sub_eta [simp]: "\<lparr>UserID = UserID s, Data = Data s\<rparr> = (s :: SubPacket)"
  by (cases s) simp

lemma AppendAll_rep:
  assumes "packet_rep p acc"
  shows "\<exists>p' oks. AppendAll p subs = Inr (p', oks) \<and> packet_rep p' (keep_fitting (BuffSize p) acc subs)
           \<and> BuffSize p' = BuffSize p \<and> HopPos p' = HopPos p \<and> HopIP p' = HopIP p
           \<and> Port p' = Port p \<and> Protocol p' = Protocol p"
  using assms
proof (induction subs arbitrary: p acc)
  case Nil
  then show ?case by simp
next
  case (Cons s ss)
  let ?acc = "if sub_fits (BuffSize p) acc s then acc @ [s] else acc"
  obtain p1 where p1: "AppendUserPacket p (UserID s) (Data s) = Inr (p1, sub_fits (BuffSize p) acc s)"
    "packet_rep p1 ?acc" "BuffSize p1 = BuffSize p" "HopPos p1 = HopPos p" "HopIP p1 = HopIP p"
    "Port p1 = Port p" "Protocol p1 = Protocol p"
    using AppendUserPacket_rep [OF Cons.prems, of "UserID s" "Data s"]
    unfolding sub_eta by blast
  from Cons.IH [OF p1(2)] p1 show ?case by auto
qed

lemma length_header_bytes [simp]: "length (header_bytes p) = 22"
  by (simp add: header_bytes_def)

lemma SerializeHead_bytes:
  assumes "HeaderSize \<le> length (Buf p)"
  shows "SerializeHead p = Inr (p\<lparr>Buf := header_bytes p @ drop 22 (Buf p)\<rparr>)"
proof -
  obtain b0 b1 b2 b3 b4 b5 b6 b7 b8 b9 b10 b11 b12 b13 b14 b15 b16 b17 b18 b19 b20 b21 r
    where "Buf p = [b0,b1,b2,b3,b4,b5,b6,b7,b8,b9,b10,b11,b12,b13,b14,b15,b16,b17,b18,b19,b20,b21] @ r"
    using assms by (auto simp: HeaderSize_def numeral_eq_Suc Suc_le_length_iff)
  then show ?thesis using assms
    by (simp add: SerializeHead_def header_bytes_def put_at_def be32_def be16_def)
qed

lemma read_header_bytes:
  assumes "length (HopIP p) = MaxHops"
  shows "read_header (header_bytes p @ r) q =
           q\<lparr>HopPos := HopPos p, HopIP := HopIP p, PayloadLen := PayloadLen p, Port := Port p, Protocol := Protocol p\<rparr>"
proof -
  obtain a b c d where "HopIP p = [a, b, c, d]"
    using assms by (auto simp: MaxHops_def numeral_eq_Suc length_Suc_conv)
  moreover have "[be32 w ! 0, be32 w ! 1, be32 w ! 2, be32 w ! 3] = be32 w" for w by (simp add: be32_def)
  ultimately show ?thesis
    by (simp add: read_header_def header_bytes_def nth_append)
qed


lemma keep_fitting_fits:
  "HeaderSize + length (encode_subs acc) \<le> n \<Longrightarrow> HeaderSize + length (encode_subs (keep_fitting n acc subs)) \<le> n"
  by (induction subs arbitrary: acc) (auto simp: sub_fits_def)

lemma sub_length_le: "s \<in> set subs \<Longrightarrow> length (Data s) \<le> length (encode_subs subs)"
  by (induction subs) auto

lemma Parse_serialized:
  assumes "packet_rep p subs" "Wp p < HeaderSize + 2 ^ 16" "Wp p \<le> n"
  shows "\<exists>q r. SerializeHead p = Inr q \<and> TotalBytes q = Wp p \<and> Wp p \<le> length (Buf q)
           \<and> packet_rep q subs \<and> BuffSize q = BuffSize p
           \<and> Parse (take (Wp p) (Buf q)) n = Inr (r, drop_last_empty subs)
           \<and> HopPos r = HopPos p \<and> HopIP r = HopIP p \<and> Port r = Port p \<and> Protocol r = Protocol p"
proof -
  have inv: "length (Buf p) = BuffSize p" "HeaderSize \<le> Wp p" "Wp p \<le> BuffSize p"
      "length (HopIP p) = MaxHops" "drop HeaderSize (take (Wp p) (Buf p)) = encode_subs subs"
      "PayloadLen p = of_nat (Wp p - HeaderSize)"
    using assms(1) by (auto simp: packet_rep_def packet_inv_def)
  have wp: "Wp p = HeaderSize + length (encode_subs subs)" by (rule packet_rep_length) fact
  have pl: "unat (PayloadLen p) = Wp p - HeaderSize"
    unfolding inv(6) using inv(2,3) assms(2) by (simp add: unat_of_nat del: of_nat_diff)
  let ?b = "header_bytes p @ drop 22 (Buf p)"
  let ?q = "p\<lparr>Buf := ?b\<rparr>"
  let ?raw = "take (Wp p) ?b"
  have ser: "SerializeHead p = Inr ?q" using inv by (intro SerializeHead_bytes) simp
  have tb: "TotalBytes ?q = Wp p" using pl inv(2) by (simp add: TotalBytes_def)
  have pay: "drop HeaderSize (take (Wp p) (?raw @ z)) = encode_subs subs" for z
    using inv by (simp add: HeaderSize_def drop_take)
  have lens: "length ?raw = Wp p" using inv by (simp add: HeaderSize_def)
  let ?buf = "?raw @ replicate (n - Wp p) 0"
  have buf: "go_copy (Buf (NewPacket n)) ?raw = ?buf"
    unfolding go_copy_def lens using assms(3) lens by (simp add: NewPacket_def)
  have "take HeaderSize ?buf = header_bytes p @ take 2 (drop 22 (Buf p))"
    using inv by (simp add: HeaderSize_def take_drop)
  then have rd: "read_header (take HeaderSize ?buf) r =
     r\<lparr>HopPos := HopPos p, HopIP := HopIP p, PayloadLen := PayloadLen p, Port := Port p, Protocol := Protocol p\<rparr>" for r
    using read_header_bytes [OF inv(4)] by simp
  have "length (Data s) < 2 ^ 16" if "s \<in> set subs" for s
    using sub_length_le [OF that] wp inv(3) assms(2) by linarith
  then have subs: "parse_subs (encode_subs subs) = drop_last_empty subs"
    by (intro parse_encode_subs) simp
  have conds: "\<not> length ?raw < HeaderSize" "\<not> length ?buf < HeaderSize"
    "\<not> (HeaderSize + unat (PayloadLen p) > length ?raw \<or> HeaderSize + unat (PayloadLen p) > n)"
    "HeaderSize + unat (PayloadLen p) = Wp p"
    unfolding lens length_append pl using inv assms(3) by auto
  have "\<exists>r. Parse ?raw n = Inr (r, drop_last_empty subs)
           \<and> HopPos r = HopPos p \<and> HopIP r = HopIP p \<and> Port r = Port p \<and> Protocol r = Protocol p"
    unfolding Parse_def Let_def buf rd using conds(1-3) by (simp add: conds(4) pay subs del: take_append length_append length_take)
  moreover have "packet_rep ?q subs"
    using assms(1) inv by (simp add: packet_rep_def packet_inv_def HeaderSize_def drop_take)
  moreover have "Wp p \<le> length ?b" using inv by (simp add: HeaderSize_def)
  ultimately show ?thesis using ser tb by auto
qed

lemma setters_rep [simp]:
  "packet_rep (SetHopIP p i ip) subs = packet_rep p subs"
  "packet_rep (SetHopPos p pos) subs = packet_rep p subs"
  "packet_rep (SetPort p port) subs = packet_rep p subs"
  "packet_rep (SetProtocol p proto) subs = packet_rep p subs"
  by (simp_all add: packet_rep_def packet_inv_def SetHopIP_def SetHopPos_def SetPort_def SetProtocol_def Let_def)

lemma setters_size [simp]:
  "BuffSize (SetHopIP p i ip) = BuffSize p" "BuffSize (SetHopPos p pos) = BuffSize p"
  "BuffSize (SetPort p port) = BuffSize p" "BuffSize (SetProtocol p proto) = BuffSize p"
  by (simp_all add: SetHopIP_def SetHopPos_def SetPort_def SetProtocol_def Let_def)

lemma parse_subs_step:
  assumes "6 < length r"
  defines "n \<equiv> unat (of_be16 (take 2 (drop 4 r)))"
  shows "encode_subs (parse_subs r) =
           take 6 r @ go_copy (replicate n 0) (drop 6 r) @ encode_subs (parse_subs (drop n (drop 6 r)))"
proof -
  have "n < 2 ^ LENGTH(16)" unfolding n_def by (rule unsigned_less)
  have "be32 (of_be32 (take 4 r)) @ be16 (of_nat n) = take 4 r @ take 2 (drop 4 r)"
    using assms by (simp add: be32_of_be32 be16_of_be16 n_def)
  also have "\<dots> = take 6 r" using take_add [of 4 2 r] by simp
  finally have "encode_sub \<lparr>UserID = of_be32 (take 4 r), Data = go_copy (replicate n 0) (drop 6 r)\<rparr>
                  = take 6 r @ go_copy (replicate n 0) (drop 6 r)"
    by (simp add: encode_sub_def)
  then show ?thesis using assms(1) parse_subs.simps [of r] by (simp add: n_def Let_def)
qed

lemma parse_subs_prefix:
  "\<exists>t. encode_subs (parse_subs r) @ t = r @ replicate 65535 0"
proof (induction r rule: length_induct)
  case (1 r)
  show ?case
  proof (cases "6 < length r")
    case False
    then show ?thesis by (simp add: parse_subs_short)
  next
    case True
    define n where "n = unat (of_be16 (take 2 (drop 4 r)))"
    define rest where "rest = drop 6 r"
    have n: "n < 2 ^ LENGTH(16)" unfolding n_def by (rule unsigned_less)
    have step: "encode_subs (parse_subs r) =
        take 6 r @ go_copy (replicate n 0) rest @ encode_subs (parse_subs (drop n rest))"
      unfolding n_def rest_def by (rule parse_subs_step) fact
    have r: "r = take 6 r @ rest" by (simp add: rest_def)
    show ?thesis
    proof (cases "n \<le> length rest")
      case le: True
      have "length (drop n rest) < length r" using True by (simp add: rest_def)
      then obtain t where "encode_subs (parse_subs (drop n rest)) @ t = drop n rest @ replicate 65535 0"
        using "1.IH" by blast
      moreover have "go_copy (replicate n 0) rest = take n rest" using le by (simp add: go_copy_def)
      ultimately have "encode_subs (parse_subs r) @ t = take 6 r @ take n rest @ drop n rest @ replicate 65535 0"
        unfolding step by simp
      then show ?thesis using r by (metis append.assoc append_take_drop_id)
    next
      case False
      then have "go_copy (replicate n 0) rest = rest @ replicate (n - length rest) 0"
        by (simp add: go_copy_def)
      then have "encode_subs (parse_subs r) = r @ replicate (n - length rest) 0"
        using step r False by (simp add: parse_subs_short)
      moreover have "replicate (n - length rest) (0 :: byte) @ replicate (65535 - (n - length rest)) 0 = replicate 65535 0"
        using n by (subst replicate_add [symmetric]) simp
      ultimately show ?thesis by (metis append.assoc)
    qed
  qed
qed

section \<open>Properties\<close>

text \<open>
  C13: AppendUserPacket refines the abstract append: it never panics on a packet that represents a
  list of sub-packets, it accepts the data exactly when its wire form still fits the buffer, and the
  packet then represents the list extended by it, header fields untouched; refused data leaves the
  contents as they were.
\<close>

theorem append_refines:
  assumes "packet_rep p subs"
  shows "\<exists>p'. AppendUserPacket p u d = Inr (p', sub_fits (BuffSize p) subs \<lparr>UserID = u, Data = d\<rparr>)
           \<and> packet_rep p' (if sub_fits (BuffSize p) subs \<lparr>UserID = u, Data = d\<rparr>
                             then subs @ [\<lparr>UserID = u, Data = d\<rparr>] else subs)
           \<and> BuffSize p' = BuffSize p \<and> HopPos p' = HopPos p \<and> HopIP p' = HopIP p
           \<and> Port p' = Port p \<and> Protocol p' = Protocol p"
  using AppendUserPacket_rep [OF assms] .

theorem append_refines_witness:
  "\<exists>p'. AppendUserPacket (NewPacket 32) 7 [1, 2] = Inr (p', True) \<and> packet_rep p' [\<lparr>UserID = 7, Data = [1, 2]\<rparr>]"
  using append_refines [OF NewPacket_rep, of 32 7 "[1, 2]"]
  by (simp add: HeaderSize_def sub_fits_def) blast

text \<open>
  C12: round trip of a whole tunnel packet: whatever header fields a fresh packet has and whatever
  user data is appended to it, serialising the header, cutting the buffer at TotalBytes and parsing
  it gives back the header fields and exactly the accepted sub-packets in order (a last sub-packet
  without data is not recovered). The buffer is one whose payload length fits the 16-bit field.
\<close>

theorem packet_roundtrip:
  assumes "HeaderSize \<le> n" "n < HeaderSize + 2 ^ 16" "length ips = MaxHops"
  shows "\<exists>p oks q r. AppendAll ((NewPacket n)\<lparr>HopPos := pos, HopIP := ips, Port := pt, Protocol := pr\<rparr>) subs = Inr (p, oks)
           \<and> SerializeHead p = Inr q
           \<and> Parse (take (TotalBytes q) (Buf q)) n = Inr (r, drop_last_empty (keep_fitting n [] subs))
           \<and> HopPos r = pos \<and> HopIP r = ips \<and> Port r = pt \<and> Protocol r = pr"
proof -
  let ?p0 = "(NewPacket n)\<lparr>HopPos := pos, HopIP := ips, Port := pt, Protocol := pr\<rparr>"
  have rep: "packet_rep ?p0 []"
    using assms by (simp add: packet_rep_def packet_inv_def NewPacket_def)
  have n: "BuffSize ?p0 = n" by (simp add: NewPacket_def)
  obtain p oks where p: "AppendAll ?p0 subs = Inr (p, oks)" "packet_rep p (keep_fitting n [] subs)"
    "BuffSize p = n" "HopPos p = pos" "HopIP p = ips" "Port p = pt" "Protocol p = pr"
    using AppendAll_rep [OF rep, of subs] n by auto
  have "Wp p \<le> n" using p(2,3) by (simp add: packet_rep_def packet_inv_def)
  then show ?thesis using Parse_serialized [OF p(2), of n] assms(2) p by auto
qed

theorem packet_roundtrip_witness:
  "\<exists>p oks q r. AppendAll ((NewPacket 64)\<lparr>HopPos := 1, HopIP := [1, 2, 3, 4], Port := 80, Protocol := 6\<rparr>)
                [\<lparr>UserID = 7, Data = [1, 2]\<rparr>] = Inr (p, oks)
     \<and> SerializeHead p = Inr q
     \<and> Parse (take (TotalBytes q) (Buf q)) 64 = Inr (r, [\<lparr>UserID = 7, Data = [1, 2]\<rparr>]) \<and> HopIP r = [1, 2, 3, 4]"
  using packet_roundtrip [where n = 64 and ips = "[1, 2, 3, 4]" and pos = 1 and pt = 80 and pr = 6
    and subs = "[\<lparr>UserID = 7, Data = [1, 2]\<rparr>]"]
  by (auto simp: HeaderSize_def MaxHops_def sub_fits_def drop_last_empty_def)

text \<open>
  C14: Parse is safe on every input: with a buffer of at least a header it never panics, it refuses
  exactly the inputs shorter than a header or than their own payload length, and the sub-packets it
  returns are in the received payload byte for byte, followed by nothing but zero padding.
\<close>

theorem Parse_safe:
  assumes "HeaderSize \<le> n"
  shows "\<not> is_panic (Parse raw n)
    \<and> (is_ok (Parse raw n) \<longleftrightarrow> HeaderSize \<le> length raw
          \<and> HeaderSize + unat (of_be16 (take 2 (drop 17 raw))) \<le> min (length raw) n)
    \<and> (\<forall>p subs. Parse raw n = Inr (p, subs) \<longrightarrow>
          (\<exists>t. encode_subs subs @ t = take (unat (PayloadLen p)) (drop HeaderSize raw) @ replicate 65535 0))"
proof (cases "length raw < HeaderSize")
  case False
  let ?buf = "go_copy (Buf (NewPacket n)) raw"
  have buf: "?buf = take n raw @ replicate (n - length raw) 0" by (simp add: go_copy_def NewPacket_def)
  have len: "length ?buf = n" by (simp add: NewPacket_def)
  have fld: "of_be16 (take 2 (drop 17 (take HeaderSize ?buf))) = of_be16 (take 2 (drop 17 raw))"
    using assms False by (simp add: buf HeaderSize_def drop_take)
  have pay: "drop HeaderSize (take (HeaderSize + k) ?buf) = take k (drop HeaderSize raw)"
    if "HeaderSize + k \<le> length raw" "HeaderSize + k \<le> n" for k
    using that by (simp add: buf drop_take)
  show ?thesis
    using False assms len parse_subs_prefix
    by (auto simp: Parse_def Let_def read_header_def fld pay)
next
  case True
  then show ?thesis by (simp add: Parse_def)
qed

theorem Parse_safe_witness: "\<not> is_panic (Parse [1, 2, 3] 24)"
  using Parse_safe [of 24 "[1, 2, 3]"] by (simp add: HeaderSize_def)

text \<open>
  A relay's AdvanceRawHop changes the hop position only: on a raw packet with a header it
  increments the position below the last hop and leaves every other header field, the length and the
  payload as they were.
\<close>

lemma AdvanceRawHop_header:
  assumes "HeaderSize \<le> length raw"
  shows "\<exists>p q. ParseHeader raw = Inr p \<and> ParseHeader (AdvanceRawHop raw) = Inr q
     \<and> HopPos q = (if unat (HopPos p) < MaxHops - 1 then HopPos p + 1 else HopPos p)
     \<and> HopIP q = HopIP p \<and> PayloadLen q = PayloadLen p \<and> Port q = Port p \<and> Protocol q = Protocol p
     \<and> length (AdvanceRawHop raw) = length raw
     \<and> drop HeaderSize (AdvanceRawHop raw) = drop HeaderSize raw"
proof -
  obtain x xs where "raw = x # xs" using assms by (cases raw) (auto simp: HeaderSize_def)
  then show ?thesis using assms
    by (auto simp: ParseHeader_def AdvanceRawHop_def read_header_def go_copy_def Let_def HeaderSize_def)
qed

end
