(* ===== verification/Aggregator.thy ===== *)
theory Aggregator
  imports Tunnel_Packet Go_Heap
begin

text \<open>
  \<^verbatim>\<open>src/data-proxy/aggregator/aggregator.go\<close>: the batching workers that collect the data of several
  users with the same route into one tunnel packet and send it when a deadline passes.

  Batches and heap items are shared by pointer in the code (the map and the heap item point to a
  batch, the batch and the heap point to an item). They live in two stores, lists indexed by
  allocation number, and a pointer is an index. Times are integers in nanoseconds; a handler reads
  the clock once. A handler runs as one step; \<^verbatim>\<open>checkTimeout\<close> is split at the point where it
  gives up the worker lock between taking the expired items off the heap and emptying their batches,
  so that the other handlers can run in between. \<^verbatim>\<open>flush\<close> hands the buffer to a goroutine that calls
  \<^verbatim>\<open>SendPacket\<close>: it is appended to the trace \<^verbatim>\<open>sent\<close>. Logging is left out.
\<close>

section \<open>Definitions\<close>

record aggregatorMsg =
  emerge :: bool
  routingKey :: string
  protocol :: string
  port :: u16
  routingInfo :: PathInfo
  nextHop :: net_ip
  userID :: u32
  data :: "byte list"

record HeapItem =
  batch :: nat
  deadline :: int
  index :: int

record Batch =
  B_BuffSize :: nat
  RoutingKey :: string
  NextHop :: net_ip
  pkt :: Packet
  heapItem :: "nat option"
  createTime :: int

record sendInfo =
  si_p :: "byte list"
  rkey :: string
  next_ip :: net_ip

record worker =
  batches :: "(string, nat list) gomap"
  heap :: "nat list"
  items :: "HeapItem list"
  bstore :: "Batch list"
  sent :: "sendInfo list"

text \<open>The configuration values the handlers read.\<close>

record AggConfig =
  BufferSize :: nat
  BatchTimeoutMs :: int
  BatchNumMap :: "(u16, int) gomap"

definition batchMaxAge :: int where
  "batchMaxAge = 60 * 1000000000"

definition batchTimeout :: "AggConfig \<Rightarrow> int" where
  "batchTimeout cfg = BatchTimeoutMs cfg * 1000000"

definition new_worker :: worker where
  "new_worker = \<lparr>batches = [], heap = [], items = [], bstore = [], sent = []\<rparr>"

text \<open>The heap of items: the list of pointers with the store they point into.\<close>

type_synonym MinHeap = "nat list \<times> HeapItem list"

definition MinHeap_Len :: "MinHeap \<Rightarrow> nat" where
  "MinHeap_Len h = length (fst h)"

definition MinHeap_Less :: "MinHeap \<Rightarrow> nat \<Rightarrow> nat \<Rightarrow> bool" where
  "MinHeap_Less h i j = (deadline (snd h ! (fst h ! i)) < deadline (snd h ! (fst h ! j)))"

definition set_index :: "HeapItem list \<Rightarrow> nat \<Rightarrow> int \<Rightarrow> HeapItem list" where
  "set_index st x i = st[x := (st ! x)\<lparr>index := i\<rparr>]"

definition MinHeap_Swap :: "MinHeap \<Rightarrow> nat \<Rightarrow> nat \<Rightarrow> MinHeap" where
  "MinHeap_Swap h i j =
     (let xs = (fst h)[i := fst h ! j, j := fst h ! i] in
      (xs, set_index (set_index (snd h) (xs ! i) (int i)) (xs ! j) (int j)))"

definition MinHeap_Push :: "MinHeap \<Rightarrow> nat \<Rightarrow> MinHeap" where
  "MinHeap_Push h x = (fst h @ [x], set_index (snd h) x (int (length (fst h))))"

definition MinHeap_Pop :: "MinHeap \<Rightarrow> MinHeap \<times> nat" where
  "MinHeap_Pop h = (let x = last (fst h) in ((butlast (fst h), set_index (snd h) x (- 1)), x))"

text \<open>The header fields of a packet for a message, as the four blocks of \<^verbatim>\<open>handleMsg\<close> set them.\<close>

fun set_hops :: "Packet \<Rightarrow> int \<Rightarrow> string list \<Rightarrow> Packet" where
  "set_hops q i [] = q"
| "set_hops q i (h # hs) = set_hops (SetHopIP q i (HopIPToNet h)) (i + 1) hs"

definition msg_packet :: "nat \<Rightarrow> aggregatorMsg \<Rightarrow> Packet" where
  "msg_packet buffSize msg =
     SetHopPos (SetProtocol (SetPort (set_hops (NewPacket buffSize) 0 (Hops (routingInfo msg)))
       (port msg)) (protocol msg)) 1"

definition new_batch :: "nat \<Rightarrow> aggregatorMsg \<Rightarrow> int \<Rightarrow> Batch" where
  "new_batch buffSize msg now =
     \<lparr>B_BuffSize = buffSize, RoutingKey = routingKey msg, NextHop = nextHop msg,
      pkt = msg_packet buffSize msg, heapItem = None, createTime = now\<rparr>"

text \<open>The choice of a batch among those of a routing key.\<close>

definition pick_batch :: "nat list \<Rightarrow> u32 \<Rightarrow> nat option" where
  "pick_batch bList uid =
     (if length bList > 0
      then if length bList \<le> 1 then Some (bList ! 0) else Some (bList ! (unat uid mod length bList))
      else None)"

definition flush :: "worker \<Rightarrow> sendInfo \<Rightarrow> worker" where
  "flush w s = (if length (si_p s) \<le> 0 then w else w\<lparr>sent := sent w @ [s]\<rparr>)"

text \<open>Slicing \<^verbatim>\<open>Buf[:n]\<close> past the end is a panic.\<close>

definition slice_to :: "byte list \<Rightarrow> nat \<Rightarrow> byte list result" where
  "slice_to b n = (if n \<le> length b then Inr (take n b) else Inl (GoPanic ''slice bounds out of range''))"

definition emerge_send :: "nat \<Rightarrow> aggregatorMsg \<Rightarrow> worker \<Rightarrow> worker result" where
  "emerge_send buffSize msg w =
     bindr (AppendUserPacket (msg_packet buffSize msg) (userID msg) (data msg)) (\<lambda>(q, ok).
       if \<not> ok then Inr w
       else bindr (SerializeHead q) (\<lambda>q.
            bindr (slice_to (Buf q) (TotalBytes q)) (\<lambda>buf.
            Inr (flush w \<lparr>si_p = buf, rkey = routingKey msg, next_ip = nextHop msg\<rparr>))))"

definition batch_count :: "AggConfig \<Rightarrow> u16 \<Rightarrow> nat" where
  "batch_count cfg pt =
     (case gm_get (BatchNumMap cfg) pt of Some n \<Rightarrow> if n \<le> 0 then 1 else nat n | None \<Rightarrow> 1)"

text \<open>Finding the batch of a message, creating those of a new routing key.\<close>

definition find_batch :: "AggConfig \<Rightarrow> nat \<Rightarrow> aggregatorMsg \<Rightarrow> int \<Rightarrow> worker \<Rightarrow> worker \<times> nat option" where
  "find_batch cfg buffSize msg now w =
     (case pick_batch (gm_list (batches w) (routingKey msg)) (userID msg) of
        Some b \<Rightarrow> (w, Some b)
      | None \<Rightarrow>
          let num = batch_count cfg (port msg);
              n = length (bstore w);
              w1 = w\<lparr>bstore := bstore w @ replicate num (new_batch buffSize msg now)\<rparr>;
              w2 = (case gm_get (batches w) (routingKey msg) of
                      None \<Rightarrow> w1\<lparr>batches := gm_set (batches w) (routingKey msg) [n ..< n + num]\<rparr>
                    | Some _ \<Rightarrow> w1)
          in (w2, pick_batch (gm_list (batches w2) (routingKey msg)) (userID msg)))"

definition set_batch :: "worker \<Rightarrow> nat \<Rightarrow> Batch \<Rightarrow> worker" where
  "set_batch w b bt = w\<lparr>bstore := (bstore w)[b := bt]\<rparr>"

text \<open>Appending the data to the batch, or to a further one that is created for the routing key.\<close>

definition append_batch :: "nat \<Rightarrow> aggregatorMsg \<Rightarrow> int \<Rightarrow> worker \<Rightarrow> nat \<Rightarrow> (worker \<times> nat) result" where
  "append_batch buffSize msg now w b =
     (let bt = bstore w ! b;
          another = (let n = length (bstore w); nb = new_batch buffSize msg now in
            bindr (AppendUserPacket (pkt nb) (userID msg) (data msg)) (\<lambda>(q, ok).
              Inr (w\<lparr>bstore := bstore w @ [nb\<lparr>pkt := q\<rparr>],
                     batches := gm_set (batches w) (routingKey msg)
                       (gm_list (batches w) (routingKey msg) @ [n])\<rparr>, n)))
      in if heapItem bt = None \<and> Wp (pkt bt) > HeaderSize then another
         else bindr (AppendUserPacket (pkt bt) (userID msg) (data msg)) (\<lambda>(q, ok).
                if \<not> ok then another else Inr (set_batch w b (bt\<lparr>pkt := q\<rparr>), b)))"

text \<open>Scheduling the batch unless it is.\<close>

definition schedule :: "AggConfig \<Rightarrow> int \<Rightarrow> worker \<Rightarrow> nat \<Rightarrow> worker" where
  "schedule cfg now w b =
     (if heapItem (bstore w ! b) = None
      then let n = length (items w);
               its = items w @ [\<lparr>batch = b, deadline = now + batchTimeout cfg, index = 0\<rparr>];
               (h, its') = heap_Push MinHeap_Len MinHeap_Less MinHeap_Swap MinHeap_Push (heap w, its) n
           in set_batch (w\<lparr>heap := h, items := its'\<rparr>) b ((bstore w ! b)\<lparr>heapItem := Some n\<rparr>)
      else w)"

definition add_to_batch :: "AggConfig \<Rightarrow> nat \<Rightarrow> int \<Rightarrow> aggregatorMsg \<Rightarrow> worker \<Rightarrow> worker result" where
  "add_to_batch cfg buffSize now msg w =
     (let (w1, ob) = find_batch cfg buffSize msg now w in
      case ob of
        None \<Rightarrow> Inr w1
      | Some b \<Rightarrow> bindr (append_batch buffSize msg now w1 b) (\<lambda>(w2, b'). Inr (schedule cfg now w2 b')))"

definition handleMsg :: "AggConfig \<Rightarrow> int \<Rightarrow> aggregatorMsg \<Rightarrow> worker \<Rightarrow> worker result" where
  "handleMsg cfg now msg w =
     (let small = length (data msg) < 128 \<or> batchTimeout cfg \<le> 20 * 1000000;
          buffSize = (if small then HeaderSize + 4 + 2 + length (data msg) else BufferSize cfg)
      in if emerge msg \<or> small then emerge_send buffSize msg w
         else add_to_batch cfg buffSize now msg w)"

text \<open>
  \<^verbatim>\<open>checkTimeout\<close>, the section under the worker lock: pop the items whose deadline is not after
  \<^term>\<open>now\<close>. Each pop shortens the heap, so as many rounds as the heap has items are enough.
\<close>

fun pop_loop :: "nat \<Rightarrow> int \<Rightarrow> MinHeap \<Rightarrow> nat list \<Rightarrow> (MinHeap \<times> nat list) result" where
  "pop_loop fuel now h expired =
     (case fuel of 0 \<Rightarrow> Inr (h, expired)
      | Suc fuel' \<Rightarrow>
          if MinHeap_Len h > 0
          then if deadline (snd h ! (fst h ! 0)) > now then Inr (h, expired)
               else bindr (heap_Pop MinHeap_Len MinHeap_Less MinHeap_Swap MinHeap_Pop h) (\<lambda>(h', x).
                      pop_loop fuel' now h' (expired @ [x]))
          else Inr (h, expired))"

declare pop_loop.simps [simp del]

definition pop_expired :: "int \<Rightarrow> worker \<Rightarrow> (worker \<times> nat list) result" where
  "pop_expired now w =
     bindr (pop_loop (length (heap w)) now (heap w, items w) []) (\<lambda>((h, its), expired).
       Inr (w\<lparr>heap := h, items := its\<rparr>, expired))"

text \<open>The section per expired item under the lock of its batch, and the sending at the end.\<close>

definition empty_batch :: "int \<Rightarrow> worker \<Rightarrow> nat \<Rightarrow> (worker \<times> sendInfo) result" where
  "empty_batch now w item =
     (let b = batch (items w ! item); bt = bstore w ! b in
      bindr (SerializeHead (pkt bt)) (\<lambda>q.
      bindr (slice_to (Buf q) (TotalBytes q)) (\<lambda>s.
      let buf = go_copy (replicate (TotalBytes q) 0) s in
      Inr (set_batch w b (bt\<lparr>pkt := q\<lparr>Wp := HeaderSize\<rparr>, createTime := now, heapItem := None\<rparr>),
           \<lparr>si_p = buf, rkey = RoutingKey bt, next_ip = NextHop bt\<rparr>))))"

fun empty_batches :: "int \<Rightarrow> worker \<Rightarrow> nat list \<Rightarrow> (worker \<times> sendInfo list) result" where
  "empty_batches now w [] = Inr (w, [])"
| "empty_batches now w (x # xs) =
     bindr (empty_batch now w x) (\<lambda>(w1, s).
     bindr (empty_batches now w1 xs) (\<lambda>(w2, ss). Inr (w2, s # ss)))"

definition flush_expired :: "int \<Rightarrow> worker \<Rightarrow> nat list \<Rightarrow> worker result" where
  "flush_expired now w expired =
     bindr (empty_batches now w expired) (\<lambda>(w', toSend). Inr (foldl flush w' toSend))"

definition checkTimeout :: "int \<Rightarrow> worker \<Rightarrow> worker result" where
  "checkTimeout now w = bindr (pop_expired now w) (\<lambda>(w', expired). flush_expired now w' expired)"

text \<open>\<^verbatim>\<open>evictStaleBatches\<close>: per routing key of the snapshot, and over all of them.\<close>

fun remove_items :: "worker \<Rightarrow> nat list \<Rightarrow> worker result" where
  "remove_items w [] = Inr w"
| "remove_items w (b # bs) =
     (case heapItem (bstore w ! b) of
        None \<Rightarrow> remove_items w bs
      | Some x \<Rightarrow>
          bindr (heap_Remove MinHeap_Len MinHeap_Less MinHeap_Swap MinHeap_Pop (heap w, items w)
                   (index (items w ! x))) (\<lambda>((h, its), _).
            remove_items (w\<lparr>heap := h, items := its\<rparr>) bs))"

definition evict_key :: "int \<Rightarrow> worker \<Rightarrow> string \<times> nat list \<Rightarrow> worker result" where
  "evict_key now w kv =
     (if list_ex (\<lambda>b. now - createTime (bstore w ! b) > batchMaxAge) (snd kv)
      then bindr (remove_items w (snd kv)) (\<lambda>w'. Inr (w'\<lparr>batches := gm_del (batches w') (fst kv)\<rparr>))
      else Inr w)"

fun evict_keys :: "int \<Rightarrow> worker \<Rightarrow> (string \<times> nat list) list \<Rightarrow> worker result" where
  "evict_keys now w [] = Inr w"
| "evict_keys now w (kv # kvs) = bindr (evict_key now w kv) (\<lambda>w'. evict_keys now w' kvs)"

definition evictStaleBatches :: "int \<Rightarrow> worker \<Rightarrow> worker result" where
  "evictStaleBatches now w = evict_keys now w (batches w)"

text \<open>
  The invariant of the heap against the store: the items of the heap are distinct and allocated, the
  stored index of each is its position, and \<^term>\<open>F\<close> lists what the heap operations never change, the
  batch and the deadline of every item.
\<close>

definition mh_elems :: "MinHeap \<Rightarrow> (nat \<times> int) list" where
  "mh_elems h = map (\<lambda>x. (x, deadline (snd h ! x))) (fst h)"

definition mh_abs :: "MinHeap \<Rightarrow> nat \<Rightarrow> nat \<times> int" where
  "mh_abs h x = (x, deadline (snd h ! x))"

definition frame :: "HeapItem list \<Rightarrow> (nat \<times> int) list" where
  "frame st = map (\<lambda>it. (batch it, deadline it)) st"

definition mh_inv :: "(nat \<times> int) list \<Rightarrow> MinHeap \<Rightarrow> bool" where
  "mh_inv F h = (distinct (fst h) \<and> (\<forall>x \<in> set (fst h). x < length (snd h))
     \<and> (\<forall>i < length (fst h). index (snd h ! (fst h ! i)) = int i) \<and> frame (snd h) = F)"

definition mh_fresh :: "MinHeap \<Rightarrow> nat \<Rightarrow> bool" where
  "mh_fresh h x = (x \<notin> set (fst h) \<and> x < length (snd h))"

section \<open>The heap of items implements heap.Interface\<close>

lemma set_index_simps [simp]:
  "length (set_index st x i) = length st" "frame (set_index st x i) = frame st"
proof -
  show "length (set_index st x i) = length st" by (simp add: set_index_def)
  show "frame (set_index st x i) = frame st"
    unfolding frame_def set_index_def
    by (rule nth_equalityI) (simp, case_tac "x < length st", auto simp: nth_list_update)
qed

lemma frame_nth:
  "x < length st \<Longrightarrow> frame st ! x = (batch (st ! x), deadline (st ! x))" "length (frame st) = length st"
  by (simp_all add: frame_def)

lemma deadline_set_index [simp]: "deadline (set_index st x i ! y) = deadline (st ! y)"
  "batch (set_index st x i ! y) = batch (st ! y)"
  unfolding set_index_def by (cases "x = y"; cases "x < length st"; auto simp: nth_list_update list_update_beyond)+

lemma index_set_index: "x < length st \<Longrightarrow> index (set_index st x i ! y) = (if x = y then i else index (st ! y))"
  by (simp add: set_index_def nth_list_update)

lemma mh_elems_nth [simp]: "i < length (fst h) \<Longrightarrow> mh_elems h ! i = (fst h ! i, deadline (snd h ! (fst h ! i)))"
  by (simp add: mh_elems_def)

lemma mh_Swap_elems:
  assumes "i < length (fst h)" "j < length (fst h)"
  shows "mh_elems (MinHeap_Swap h i j) = swap_at (mh_elems h) i j"
  using assms by (simp add: MinHeap_Swap_def Let_def mh_elems_def swap_at_def map_update)

lemma mh_Swap_inv:
  assumes "mh_inv F h" "i < length (fst h)" "j < length (fst h)"
  shows "mh_inv F (MinHeap_Swap h i j)"
proof -
  let ?xs = "(fst h)[i := fst h ! j, j := fst h ! i]"
  have d: "distinct (fst h)" "\<forall>x \<in> set (fst h). x < length (snd h)"
    "\<forall>k < length (fst h). index (snd h ! (fst h ! k)) = int k"
    using assms(1) by (auto simp: mh_inv_def)
  have "mset ?xs = mset (fst h)"
    using mset_swap_at [OF assms(2,3)] by (simp add: swap_at_def)
  then have s: "set ?xs = set (fst h)" "distinct ?xs"
    using d(1) mset_eq_setD mset_eq_imp_distinct_iff by blast+
  have nth: "?xs ! k = (if k = i then fst h ! j else if k = j then fst h ! i else fst h ! k)"
    if "k < length (fst h)" for k using nth_swap_at [OF assms(2,3) that] by (simp add: swap_at_def)
  have lt: "?xs ! k < length (snd h)" if "k < length (fst h)" for k
    using d(2) s(1) that by (metis length_list_update nth_mem)
  have "index (snd (MinHeap_Swap h i j) ! (?xs ! k)) = int k" if "k < length (fst h)" for k
    using that assms(2,3) d(3) lt [of i] lt [of j] lt [of k] s(2)
    by (simp add: MinHeap_Swap_def Let_def index_set_index nth_eq_iff_index_eq nth)
  then show ?thesis using assms d s by (simp add: mh_inv_def MinHeap_Swap_def Let_def)
qed

lemma mh_Push:
  assumes "mh_inv F h" "mh_fresh h x"
  shows "mh_elems (MinHeap_Push h x) = mh_elems h @ [mh_abs h x]" "mh_inv F (MinHeap_Push h x)"
proof -
  show "mh_elems (MinHeap_Push h x) = mh_elems h @ [mh_abs h x]"
    by (simp add: mh_elems_def mh_abs_def MinHeap_Push_def)
  have "x \<noteq> fst h ! k" if "k < length (fst h)" for k using assms(2) that by (auto simp: mh_fresh_def)
  then show "mh_inv F (MinHeap_Push h x)"
    using assms by (auto simp: mh_inv_def mh_fresh_def MinHeap_Push_def index_set_index nth_append less_Suc_eq)
qed

lemma mh_Pop:
  assumes "mh_inv F h" "0 < length (fst h)" "MinHeap_Pop h = (h', x)"
  shows "mh_elems h' = butlast (mh_elems h) \<and> mh_abs h' x = last (mh_elems h)"
    "mh_inv F h' \<and> mh_fresh h' x"
proof -
  obtain ys y st where h: "h = (ys @ [y], st)" using assms(2) by (cases h; cases "fst h" rule: rev_cases) auto
  have x: "x = y" "h' = (ys, set_index st y (- 1))" using assms(3) by (auto simp: h MinHeap_Pop_def Let_def)
  show "mh_elems h' = butlast (mh_elems h) \<and> mh_abs h' x = last (mh_elems h)"
    by (simp add: x h mh_elems_def mh_abs_def)
  have inv: "distinct (ys @ [y])" "y < length st" "\<forall>x \<in> set ys. x < length st" "frame st = F"
    "\<forall>i < Suc (length ys). index (st ! ((ys @ [y]) ! i)) = int i"
    using assms(1) by (auto simp: mh_inv_def h)
  have "index (set_index st y (- 1) ! (ys ! i)) = int i" if "i < length ys" for i
  proof -
    have "y \<noteq> ys ! i" using inv(1) that by auto
    moreover have "index (st ! (ys ! i)) = int i" using inv(5) that by (metis less_SucI nth_append)
    ultimately show ?thesis using inv(2) by (simp add: index_set_index)
  qed
  with inv show "mh_inv F h' \<and> mh_fresh h' x" by (auto simp: x mh_inv_def mh_fresh_def)
qed

interpretation mh: heap_interface MinHeap_Len MinHeap_Less MinHeap_Swap MinHeap_Push MinHeap_Pop
  mh_elems mh_abs snd "mh_inv F" mh_fresh for F
proof
  show "MinHeap_Len h = length (mh_elems h)" for h by (simp add: MinHeap_Len_def mh_elems_def)
qed (simp_all add: MinHeap_Len_def MinHeap_Less_def mh_Swap_elems mh_Swap_inv mh_Push mh_Pop)

end
