(* ===== verification/Agg_Invariant.thy ===== *)
theory Agg_Invariant
  imports Aggregator
begin

text \<open>
  The invariant of an aggregator worker and its preservation when messages are added
  (\<^verbatim>\<open>handleMsg\<close> of \<^verbatim>\<open>src/data-proxy/aggregator/aggregator.go\<close>): the heap, the batches and the map of
  routing keys point to each other consistently, every packet represents the sub-packets waiting in
  it, and the multiset of waiting sub-packets grows by exactly the message that is added.
\<close>

section \<open>What waits and what is received\<close>

text \<open>What is waiting in a batch, and what a receiver parses from a sent buffer.\<close>

definition batch_subs :: "Batch \<Rightarrow> SubPacket list" where
  "batch_subs bt = parse_subs (drop HeaderSize (take (Wp (pkt bt)) (Buf (pkt bt))))"

definition received :: "sendInfo \<Rightarrow> SubPacket list" where
  "received s = (case Parse (si_p s) (length (si_p s)) of Inr (_, subs) \<Rightarrow> subs | Inl _ \<Rightarrow> [])"

definition delivered :: "sendInfo list \<Rightarrow> (string \<times> SubPacket) multiset" where
  "delivered ss = (\<Sum>s\<in>#mset ss. image_mset (Pair (rkey s)) (mset (received s)))"

definition bt_of :: "worker \<Rightarrow> nat \<Rightarrow> Batch" where
  "bt_of w x = bstore w ! batch (items w ! x)"

definition bt_load :: "Batch \<Rightarrow> (string \<times> SubPacket) multiset" where
  "bt_load bt = image_mset (Pair (RoutingKey bt)) (mset (batch_subs bt))"

text \<open>The data waiting in the scheduled batches and in those of the items \<^term>\<open>E\<close> already popped.\<close>

definition scheduled :: "nat list \<Rightarrow> worker \<Rightarrow> (string \<times> SubPacket) multiset" where
  "scheduled E w = (\<Sum>x\<in>#mset (heap w @ E). bt_load (bt_of w x))"

text \<open>A packet whose payload length is brought up to date; a flushed packet keeps a stale one.\<close>

definition fix_len :: "Packet \<Rightarrow> Packet" where
  "fix_len q = q\<lparr>PayloadLen := of_nat (Wp q - HeaderSize)\<rparr>"

definition batch_ok :: "nat \<Rightarrow> Batch \<Rightarrow> bool" where
  "batch_ok N bt = (BuffSize (pkt bt) = N
     \<and> packet_rep (fix_len (pkt bt)) (batch_subs bt) \<and> (\<forall>s \<in> set (batch_subs bt). Data s \<noteq> [])
     \<and> (heapItem bt = None \<longrightarrow> Wp (pkt bt) = HeaderSize)
     \<and> (heapItem bt \<noteq> None \<longrightarrow> pkt bt = fix_len (pkt bt)))"

definition links_ok :: "nat list \<Rightarrow> worker \<Rightarrow> bool" where
  "links_ok E w = (distinct (heap w @ E) \<and> (\<forall>x \<in> set (heap w @ E). x < length (items w)
     \<and> batch (items w ! x) < length (bstore w) \<and> heapItem (bt_of w x) = Some x
     \<and> batch (items w ! x) \<in> set (gm_list (batches w) (RoutingKey (bt_of w x)))))"

definition keys_ok :: "nat list \<Rightarrow> worker \<Rightarrow> bool" where
  "keys_ok E w = (gm_ok (batches w) \<and> (\<forall>k l. gm_get (batches w) k = Some l \<longrightarrow> l \<noteq> [] \<and> distinct l
     \<and> (\<forall>b \<in> set l. b < length (bstore w) \<and> RoutingKey (bstore w ! b) = k
          \<and> (\<forall>x. heapItem (bstore w ! b) = Some x \<longrightarrow> x \<in> set (heap w @ E) \<and> batch (items w ! x) = b))))"

definition worker_inv :: "nat \<Rightarrow> nat list \<Rightarrow> worker \<Rightarrow> bool" where
  "worker_inv N E w = (mh.heap_ok (frame (items w)) (heap w, items w)
     \<and> links_ok E w \<and> keys_ok E w \<and> (\<forall>bt \<in> set (bstore w). batch_ok N bt))"

definition due_by :: "int \<Rightarrow> worker \<Rightarrow> bool" where
  "due_by d w = (\<forall>x \<in> set (heap w). deadline (items w ! x) \<le> d)"

text \<open>The address words of the header for a list of hops: the first four, zero where there is none.\<close>

definition hop_word :: "string \<Rightarrow> u32" where
  "hop_word h = (let ip4 = To4 (HopIPToNet h) in if ip4 = [] then 0 else of_be32 ip4)"

definition hop_words :: "string list \<Rightarrow> u32 list" where
  "hop_words hs = take 4 (map hop_word hs @ replicate 4 0)"

text \<open>What a receiver reads from a buffer sent for a message.\<close>

definition carries :: "aggregatorMsg \<Rightarrow> SubPacket list \<Rightarrow> byte list \<Rightarrow> bool" where
  "carries msg subs buf = (\<exists>r. Parse buf (length buf) = Inr (r, subs) \<and> HopPos r = 1
     \<and> HopIP r = hop_words (Hops (routingInfo msg)) \<and> Port r = port msg
     \<and> Protocol r = (if protocol msg = ''tcp'' then 6 else 17))"

section \<open>Lemmas\<close>

lemma fix_len_simps [simp]:
  "Wp (fix_len q) = Wp q" "Buf (fix_len q) = Buf q" "BuffSize (fix_len q) = BuffSize q"
  "HopPos (fix_len q) = HopPos q" "HopIP (fix_len q) = HopIP q" "Port (fix_len q) = Port q"
  "Protocol (fix_len q) = Protocol q" "fix_len (fix_len q) = fix_len q"
  by (simp_all add: fix_len_def)

lemma packet_rep_fix_len: "packet_rep q subs \<Longrightarrow> fix_len q = q"
  by (simp add: packet_rep_def packet_inv_def fix_len_def)

lemma drop_last_empty_id: "\<forall>s \<in> set subs. Data s \<noteq> [] \<Longrightarrow> drop_last_empty subs = subs"
  by (cases subs rule: rev_cases) (auto simp: drop_last_empty_def)

lemma AppendUserPacket_fix:
  fixes u d
  assumes "packet_rep (fix_len q) subs"
  defines "fits \<equiv> sub_fits (BuffSize q) subs \<lparr>UserID = u, Data = d\<rparr>"
  shows "\<exists>q'. AppendUserPacket q u d = Inr (q', fits) \<and> (\<not> fits \<longrightarrow> q' = q)
    \<and> (fits \<longrightarrow> packet_rep q' (subs @ [\<lparr>UserID = u, Data = d\<rparr>]) \<and> BuffSize q' = BuffSize q
          \<and> HopPos q' = HopPos q \<and> HopIP q' = HopIP q \<and> Port q' = Port q \<and> Protocol q' = Protocol q)"
proof -
  have app: "AppendUserPacket (fix_len q) u d =
      (case AppendUserPacket q u d of Inr (q', ok) \<Rightarrow> Inr (if ok then q' else fix_len q', ok) | Inl e \<Rightarrow> Inl e)"
    by (auto simp: AppendUserPacket_def Let_def bindr_def fix_len_def split: sum.splits)
  obtain q' where q': "AppendUserPacket (fix_len q) u d = Inr (q', fits)"
    "packet_rep q' (if fits then subs @ [\<lparr>UserID = u, Data = d\<rparr>] else subs)"
    "BuffSize q' = BuffSize q" "HopPos q' = HopPos q" "HopIP q' = HopIP q" "Port q' = Port q" "Protocol q' = Protocol q"
    using AppendUserPacket_rep [OF assms(1), of u d] by (auto simp: fits_def)
  show ?thesis
  proof (cases fits)
    case True
    with q' app show ?thesis by (auto split: sum.splits prod.splits if_splits)
  next
    case False
    then have "AppendUserPacket q u d = Inr (q, False)"
      using packet_rep_length [OF assms(1)]
      by (auto simp: fits_def sub_fits_def AppendUserPacket_def HeaderSize_def)
    with False show ?thesis by simp
  qed
qed

lemma msg_packet_rep:
  assumes "HeaderSize \<le> n"
  shows "packet_rep (msg_packet n msg) []" "BuffSize (msg_packet n msg) = n"
proof -
  have "packet_rep (set_hops q i hs) subs = packet_rep q subs \<and> BuffSize (set_hops q i hs) = BuffSize q" for q i hs subs
    by (induction q i hs rule: set_hops.induct) auto
  then show "packet_rep (msg_packet n msg) []" "BuffSize (msg_packet n msg) = n"
    using assms by (simp_all add: msg_packet_def NewPacket_rep)
qed

lemma rep_batch_subs:
  assumes "packet_rep (fix_len (pkt bt)) subs" "\<forall>s \<in> set subs. Data s \<noteq> []" "BuffSize (pkt bt) < HeaderSize + 2 ^ 16"
  shows "batch_subs bt = subs"
proof -
  have b: "drop HeaderSize (take (Wp (pkt bt)) (Buf (pkt bt))) = encode_subs subs"
    using assms(1) by (simp add: packet_rep_def)
  have "Wp (pkt bt) \<le> BuffSize (pkt bt)" "Wp (pkt bt) = HeaderSize + length (encode_subs subs)"
    using assms(1) packet_rep_length [OF assms(1)] by (simp_all add: packet_rep_def packet_inv_def)
  then have "length (Data s) < 2 ^ 16" if "s \<in> set subs" for s
    using sub_length_le [OF that] assms(3) by linarith
  then show ?thesis using parse_encode_subs [of subs] drop_last_empty_id [OF assms(2)]
    by (simp add: batch_subs_def b)
qed

lemma new_batch_ok:
  assumes "HeaderSize \<le> N"
  shows "batch_ok N (new_batch N msg now)" "heapItem (new_batch N msg now) = None"
    "RoutingKey (new_batch N msg now) = routingKey msg" "pkt (new_batch N msg now) = msg_packet N msg"
proof -
  have "Wp (msg_packet N msg) = HeaderSize"
    using packet_rep_length [OF msg_packet_rep(1) [OF assms]] by simp
  then show "batch_ok N (new_batch N msg now)"
    using msg_packet_rep [OF assms, of msg] packet_rep_fix_len [of "msg_packet N msg" "[]"]
    by (simp add: batch_ok_def new_batch_def batch_subs_def parse_subs_short)
qed (simp_all add: new_batch_def)

lemma keys_ok_list:
  assumes "keys_ok E w" "b \<in> set (gm_list (batches w) k)"
  shows "b < length (bstore w)" "RoutingKey (bstore w ! b) = k"
    "heapItem (bstore w ! b) = Some x \<Longrightarrow> x \<in> set (heap w @ E) \<and> batch (items w ! x) = b"
proof -
  obtain l where l: "gm_get (batches w) k = Some l" "b \<in> set l"
    using assms(2) by (cases "gm_get (batches w) k") (auto simp: gm_list_def)
  then have *: "b < length (bstore w) \<and> RoutingKey (bstore w ! b) = k
      \<and> (\<forall>x. heapItem (bstore w ! b) = Some x \<longrightarrow> x \<in> set (heap w @ E) \<and> batch (items w ! x) = b)"
    using assms(1) unfolding keys_ok_def by blast
  then show "b < length (bstore w)" "RoutingKey (bstore w ! b) = k"
    "heapItem (bstore w ! b) = Some x \<Longrightarrow> x \<in> set (heap w @ E) \<and> batch (items w ! x) = b" by blast+
qed

lemma scheduled_cong:
  assumes "heap w' = heap w" "\<And>x. x \<in> set (heap w @ E) \<Longrightarrow> bt_of w' x = bt_of w x"
  shows "scheduled E w' = scheduled E w"
proof -
  have "image_mset (\<lambda>x. bt_load (bt_of w' x)) (mset (heap w @ E)) = image_mset (\<lambda>x. bt_load (bt_of w x)) (mset (heap w @ E))"
    by (rule image_mset_cong) (use assms(2) in simp)
  then show ?thesis by (simp add: scheduled_def assms(1) del: mset_append)
qed

lemma add_batches:
  assumes "worker_inv N E w" "batch_ok N nb" "heapItem nb = None" "RoutingKey nb = k" "0 < num"
  defines "n \<equiv> length (bstore w)"
  defines "w' \<equiv> w\<lparr>bstore := bstore w @ replicate num nb,
                  batches := gm_set (batches w) k (gm_list (batches w) k @ [n ..< n + num])\<rparr>"
  shows "worker_inv N E w'" "scheduled E w' = scheduled E w"
proof -
  have inv: "mh.heap_ok (frame (items w)) (heap w, items w)" "links_ok E w" "keys_ok E w"
    "\<forall>bt \<in> set (bstore w). batch_ok N bt" using assms(1) by (simp_all add: worker_inv_def)
  have same: "bt_of w' x = bt_of w x" if "x \<in> set (heap w @ E)" for x
    using inv(2) that by (auto simp: links_ok_def bt_of_def w'_def nth_append)
  have "links_ok E w'"
    unfolding links_ok_def
  proof (intro conjI ballI)
    show "distinct (heap w' @ E)" using inv(2) by (simp add: links_ok_def w'_def)
  next
    fix x
    assume "x \<in> set (heap w' @ E)"
    then have x: "x \<in> set (heap w @ E)" by (simp add: w'_def)
    show "x < length (items w')" "batch (items w' ! x) < length (bstore w')" "heapItem (bt_of w' x) = Some x"
      "batch (items w' ! x) \<in> set (gm_list (batches w') (RoutingKey (bt_of w' x)))"
      using inv(2) x unfolding same [OF x] by (auto simp: links_ok_def w'_def intro: trans_less_add1)
  qed
  moreover have "keys_ok E w'"
  proof -
    have gm: "gm_ok (batches w')" using inv(3) by (simp add: w'_def keys_ok_def distinct_update)
    have old: "b < n \<and> RoutingKey (bstore w' ! b) = k'
        \<and> (\<forall>x. heapItem (bstore w' ! b) = Some x \<longrightarrow> x \<in> set (heap w @ E) \<and> batch (items w ! x) = b)"
      if "b \<in> set (gm_list (batches w) k')" for b k'
      using keys_ok_list [OF inv(3) that] by (auto simp: w'_def n_def nth_append)
    have new: "bstore w' ! b = nb" if "b \<in> {n ..< n + num}" for b
      using that by (auto simp: w'_def n_def nth_append)
    have "l \<noteq> [] \<and> distinct l \<and> (\<forall>b \<in> set l. b < length (bstore w') \<and> RoutingKey (bstore w' ! b) = k'
        \<and> (\<forall>x. heapItem (bstore w' ! b) = Some x \<longrightarrow> x \<in> set (heap w' @ E) \<and> batch (items w' ! x) = b))"
      if l: "gm_get (batches w') k' = Some l" for k' l
    proof (cases "k' = k")
      case True
      then have l: "l = gm_list (batches w) k @ [n ..< n + num]" using l by (simp add: w'_def update_conv')
      have "distinct (gm_list (batches w) k)" using inv(3) by (auto simp: keys_ok_def gm_list_def split: option.splits)
      then show ?thesis unfolding l True using old [of _ k] new assms(3,4,5)
        by (force simp: w'_def n_def)
    next
      case False
      then have l: "gm_get (batches w) k' = Some l" using l by (simp add: w'_def update_conv')
      then have "l \<noteq> []" "distinct l" using inv(3) by (auto simp: keys_ok_def)
      moreover have "gm_list (batches w) k' = l" using l by simp
      ultimately show ?thesis using old [of _ k'] by (force simp: w'_def n_def)
    qed
    with gm show ?thesis by (auto simp: keys_ok_def)
  qed
  ultimately show "worker_inv N E w'"
    using inv assms(2) by (auto simp: worker_inv_def w'_def)
  show "scheduled E w' = scheduled E w"
    using same by (intro scheduled_cong) (simp_all add: w'_def)
qed

lemma sum_mset_remove: "x \<in># M \<Longrightarrow> (\<Sum>y\<in>#M. f y) = f x + (\<Sum>y\<in>#M - {#x#}. f y)"
  for f :: "'a \<Rightarrow> 'b :: comm_monoid_add"
  by (metis insert_DiffM sum_mset.insert image_mset_add_mset)

text \<open>Replacing the contents of a scheduled batch.\<close>

lemma update_batch:
  assumes inv: "links_ok E w" "keys_ok E w" and x: "x \<in> set (heap w @ E)"
    and bt': "RoutingKey bt' = RoutingKey (bt_of w x)" "heapItem bt' = Some x"
  defines "w' \<equiv> set_batch w (batch (items w ! x)) bt'"
  shows "links_ok E w'" "keys_ok E w'"
    "scheduled E w' + bt_load (bt_of w x) = scheduled E w + bt_load bt'"
proof -
  let ?b = "batch (items w ! x)"
  have b: "?b < length (bstore w)" "heapItem (bt_of w x) = Some x" using inv(1) x by (auto simp: links_ok_def)
  have of_x: "bt_of w' x = bt'" using b(1) by (simp add: bt_of_def w'_def set_batch_def)
  have other: "bt_of w' y = bt_of w y" if "y \<in> set (heap w @ E)" "y \<noteq> x" for y
  proof -
    have "heapItem (bt_of w y) = Some y" using inv(1) that(1) by (auto simp: links_ok_def)
    with that(2) b(2) have "batch (items w ! y) \<noteq> ?b" by (auto simp: bt_of_def)
    then show ?thesis by (simp add: bt_of_def w'_def set_batch_def)
  qed
  have same: "RoutingKey (bt_of w' y) = RoutingKey (bt_of w y) \<and> heapItem (bt_of w' y) = Some y"
    if "y \<in> set (heap w @ E)" for y
    using that inv(1) other [of y] of_x bt' by (cases "y = x") (auto simp: links_ok_def)
  show "links_ok E w'" using inv(1) same by (auto simp: links_ok_def w'_def set_batch_def)
  have "RoutingKey (bstore w' ! c) = RoutingKey (bstore w ! c) \<and> heapItem (bstore w' ! c) = heapItem (bstore w ! c)"
    for c using bt' b by (cases "c = ?b") (simp_all add: w'_def set_batch_def bt_of_def)
  then show "keys_ok E w'" using inv(2) by (simp add: keys_ok_def w'_def set_batch_def)
  have "(\<Sum>y\<in>#mset (heap w @ E) - {#x#}. bt_load (bt_of w' y)) = (\<Sum>y\<in>#mset (heap w @ E) - {#x#}. bt_load (bt_of w y))"
  proof (intro arg_cong [where f = sum_mset] image_mset_cong)
    fix y
    assume y: "y \<in># mset (heap w @ E) - {#x#}"
    have "distinct (heap w @ E)" using inv(1) by (simp add: links_ok_def)
    then have "count (mset (heap w @ E)) x \<le> 1" by (metis distinct_count_atmost_1 le_numeral_extra(4) count_mset nle_le zero_le_one)
    then have "y \<noteq> x" using y by (auto simp: in_diff_count)
    moreover have "y \<in> set (heap w @ E)" using in_diffD [OF y] by simp
    ultimately show "bt_load (bt_of w' y) = bt_load (bt_of w y)" using other by simp
  qed
  moreover have "x \<in># mset (heap w @ E)" using x by simp
  moreover have "heap w' = heap w" by (simp add: w'_def set_batch_def)
  ultimately show "scheduled E w' + bt_load (bt_of w x) = scheduled E w + bt_load bt'"
    unfolding scheduled_def using of_x by (simp add: sum_mset_remove [where x = x] del: mset_append)
qed

text \<open>Allocating an item and pushing it.\<close>

lemma heap_ok_alloc:
  assumes "mh.heap_ok (frame st) (h, st)"
  shows "mh.heap_ok (frame (st @ [it])) (h, st @ [it])"
proof -
  have "\<forall>x \<in> set h. x < length st" using assms by (simp add: mh.heap_ok_def mh_inv_def)
  moreover from this have "mh_elems (h, st @ [it]) = mh_elems (h, st)" by (auto simp: mh_elems_def nth_append)
  ultimately show ?thesis using assms
    by (auto simp: mh.heap_ok_def mh_inv_def nth_append MinHeap_Len_def)
qed

lemma mset_mh_elems: "mset (fst h) = image_mset fst (mset (mh_elems h))"
  by (simp add: mh_elems_def multiset.map_comp comp_def flip: mset_map)

lemma push_item:
  fixes it
  assumes "mh.heap_ok (frame st) (h, st)"
  defines "r \<equiv> heap_Push MinHeap_Len MinHeap_Less MinHeap_Swap MinHeap_Push (h, st @ [it]) (length st)"
  shows "mh.heap_ok (frame (snd r)) r" "mset (fst r) = add_mset (length st) (mset h)"
    "frame (snd r) = frame (st @ [it])"
proof -
  have "mh_fresh (h, st @ [it]) (length st)"
    using assms(1) by (auto simp: mh_fresh_def mh.heap_ok_def mh_inv_def)
  from mh.push_correct [OF heap_ok_alloc [OF assms(1)] this]
  have r: "mh.heap_ok (frame (st @ [it])) r"
    "mset (mh_elems r) = add_mset (mh_abs (h, st @ [it]) (length st)) (mset (mh_elems (h, st @ [it])))"
    by (simp_all add: r_def)
  then show fr: "frame (snd r) = frame (st @ [it])" by (simp add: mh.heap_ok_def mh_inv_def)
  then show "mh.heap_ok (frame (snd r)) r" using r by simp
  show "mset (fst r) = add_mset (length st) (mset h)"
    unfolding mset_mh_elems r(2) by (simp add: mh_abs_def flip: mset_mh_elems)
qed

lemma frame_batch: "frame st' = frame st \<Longrightarrow> x < length st \<Longrightarrow> batch (st' ! x) = batch (st ! x) \<and> deadline (st' ! x) = deadline (st ! x)"
  by (metis frame_nth Pair_inject)

text \<open>An idle batch \<^term>\<open>b\<close> becomes \<^term>\<open>bt\<close> with a new item in the heap.\<close>

lemma new_item:
  assumes inv: "links_ok E w" "keys_ok E w" and b: "b \<in> set (gm_list (batches w) k)"
    and idle: "heapItem (bstore w ! b) = None"
    and bt: "heapItem bt = Some (length (items w))" "RoutingKey bt = RoutingKey (bstore w ! b)"
    and w': "mset (heap w') = add_mset (length (items w)) (mset (heap w))" "frame (items w') = frame (items w @ [it])"
      "bstore w' = (bstore w)[b := bt]" "batches w' = batches w" "batch it = b"
  shows "length (items w') = Suc (length (items w))" "batch (items w' ! length (items w)) = b"
    "x \<in> set (heap w @ E) \<Longrightarrow> x < length (items w) \<and> batch (items w' ! x) = batch (items w ! x) \<and> bt_of w' x = bt_of w x"
    "bt_of w' (length (items w)) = bt"
    "set (heap w' @ E) = insert (length (items w)) (set (heap w @ E))"
proof -
  show new: "batch (items w' ! length (items w)) = b"
    using frame_batch [OF w'(2), of "length (items w)"] w'(5) by simp
  show "length (items w') = Suc (length (items w))" using arg_cong [OF w'(2), of length] by (simp add: frame_nth)
  show "bt_of w' (length (items w)) = bt" using keys_ok_list(1) [OF inv(2) b] by (simp add: bt_of_def new w'(3))
  show "set (heap w' @ E) = insert (length (items w)) (set (heap w @ E))"
    using arg_cong [OF w'(1), of set_mset] by simp
  assume x: "x \<in> set (heap w @ E)"
  then have lt: "x < length (items w)" "heapItem (bt_of w x) = Some x" using inv(1) by (auto simp: links_ok_def)
  then have "batch (items w' ! x) = batch (items w ! x)" "batch (items w ! x) \<noteq> b"
    using frame_batch [OF w'(2), of x] idle by (auto simp: nth_append bt_of_def)
  with lt show "x < length (items w) \<and> batch (items w' ! x) = batch (items w ! x) \<and> bt_of w' x = bt_of w x"
    by (simp add: bt_of_def w'(3))
qed

lemma new_item_inv:
  assumes inv: "links_ok E w" "keys_ok E w" and b: "b \<in> set (gm_list (batches w) k)"
    and idle: "heapItem (bstore w ! b) = None"
    and bt: "heapItem bt = Some (length (items w))" "RoutingKey bt = RoutingKey (bstore w ! b)"
    and w': "mset (heap w') = add_mset (length (items w)) (mset (heap w))" "frame (items w') = frame (items w @ [it])"
      "bstore w' = (bstore w)[b := bt]" "batches w' = batches w" "batch it = b"
  shows "links_ok E w'" "keys_ok E w'" "scheduled E w' = bt_load bt + scheduled E w"
proof -
  note kb = keys_ok_list [OF inv(2)]
  note f = new_item [OF assms]
  show "links_ok E w'"
    unfolding links_ok_def
  proof (intro conjI ballI)
    have "distinct (length (items w) # (heap w @ E))" using inv(1) f(3) by (auto simp: links_ok_def)
    moreover have "mset (heap w' @ E) = mset (length (items w) # (heap w @ E))" using w'(1) by simp
    ultimately show "distinct (heap w' @ E)" using mset_eq_imp_distinct_iff by blast
  next
    fix x
    assume "x \<in> set (heap w' @ E)"
    then have x: "x = length (items w) \<or> x \<in> set (heap w @ E)" using f(5) by blast
    have "x < length (items w') \<and> batch (items w' ! x) < length (bstore w') \<and> heapItem (bt_of w' x) = Some x
        \<and> batch (items w' ! x) \<in> set (gm_list (batches w') (RoutingKey (bt_of w' x)))"
    proof (cases "x = length (items w)")
      case True
      then show ?thesis using f(1,2,4) kb(1,2) [OF b] b bt by (simp add: w'(3,4))
    next
      case False
      with x inv(1) f(1) f(3) [of x] show ?thesis by (auto simp: links_ok_def w'(3,4) intro: less_SucI)
    qed
    then show "x < length (items w')" "batch (items w' ! x) < length (bstore w')" "heapItem (bt_of w' x) = Some x"
      "batch (items w' ! x) \<in> set (gm_list (batches w') (RoutingKey (bt_of w' x)))" by blast+
  qed
  have "RoutingKey (bstore w' ! c) = k'
      \<and> (\<forall>x. heapItem (bstore w' ! c) = Some x \<longrightarrow> x \<in> set (heap w' @ E) \<and> batch (items w' ! x) = c)"
    if c: "c \<in> set (gm_list (batches w) k')" for c k'
  proof (cases "c = b")
    case True
    then show ?thesis using kb(1,2) [OF b] kb(2) [OF c] bt f(2,5) by (simp add: w'(3))
  next
    case False
    then show ?thesis using kb [OF c] f(3,5) by (auto simp: w'(3))
  qed
  moreover have "gm_list (batches w) k' = l" if "gm_get (batches w) k' = Some l" for k' l using that by simp
  moreover have "gm_ok (batches w)" "\<And>k' l. gm_get (batches w) k' = Some l \<Longrightarrow> l \<noteq> [] \<and> distinct l"
    using inv(2) by (auto simp: keys_ok_def)
  ultimately show "keys_ok E w'" unfolding keys_ok_def w'(3,4) length_list_update using kb(1) by metis
  have "image_mset (\<lambda>x. bt_load (bt_of w' x)) (mset (heap w @ E)) = image_mset (\<lambda>x. bt_load (bt_of w x)) (mset (heap w @ E))"
    by (rule image_mset_cong) (use f(3) in simp)
  then show "scheduled E w' = bt_load bt + scheduled E w"
    using w'(1) f(4) by (simp add: scheduled_def add.assoc)
qed

lemma activate:
  fixes cfg now
  assumes inv: "worker_inv N E w" and b: "b \<in> set (gm_list (batches w) k)"
    and idle: "heapItem (bstore w ! b) = None"
    and q: "packet_rep q subs" "BuffSize q = N" "\<forall>s \<in> set subs. Data s \<noteq> []" and N: "N < HeaderSize + 2 ^ 16"
  defines "w' \<equiv> schedule cfg now (set_batch w b ((bstore w ! b)\<lparr>pkt := q\<rparr>)) b"
  shows "worker_inv N E w'" "scheduled E w' = scheduled E w + image_mset (Pair k) (mset subs)"
    "sent w' = sent w" "batches w' = batches w"
    "mset (heap w') = add_mset (length (items w)) (mset (heap w))"
    "frame (items w') = frame (items w @ [\<lparr>batch = b, deadline = now + batchTimeout cfg, index = 0\<rparr>])"
proof -
  let ?it = "\<lparr>batch = b, deadline = now + batchTimeout cfg, index = 0\<rparr>"
  define r where "r = heap_Push MinHeap_Len MinHeap_Less MinHeap_Swap MinHeap_Push (heap w, items w @ [?it]) (length (items w))"
  define bt where "bt = (bstore w ! b)\<lparr>pkt := q, heapItem := Some (length (items w))\<rparr>"
  have wi: "mh.heap_ok (frame (items w)) (heap w, items w)" "links_ok E w" "keys_ok E w"
    "\<forall>bt \<in> set (bstore w). batch_ok N bt" using inv by (simp_all add: worker_inv_def)
  note kb = keys_ok_list [OF wi(3) b]
  have eq: "w' = w\<lparr>heap := fst r, items := snd r, bstore := (bstore w)[b := bt]\<rparr>"
    using idle kb(1) by (simp add: w'_def schedule_def set_batch_def Let_def r_def bt_def split_beta)
  have w': "heap w' = fst r" "items w' = snd r" "bstore w' = (bstore w)[b := bt]" "batches w' = batches w" "sent w' = sent w"
    by (simp_all add: eq)
  have r: "mh.heap_ok (frame (items w')) (heap w', items w')" "mset (heap w') = add_mset (length (items w)) (mset (heap w))"
    "frame (items w') = frame (items w @ [?it])"
    unfolding w' r_def prod.collapse by (rule push_item [OF wi(1)])+
  have bt: "heapItem bt = Some (length (items w))" "RoutingKey bt = RoutingKey (bstore w ! b)" "batch ?it = b"
    by (simp_all add: bt_def)
  have s: "batch_subs bt = subs"
    using q N packet_rep_fix_len [OF q(1)] by (intro rep_batch_subs) (simp_all add: bt_def)
  have "batch_ok N bt" unfolding batch_ok_def s using q packet_rep_fix_len [OF q(1)] by (simp add: bt_def)
  then have "\<forall>bt \<in> set (bstore w'). batch_ok N bt"
    unfolding w'(3) using wi(4) set_update_subset_insert [of "bstore w" b bt] by blast
  moreover note new_item_inv [OF wi(2,3) b idle bt(1,2) r(2,3) w'(3,4) bt(3)]
  ultimately show "worker_inv N E w'" "scheduled E w' = scheduled E w + image_mset (Pair k) (mset subs)"
    using r(1) kb(2) s bt(2) by (simp_all add: worker_inv_def bt_load_def add.commute)
  show "sent w' = sent w" "batches w' = batches w" by (simp_all add: w')
  show "mset (heap w') = add_mset (length (items w)) (mset (heap w))" "frame (items w') = frame (items w @ [?it])"
    by (fact r)+
qed

lemma pick_batch_some: "l \<noteq> [] \<Longrightarrow> \<exists>b \<in> set l. pick_batch l u = Some b"
  by (auto simp: pick_batch_def)

lemma find_batch_correct:
  assumes "worker_inv N E w" "HeaderSize \<le> N"
  shows "\<exists>w1 b. find_batch cfg N msg now w = (w1, Some b) \<and> b \<in> set (gm_list (batches w1) (routingKey msg))
    \<and> worker_inv N E w1 \<and> scheduled E w1 = scheduled E w \<and> sent w1 = sent w \<and> heap w1 = heap w \<and> items w1 = items w"
proof (cases "gm_get (batches w) (routingKey msg)")
  case (Some l)
  then have "l \<noteq> []" using assms(1) by (auto simp: worker_inv_def keys_ok_def)
  then show ?thesis using pick_batch_some [of l "userID msg"] assms(1) Some by (auto simp: find_batch_def)
next
  case None
  let ?num = "batch_count cfg (port msg)" and ?n = "length (bstore w)"
  let ?w = "w\<lparr>bstore := bstore w @ replicate ?num (new_batch N msg now),
      batches := gm_set (batches w) (routingKey msg) (gm_list (batches w) (routingKey msg) @ [?n ..< ?n + ?num])\<rparr>"
  have num: "0 < ?num" by (auto simp: batch_count_def split: option.splits)
  note ab = add_batches [OF assms(1) new_batch_ok(1-3) [OF assms(2), of msg now] num]
  have "find_batch cfg N msg now w = (?w, pick_batch [?n ..< ?n + ?num] (userID msg))"
    using None by (simp add: find_batch_def pick_batch_def Let_def)
  then show ?thesis using pick_batch_some [of "[?n ..< ?n + ?num]" "userID msg"] num ab None by auto
qed

lemma extend:
  assumes inv: "worker_inv N E w" and b: "b \<in> set (gm_list (batches w) k)" and x: "heapItem (bstore w ! b) = Some x"
    and q: "packet_rep q (batch_subs (bstore w ! b) @ [s])" "BuffSize q = N" "Data s \<noteq> []" and N: "N < HeaderSize + 2 ^ 16"
  defines "w' \<equiv> set_batch w b ((bstore w ! b)\<lparr>pkt := q\<rparr>)"
  shows "worker_inv N E w'" "scheduled E w' = scheduled E w + {#(k, s)#}"
proof -
  let ?bt = "(bstore w ! b)\<lparr>pkt := q\<rparr>"
  have wi: "mh.heap_ok (frame (items w)) (heap w, items w)" "links_ok E w" "keys_ok E w"
    "\<forall>bt \<in> set (bstore w). batch_ok N bt" using inv by (simp_all add: worker_inv_def)
  note kb = keys_ok_list [OF wi(3) b]
  have xb: "x \<in> set (heap w @ E)" "batch (items w ! x) = b" using kb(3) [OF x] by auto
  then have of_x: "bt_of w x = bstore w ! b" by (simp add: bt_of_def)
  have ok: "batch_ok N (bstore w ! b)" using wi(4) kb(1) by simp
  have s: "batch_subs ?bt = batch_subs (bstore w ! b) @ [s]"
    using q N packet_rep_fix_len [OF q(1)] ok by (intro rep_batch_subs) (auto simp: batch_ok_def)
  have "batch_ok N ?bt" unfolding batch_ok_def s using q packet_rep_fix_len [OF q(1)] ok x by (auto simp: batch_ok_def)
  then have "\<forall>bt \<in> set (bstore w'). batch_ok N bt"
    unfolding w'_def set_batch_def using wi(4) set_update_subset_insert [of "bstore w" b ?bt] by auto
  moreover have u: "links_ok E w'" "keys_ok E w'" "scheduled E w' + bt_load (bt_of w x) = scheduled E w + bt_load ?bt"
    using update_batch [OF wi(2,3) xb(1), of ?bt] x unfolding of_x xb(2) w'_def by simp_all
  ultimately show "worker_inv N E w'" using wi(1) by (simp add: worker_inv_def w'_def set_batch_def)
  have "bt_load ?bt = bt_load (bt_of w x) + {#(k, s)#}" using kb(2) by (simp add: bt_load_def s of_x)
  then show "scheduled E w' = scheduled E w + {#(k, s)#}" using u(3) by simp
qed

lemma due_by_new:
  assumes "mset (heap w') = add_mset (length (items w)) (mset (heap w))" "frame (items w') = frame (items w @ [it])"
    "deadline it \<le> d" "due_by d w" "\<forall>x \<in> set (heap w). x < length (items w)"
  shows "due_by d w'"
proof -
  have "set (heap w') = insert (length (items w)) (set (heap w))" using arg_cong [OF assms(1), of set_mset] by simp
  then show ?thesis using assms(3-5) frame_batch [OF assms(2)] by (auto simp: due_by_def nth_append)
qed

lemma append_another:
  fixes cfg now d
  assumes inv: "worker_inv N E w" and N: "HeaderSize \<le> N" "N < HeaderSize + 2 ^ 16" and d: "data msg \<noteq> []"
  defines "s \<equiv> \<lparr>UserID = userID msg, Data = data msg\<rparr>" and "n \<equiv> length (bstore w)" and "k \<equiv> routingKey msg"
  defines "fits \<equiv> HeaderSize + 6 + length (data msg) \<le> N"
  shows "\<exists>q. AppendUserPacket (pkt (new_batch N msg now)) (userID msg) (data msg) = Inr (q, fits)
    \<and> (let w1 = w\<lparr>bstore := bstore w @ [(new_batch N msg now)\<lparr>pkt := q\<rparr>],
                   batches := gm_set (batches w) k (gm_list (batches w) k @ [n])\<rparr>;
            w' = schedule cfg now w1 n
        in worker_inv N E w' \<and> scheduled E w' = scheduled E w + (if fits then {#(k, s)#} else {#})
           \<and> sent w' = sent w \<and> (due_by d w \<longrightarrow> now + batchTimeout cfg \<le> d \<longrightarrow> due_by d w'))"
proof -
  let ?nb = "new_batch N msg now"
  let ?w0 = "w\<lparr>bstore := bstore w @ replicate 1 ?nb, batches := gm_set (batches w) k (gm_list (batches w) k @ [n ..< n + 1])\<rparr>"
  note nb = new_batch_ok [OF N(1), of msg now]
  have rep: "packet_rep (fix_len (pkt ?nb)) []" "BuffSize (pkt ?nb) = N"
    using msg_packet_rep [OF N(1), of msg] packet_rep_fix_len [of "msg_packet N msg" "[]"] by (simp_all add: nb(4))
  have f: "sub_fits (BuffSize (pkt ?nb)) [] s = fits" by (simp add: sub_fits_def rep(2) fits_def s_def add.assoc)
  obtain q where q: "AppendUserPacket (pkt ?nb) (userID msg) (data msg) = Inr (q, fits)" "BuffSize q = N"
      "packet_rep q (if fits then [s] else [])"
    using AppendUserPacket_fix [OF rep(1), of "userID msg" "data msg"] f rep packet_rep_fix_len [of "msg_packet N msg" "[]"]
      msg_packet_rep [OF N(1), of msg] nb(4) unfolding s_def by (cases fits) auto
  have w0: "worker_inv N E ?w0" "scheduled E ?w0 = scheduled E w"
    using add_batches [OF inv nb(1-3), of 1] by (simp_all add: n_def k_def)
  have b: "n \<in> set (gm_list (batches ?w0) k)" "bstore ?w0 ! n = ?nb" "heapItem (bstore ?w0 ! n) = None"
    by (simp_all add: n_def nb(2))
  have ne: "\<forall>s \<in> set (if fits then [s] else []). Data s \<noteq> []" using d by (simp add: s_def)
  let ?w' = "schedule cfg now (set_batch ?w0 n ((bstore ?w0 ! n)\<lparr>pkt := q\<rparr>)) n"
  note act = activate [OF w0(1) b(1,3) q(3,2) ne N(2), of cfg now]
  have eq: "set_batch ?w0 n ((bstore ?w0 ! n)\<lparr>pkt := q\<rparr>) = w\<lparr>bstore := bstore w @ [?nb\<lparr>pkt := q\<rparr>],
                   batches := gm_set (batches w) k (gm_list (batches w) k @ [n])\<rparr>"
    by (simp add: set_batch_def n_def)
  have "due_by d ?w'" if "due_by d w" "now + batchTimeout cfg \<le> d"
    using due_by_new [OF act(5,6)] that w0(1)
    by (auto simp: due_by_def worker_inv_def links_ok_def)
  with act w0(2) show ?thesis unfolding Let_def eq using q(1) by auto
qed

lemma add_to_batch_correct:
  fixes cfg now d
  assumes inv: "worker_inv N E w" and N: "HeaderSize \<le> N" "N < HeaderSize + 2 ^ 16" and d: "data msg \<noteq> []"
  defines "s \<equiv> \<lparr>UserID = userID msg, Data = data msg\<rparr>" and "k \<equiv> routingKey msg"
  defines "fits \<equiv> HeaderSize + 6 + length (data msg) \<le> N"
  shows "\<exists>w'. add_to_batch cfg N now msg w = Inr w' \<and> worker_inv N E w'
    \<and> scheduled E w' = scheduled E w + (if fits then {#(k, s)#} else {#})
    \<and> sent w' = sent w \<and> (due_by d w \<longrightarrow> now + batchTimeout cfg \<le> d \<longrightarrow> due_by d w')"
proof -
  obtain w1 b where f: "find_batch cfg N msg now w = (w1, Some b)" "b \<in> set (gm_list (batches w1) k)"
    "worker_inv N E w1" "scheduled E w1 = scheduled E w" "sent w1 = sent w" "heap w1 = heap w" "items w1 = items w"
    using find_batch_correct [OF inv N(1), of cfg msg now] by (auto simp: k_def)
  let ?bt = "bstore w1 ! b"
  have wi: "keys_ok E w1" "\<forall>bt \<in> set (bstore w1). batch_ok N bt" using f(3) by (simp_all add: worker_inv_def)
  have ok: "batch_ok N ?bt" using wi(2) keys_ok_list(1) [OF wi(1) f(2)] by simp
  have due: "due_by d w1 = due_by d w" by (simp add: due_by_def f(6,7))
  note another = append_another [OF f(3) N d, of now cfg d, folded s_def k_def fits_def]
  define fits' where "fits' = sub_fits N (batch_subs ?bt) s"
  obtain q where q: "AppendUserPacket (pkt ?bt) (userID msg) (data msg) = Inr (q, fits')"
    "fits' \<Longrightarrow> packet_rep q (batch_subs ?bt @ [s]) \<and> BuffSize q = N"
    using AppendUserPacket_fix [of "pkt ?bt" "batch_subs ?bt" "userID msg" "data msg"] ok
    unfolding fits'_def s_def batch_ok_def by auto
  have imp: "fits' \<Longrightarrow> fits" by (simp add: fits'_def fits_def sub_fits_def s_def)
  have "\<not> (heapItem ?bt = None \<and> Wp (pkt ?bt) > HeaderSize)" using ok by (auto simp: batch_ok_def)
  then have ab: "add_to_batch cfg N now msg w = (if fits' then Inr (schedule cfg now (set_batch w1 b (?bt\<lparr>pkt := q\<rparr>)) b)
      else bindr (AppendUserPacket (pkt (new_batch N msg now)) (userID msg) (data msg)) (\<lambda>(q, ok).
        Inr (schedule cfg now (w1\<lparr>bstore := bstore w1 @ [(new_batch N msg now)\<lparr>pkt := q\<rparr>],
          batches := gm_set (batches w1) k (gm_list (batches w1) k @ [length (bstore w1)])\<rparr>) (length (bstore w1)))))"
    using f(1) q(1) by (auto simp: add_to_batch_def append_batch_def Let_def bindr_def k_def split: sum.splits)
  show ?thesis
  proof (cases fits')
    case False
    then show ?thesis unfolding ab using another f(4,5) due by (auto simp: Let_def)
  next
    case True
    have ne: "Data s \<noteq> []" using d by (simp add: s_def)
    show ?thesis
    proof (cases "heapItem ?bt")
      case None
      then have "batch_subs ?bt = []" using ok by (simp add: batch_ok_def batch_subs_def parse_subs_short)
      then have "packet_rep q [s]" "BuffSize q = N" using q(2) True by auto
      note act = activate [OF f(3,2) None this _ N(2), of cfg now]
      have "\<forall>x \<in> set (heap w1). x < length (items w1)" using f(3) by (auto simp: worker_inv_def links_ok_def)
      then show ?thesis unfolding ab using True imp act ne f(4,5) due due_by_new [OF act(5,6), of d] by auto
    next
      case (Some x)
      let ?w' = "set_batch w1 b (?bt\<lparr>pkt := q\<rparr>)"
      have "bstore ?w' ! b = ?bt\<lparr>pkt := q\<rparr>" using keys_ok_list(1) [OF wi(1) f(2)] by (simp add: set_batch_def)
      then have "schedule cfg now ?w' b = ?w'" using Some by (simp add: schedule_def)
      moreover have "due_by d ?w' = due_by d w" "sent ?w' = sent w" using due f(5) by (simp_all add: due_by_def set_batch_def)
      ultimately show ?thesis unfolding ab
        using True imp extend [OF f(3,2) Some _ _ ne N(2), of q] q(2) f(4) by simp
    qed
  qed
qed

subsection \<open>Messages sent at once\<close>

lemma SetHopIP_simps [simp]:
  "Wp (SetHopIP q i ip) = Wp q" "Port (SetHopIP q i ip) = Port q" "Protocol (SetHopIP q i ip) = Protocol q"
  "HopPos (SetHopIP q i ip) = HopPos q" "length (HopIP (SetHopIP q i ip)) = length (HopIP q)"
  by (simp_all add: SetHopIP_def Let_def)

lemma set_hops_HopIP:
  assumes "length (HopIP q) = 4" "\<And>j. i \<le> j \<Longrightarrow> j < 4 \<Longrightarrow> HopIP q ! j = 0"
  shows "HopIP (set_hops q (int i) hs) = take 4 (take i (HopIP q) @ map hop_word hs @ replicate 4 0)"
  using assms
proof (induction hs arbitrary: q i)
  case Nil
  have "HopIP q = take i (HopIP q) @ replicate (4 - i) 0"
  proof (rule nth_equalityI)
    fix j
    assume "j < length (HopIP q)"
    then show "HopIP q ! j = (take i (HopIP q) @ replicate (4 - i) 0) ! j"
      using Nil by (cases "j < i") (auto simp: nth_append)
  qed (use Nil in simp)
  then show ?case using Nil by (cases "i \<le> 4") (simp_all add: min_def)
next
  case (Cons h hs)
  let ?q = "SetHopIP q (int i) (HopIPToNet h)"
  show ?case
  proof (cases "i < 4")
    case True
    have ip: "HopIP ?q = (HopIP q)[i := hop_word h]"
      using True Cons.prems list_update_id [of "HopIP q" i] by (simp add: SetHopIP_def MaxHops_def hop_word_def Let_def)
    have "HopIP (set_hops ?q (int (Suc i)) hs) = take 4 (take (Suc i) (HopIP ?q) @ map hop_word hs @ replicate 4 0)"
      using Cons.prems ip by (intro Cons.IH) auto
    moreover have "take (Suc i) (HopIP ?q) = take i (HopIP q) @ [hop_word h]"
      using True Cons.prems by (simp add: ip take_Suc_conv_app_nth)
    ultimately show ?thesis by (simp add: add.commute)
  next
    case False
    then have "?q = q" by (simp add: SetHopIP_def MaxHops_def)
    then have "HopIP (set_hops q (int (Suc i)) hs) = take 4 (take (Suc i) (HopIP q) @ map hop_word hs @ replicate 4 0)"
      using Cons.prems by (intro Cons.IH) auto
    then show ?thesis using False Cons.prems \<open>?q = q\<close> by (simp add: add.commute)
  qed
qed

lemma set_hops_simps [simp]:
  "Wp (set_hops q i hs) = Wp q" "Port (set_hops q i hs) = Port q" "Protocol (set_hops q i hs) = Protocol q"
  "HopPos (set_hops q i hs) = HopPos q"
  by (induction q i hs rule: set_hops.induct) auto

lemma msg_packet_header:
  "HopPos (msg_packet n msg) = 1" "HopIP (msg_packet n msg) = hop_words (Hops (routingInfo msg))"
  "Port (msg_packet n msg) = port msg" "Protocol (msg_packet n msg) = (if protocol msg = ''tcp'' then 6 else 17)"
proof -
  have z: "HopIP (NewPacket n) ! j = 0" if "j < 4" for j
    using that by (auto simp: NewPacket_def numeral_eq_Suc less_Suc_eq)
  have "HopIP (set_hops (NewPacket n) (int 0) (Hops (routingInfo msg))) = hop_words (Hops (routingInfo msg))"
    using z by (subst set_hops_HopIP) (auto simp: NewPacket_def hop_words_def)
  then show "HopIP (msg_packet n msg) = hop_words (Hops (routingInfo msg))"
    by (simp add: msg_packet_def SetHopPos_def SetProtocol_def SetPort_def)
qed (simp_all add: msg_packet_def SetHopPos_def SetProtocol_def SetPort_def MaxHops_def)

lemma emerge_correct:
  assumes n: "HeaderSize \<le> n" and d: "data msg \<noteq> []" "6 + length (data msg) < 2 ^ 16"
  defines "s \<equiv> \<lparr>UserID = userID msg, Data = data msg\<rparr>"
  shows "(HeaderSize + 6 + length (data msg) \<le> n \<longrightarrow>
       (\<exists>buf. emerge_send n msg w = Inr (w\<lparr>sent := sent w @ [\<lparr>si_p = buf, rkey = routingKey msg, next_ip = nextHop msg\<rparr>]\<rparr>)
          \<and> carries msg [s] buf))
    \<and> (\<not> HeaderSize + 6 + length (data msg) \<le> n \<longrightarrow> emerge_send n msg w = Inr w)"
proof -
  let ?m = "msg_packet n msg" and ?f = "HeaderSize + 6 + length (data msg) \<le> n"
  note rep = msg_packet_rep [OF n, of msg]
  have f: "sub_fits (BuffSize ?m) [] s = ?f" by (simp add: sub_fits_def rep(2) s_def add.assoc)
  obtain q where q: "AppendUserPacket ?m (userID msg) (data msg) = Inr (q, ?f)" "packet_rep q (if ?f then [s] else [])"
    "HopPos q = 1" "HopIP q = hop_words (Hops (routingInfo msg))" "Port q = port msg"
    "Protocol q = (if protocol msg = ''tcp'' then 6 else 17)"
    using AppendUserPacket_rep [OF rep(1), of "userID msg" "data msg", folded s_def, unfolded f append_Nil] msg_packet_header [of n msg] by auto
  show ?thesis
  proof (cases ?f)
    case True
    then have qs: "packet_rep q [s]" using q(2) by simp
    have wp: "Wp q = HeaderSize + 6 + length (data msg)" using packet_rep_length [OF qs] by (simp add: s_def)
    have dl: "drop_last_empty [s] = [s]" using d by (simp add: drop_last_empty_def s_def)
    obtain q' r where r: "SerializeHead q = Inr q'" "TotalBytes q' = Wp q" "Wp q \<le> length (Buf q')"
      "Parse (take (Wp q) (Buf q')) (Wp q) = Inr (r, [s])" "HopPos r = HopPos q" "HopIP r = HopIP q" "Port r = Port q"
      "Protocol r = Protocol q"
      using Parse_serialized [OF qs, of "Wp q"] wp d dl by auto
    moreover from this have "Buf q' \<noteq> []" using wp by (auto simp: HeaderSize_def)
    ultimately have "emerge_send n msg w = Inr (w\<lparr>sent := sent w @ [\<lparr>si_p = take (Wp q) (Buf q'), rkey = routingKey msg, next_ip = nextHop msg\<rparr>]\<rparr>)"
      using q(1) True wp by (simp add: emerge_send_def slice_to_def flush_def HeaderSize_def)
    moreover have "carries msg [s] (take (Wp q) (Buf q'))" using r q by (auto simp: carries_def)
    ultimately show ?thesis using True by blast
  next
    case False
    then show ?thesis using q(1) by (simp add: emerge_send_def)
  qed
qed

end
