(* ===== verification/Agg_Flush.thy ===== *)
theory Agg_Flush
  imports Agg_Invariant
begin

text \<open>
  Sending: the timeout scan and the eviction of stale routing keys of an aggregator worker
  (\<^verbatim>\<open>checkTimeout\<close> and \<^verbatim>\<open>evictStaleBatches\<close> of \<^verbatim>\<open>src/data-proxy/aggregator/aggregator.go\<close>), and runs
  of a worker as sequences of handler calls.
\<close>

section \<open>Definitions\<close>

text \<open>The handler calls of one worker, each with the time it reads.\<close>

datatype agg_event = Msg aggregatorMsg | Tick | Evict

fun agg_step :: "AggConfig \<Rightarrow> int \<Rightarrow> agg_event \<Rightarrow> worker \<Rightarrow> worker result" where
  "agg_step cfg now (Msg m) w = handleMsg cfg now m w"
| "agg_step cfg now Tick w = checkTimeout now w"
| "agg_step cfg now Evict w = evictStaleBatches now w"

fun agg_run :: "AggConfig \<Rightarrow> worker \<Rightarrow> (int \<times> agg_event) list \<Rightarrow> worker result" where
  "agg_run cfg w [] = Inr w"
| "agg_run cfg w ((t, e) # es) = bindr (agg_step cfg t e w) (\<lambda>w'. agg_run cfg w' es)"

text \<open>Messages that fit an empty batch packet, the sub-packet of a message, and traces without eviction.\<close>

definition msg_ok :: "AggConfig \<Rightarrow> aggregatorMsg \<Rightarrow> bool" where
  "msg_ok cfg m = (data m \<noteq> [] \<and> HeaderSize + 6 + length (data m) \<le> BufferSize cfg)"

definition msg_sub :: "aggregatorMsg \<Rightarrow> string \<times> SubPacket" where
  "msg_sub m = (routingKey m, \<lparr>UserID = userID m, Data = data m\<rparr>)"

definition trace_ok :: "AggConfig \<Rightarrow> (int \<times> agg_event) list \<Rightarrow> bool" where
  "trace_ok cfg evs = (\<forall>(t, e) \<in> set evs. case e of Msg m \<Rightarrow> msg_ok cfg m | Tick \<Rightarrow> True | Evict \<Rightarrow> False)"

definition trace_msgs :: "(int \<times> agg_event) list \<Rightarrow> aggregatorMsg list" where
  "trace_msgs evs = concat (map (\<lambda>(t, e). case e of Msg m \<Rightarrow> [m] | _ \<Rightarrow> []) evs)"

definition stale :: "int \<Rightarrow> worker \<Rightarrow> nat list \<Rightarrow> bool" where
  "stale now w l = list_ex (\<lambda>b. now - createTime (bstore w ! b) > batchMaxAge) l"

text \<open>A sample configuration and message.\<close>

definition ex_cfg :: AggConfig where
  "ex_cfg = \<lparr>BufferSize = 1400, BatchTimeoutMs = 50, BatchNumMap = []\<rparr>"

definition ex_msg :: aggregatorMsg where
  "ex_msg = \<lparr>emerge = False, routingKey = ''k'', protocol = ''tcp'', port = 80,
     routingInfo = \<lparr>Hops = [''1.1.1.1'', ''2.2.2.2'', ''3.3.3.3''], Rtt = 0, RawRTT = 0\<rparr>, nextHop = [2, 2, 2, 2],
     userID = 7, data = replicate 200 1\<rparr>"

section \<open>The timeout scan\<close>

lemma mset_addD:
  assumes "mset xs = add_mset x (mset ys)"
  shows "x \<in> set xs" "length xs = Suc (length ys)" "set xs = insert x (set ys)"
proof -
  show "length xs = Suc (length ys)" using arg_cong [OF assms, of size] by simp
  show "set xs = insert x (set ys)" using arg_cong [OF assms, of set_mset] by simp
  then show "x \<in> set xs" by simp
qed

lemma heap_ok_iff: "mh.heap_ok F h \<longleftrightarrow> mh_inv F h \<and> heap_ord snd (mh_elems h) (length (fst h))"
  unfolding mh.heap_ok_def MinHeap_Len_def ..

lemma heap_ok_frame_eq: "mh.heap_ok F h \<Longrightarrow> frame (snd h) = F"
  unfolding heap_ok_iff mh_inv_def by (elim conjE)

lemma heap_ok_root:
  assumes "mh.heap_ok F h" "x \<in> set (fst h)"
  shows "deadline (snd h ! (fst h ! 0)) \<le> deadline (snd h ! x)"
proof -
  obtain i where i: "i < length (fst h)" "x = fst h ! i" using assms(2) by (auto simp: in_set_conv_nth)
  have "snd (mh_elems h ! 0) \<le> snd (mh_elems h ! i)"
    using heap_ord_min [of snd "mh_elems h" "MinHeap_Len h" i] assms(1) i by (simp add: mh.heap_ok_def MinHeap_Len_def)
  moreover have "0 < length (fst h)" using i by linarith
  ultimately show ?thesis using i by simp
qed

lemma heap_ok_frame:
  assumes "mh.heap_ok F h" "x \<in> set (fst h)"
  shows "x < length (snd h)" "deadline (snd h ! x) = snd (F ! x)" "frame (snd h) = F"
  using assms by (auto simp: mh.heap_ok_def mh_inv_def frame_nth)

lemma pop_loop_correct:
  assumes "mh.heap_ok F h" "length (fst h) \<le> fuel"
  shows "\<exists>h' ex. pop_loop fuel now h acc = Inr (h', acc @ ex) \<and> mh.heap_ok F h'
    \<and> mset (fst h) = mset (fst h') + mset ex
    \<and> (\<forall>x \<in> set ex. snd (F ! x) \<le> now) \<and> (\<forall>x \<in> set (fst h'). now < snd (F ! x))"
  using assms
proof (induction fuel arbitrary: h acc)
  case 0
  then show ?case by (simp add: pop_loop.simps)
next
  case (Suc fuel)
  show ?case
  proof (cases "MinHeap_Len h > 0")
    case False
    then have "fst h = []" by (simp add: MinHeap_Len_def)
    then show ?thesis using Suc.prems by (simp add: pop_loop.simps [of "Suc fuel"] MinHeap_Len_def)
  next
    case len: True
    show ?thesis
    proof (cases "deadline (snd h ! (fst h ! 0)) > now")
      case True
      have "now < snd (F ! x)" if "x \<in> set (fst h)" for x
        using heap_ok_root [OF Suc.prems(1) that] heap_ok_frame [OF Suc.prems(1) that] True by simp
      then show ?thesis using Suc.prems True len by (simp add: pop_loop.simps [of "Suc fuel"])
    next
      case False
      obtain h1 x where pop: "heap_Pop MinHeap_Len MinHeap_Less MinHeap_Swap MinHeap_Pop h = Inr (h1, x)"
        "mh.heap_ok F h1" "mset (mh_elems h) = add_mset (mh_abs h1 x) (mset (mh_elems h1))"
        "\<forall>e \<in> set (mh_elems h). snd (mh_abs h1 x) \<le> snd e"
        using mh.pop_correct [OF Suc.prems(1) len] by blast
      have m: "mset (fst h) = add_mset x (mset (fst h1))"
        unfolding mset_mh_elems pop(3) by (simp add: mh_abs_def)
      note mx = mset_addD [OF m]
      have "(fst h ! 0, deadline (snd h ! (fst h ! 0))) \<in> set (mh_elems h)"
        using len nth_mem [of 0 "fst h"] by (auto simp: mh_elems_def MinHeap_Len_def)
      from bspec [OF pop(4) this] have dl: "deadline (snd h1 ! x) \<le> now" using False by (simp add: mh_abs_def)
      have fr: "frame (snd h1) = F" "frame (snd h) = F"
        by (rule heap_ok_frame_eq, fact)+
      then have "length (snd h1) = length (snd h)" using frame_nth(2) [of "snd h1"] frame_nth(2) [of "snd h"] by simp
      then have le: "snd (F ! x) \<le> now"
        using frame_nth(1) [of x "snd h1"] heap_ok_frame(1) [OF Suc.prems(1) mx(1)] fr(1) dl by simp
      have "length (fst h1) \<le> fuel" using Suc.prems(2) mx(2) by simp
      then obtain h' ex where r: "pop_loop fuel now h1 (acc @ [x]) = Inr (h', (acc @ [x]) @ ex)" "mh.heap_ok F h'"
        "mset (fst h1) = mset (fst h') + mset ex" "\<forall>x \<in> set ex. snd (F ! x) \<le> now" "\<forall>x \<in> set (fst h'). now < snd (F ! x)"
        using Suc.IH [OF pop(2), of "acc @ [x]"] by blast
      have "pop_loop (Suc fuel) now h acc = Inr (h', acc @ x # ex)"
        using pop(1) False len r(1) by (simp add: pop_loop.simps [of "Suc fuel"])
      moreover have "mset (fst h) = mset (fst h') + mset (x # ex)" unfolding m r(3) by simp
      moreover have "\<forall>y \<in> set (x # ex). snd (F ! y) \<le> now" using r(4) le by simp
      ultimately show ?thesis using r(2,5) by blast
    qed
  qed
qed

text \<open>Rearranging heap and popped items without changing the batches keeps the links.\<close>

lemma relink:
  assumes inv: "worker_inv N E w" and h: "mh.heap_ok (frame its) (h, its)" "frame its = frame (items w)"
    "mset (h @ E') = mset (heap w @ E)"
  defines "w' \<equiv> w\<lparr>heap := h, items := its\<rparr>"
  shows "worker_inv N E' w'" "scheduled E' w' = scheduled E w"
proof -
  have wi: "links_ok E w" "keys_ok E w" "\<forall>bt \<in> set (bstore w). batch_ok N bt" using inv by (simp_all add: worker_inv_def)
  have set: "set (heap w' @ E') = set (heap w @ E)" "distinct (heap w' @ E') = distinct (heap w @ E)"
    using mset_eq_setD [OF h(3)] mset_eq_imp_distinct_iff [OF h(3)] by (simp_all add: w'_def)
  have len: "length its = length (items w)" using frame_nth(2) [of its] frame_nth(2) [of "items w"] h(2) by simp
  have bat: "batch (its ! x) = batch (items w ! x)" if "x \<in> set (heap w @ E)" for x
    using frame_batch [OF h(2), of x] wi(1) that by (auto simp: links_ok_def)
  have of: "bt_of w' x = bt_of w x" if "x \<in> set (heap w @ E)" for x
    using bat [OF that] by (simp add: bt_of_def w'_def)
  have "links_ok E' w'"
    unfolding links_ok_def set using wi(1) len bat of by (auto simp: links_ok_def w'_def)
  moreover have "keys_ok E' w'"
    unfolding keys_ok_def set
  proof (intro conjI allI impI ballI)
    fix k l b x
    assume l: "gm_get (batches w') k = Some l" and b: "b \<in> set l" and x: "heapItem (bstore w' ! b) = Some x"
    have "b \<in> set (gm_list (batches w) k)" using l b by (simp add: w'_def)
    then have *: "x \<in> set (heap w @ E) \<and> batch (items w ! x) = b"
      using keys_ok_list(3) [OF wi(2)] x by (simp add: w'_def)
    show "x \<in> set (heap w @ E)" using * by blast
    show "batch (items w' ! x) = b" using * bat [of x] by (simp add: w'_def)
  qed (use wi(2) in \<open>auto simp: keys_ok_def w'_def\<close>)
  ultimately show "worker_inv N E' w'" using wi(3) h(1) by (simp add: worker_inv_def w'_def)
  have "image_mset (\<lambda>x. bt_load (bt_of w' x)) (mset (heap w @ E)) = image_mset (\<lambda>x. bt_load (bt_of w x)) (mset (heap w @ E))"
    by (rule image_mset_cong) (use of in simp)
  moreover have "heap w' = h" by (simp add: w'_def)
  ultimately show "scheduled E' w' = scheduled E w" unfolding scheduled_def using h(3) by metis
qed

lemma pop_expired_correct:
  assumes inv: "worker_inv N [] w"
  shows "\<exists>w' ex. pop_expired now w = Inr (w', ex) \<and> worker_inv N ex w' \<and> scheduled ex w' = scheduled [] w
    \<and> sent w' = sent w \<and> batches w' = batches w \<and> bstore w' = bstore w \<and> frame (items w') = frame (items w)
    \<and> mset (heap w) = mset (heap w') + mset ex
    \<and> (\<forall>x \<in> set ex. snd (frame (items w) ! x) \<le> now) \<and> (\<forall>x \<in> set (heap w'). now < snd (frame (items w) ! x))"
proof -
  have "mh.heap_ok (frame (items w)) (heap w, items w)" using inv by (simp add: worker_inv_def)
  then obtain h' ex where r: "pop_loop (length (heap w)) now (heap w, items w) [] = Inr (h', ex)"
    "mh.heap_ok (frame (items w)) h'" "mset (heap w) = mset (fst h') + mset ex"
    "\<forall>x \<in> set ex. snd (frame (items w) ! x) \<le> now" "\<forall>x \<in> set (fst h'). now < snd (frame (items w) ! x)"
    using pop_loop_correct [of "frame (items w)" "(heap w, items w)" "length (heap w)" now "[]"] by auto
  have fr: "frame (snd h') = frame (items w)" by (rule heap_ok_frame_eq) (fact r(2))
  have "pop_expired now w = Inr (w\<lparr>heap := fst h', items := snd h'\<rparr>, ex)"
    using r(1) by (simp add: pop_expired_def split_beta)
  moreover have "worker_inv N ex (w\<lparr>heap := fst h', items := snd h'\<rparr>)"
    "scheduled ex (w\<lparr>heap := fst h', items := snd h'\<rparr>) = scheduled [] w"
    using relink [OF inv, of "snd h'" "fst h'" ex] r(2,3) fr by simp_all
  ultimately show ?thesis using r(3-5) fr by simp
qed

text \<open>A popped item leaves when its batch is emptied.\<close>

lemma unlink:
  assumes inv: "links_ok (x # xs) w" "keys_ok (x # xs) w"
    and bt': "RoutingKey bt' = RoutingKey (bt_of w x)" "heapItem bt' = None"
  defines "w' \<equiv> set_batch w (batch (items w ! x)) bt'"
  shows "links_ok xs w'" "keys_ok xs w'" "scheduled (x # xs) w = scheduled xs w' + bt_load (bt_of w x)"
proof -
  let ?b = "batch (items w ! x)"
  have b: "?b < length (bstore w)" "heapItem (bt_of w x) = Some x" using inv(1) by (auto simp: links_ok_def)
  have fld: "heap w' = heap w" "items w' = items w" "batches w' = batches w" "bstore w' = (bstore w)[?b := bt']"
    by (simp_all add: w'_def set_batch_def)
  have other: "bt_of w' y = bt_of w y" "y \<noteq> x" if "y \<in> set (heap w @ xs)" for y
  proof -
    have y: "y \<noteq> x" "heapItem (bt_of w y) = Some y" using inv(1) that by (auto simp: links_ok_def)
    with b(2) have "batch (items w ! y) \<noteq> ?b" by (auto simp: bt_of_def)
    then show "bt_of w' y = bt_of w y" by (simp add: bt_of_def fld)
    show "y \<noteq> x" by (fact y)
  qed
  show "links_ok xs w'" unfolding links_ok_def fld length_list_update using inv(1) other by (auto simp: links_ok_def)
  have "RoutingKey (bstore w' ! c) = k
      \<and> (\<forall>y. heapItem (bstore w' ! c) = Some y \<longrightarrow> y \<in> set (heap w @ xs) \<and> batch (items w ! y) = c)"
    if c: "c \<in> set (gm_list (batches w) k)" for c k
  proof (cases "c = ?b")
    case True
    then show ?thesis using keys_ok_list(2) [OF inv(2) c] b bt' by (simp add: fld bt_of_def)
  next
    case False
    then show ?thesis using keys_ok_list(2,3) [OF inv(2) c] by (auto simp: fld)
  qed
  moreover have "gm_list (batches w) k = l" if "gm_get (batches w) k = Some l" for k l using that by simp
  moreover have "gm_ok (batches w)" "\<And>k l. gm_get (batches w) k = Some l \<Longrightarrow> l \<noteq> [] \<and> distinct l"
    using inv(2) by (auto simp: keys_ok_def)
  ultimately show "keys_ok xs w'"
    unfolding keys_ok_def fld length_list_update using keys_ok_list(1) [OF inv(2)] by metis
  have "scheduled xs w' = scheduled xs w" using other by (intro scheduled_cong) (simp_all add: fld)
  then show "scheduled (x # xs) w = scheduled xs w' + bt_load (bt_of w x)"
    by (simp add: scheduled_def add.commute add.left_commute)
qed

lemma empty_batch_correct:
  assumes inv: "worker_inv N (x # xs) w" and N: "N < HeaderSize + 2 ^ 16"
  shows "\<exists>w' s. empty_batch now w x = Inr (w', s) \<and> worker_inv N xs w'
    \<and> scheduled (x # xs) w = scheduled xs w' + image_mset (Pair (rkey s)) (mset (received s))
    \<and> si_p s \<noteq> [] \<and> heap w' = heap w \<and> items w' = items w \<and> sent w' = sent w"
proof -
  let ?b = "batch (items w ! x)" and ?bt = "bt_of w x"
  have wi: "mh.heap_ok (frame (items w)) (heap w, items w)" "links_ok (x # xs) w" "keys_ok (x # xs) w"
    "\<forall>bt \<in> set (bstore w). batch_ok N bt" using inv by (simp_all add: worker_inv_def)
  have b: "?b < length (bstore w)" "heapItem ?bt = Some x" using wi(2) by (auto simp: links_ok_def)
  have ok: "batch_ok N ?bt" using wi(4) b(1) by (simp add: bt_of_def)
  have rep: "packet_rep (pkt ?bt) (batch_subs ?bt)" using ok b(2) unfolding batch_ok_def by (metis option.distinct(1))
  have wp: "Wp (pkt ?bt) \<le> N" "HeaderSize \<le> Wp (pkt ?bt)" using rep ok by (auto simp: packet_rep_def packet_inv_def batch_ok_def)
  have ne: "drop_last_empty (batch_subs ?bt) = batch_subs ?bt" using ok by (intro drop_last_empty_id) (simp add: batch_ok_def)
  obtain q r where q: "SerializeHead (pkt ?bt) = Inr q" "TotalBytes q = Wp (pkt ?bt)" "Wp (pkt ?bt) \<le> length (Buf q)"
    "packet_rep q (batch_subs ?bt)" "BuffSize q = N"
    "Parse (take (Wp (pkt ?bt)) (Buf q)) (Wp (pkt ?bt)) = Inr (r, batch_subs ?bt)"
    using Parse_serialized [OF rep, of "Wp (pkt ?bt)"] wp N ne ok by (auto simp: batch_ok_def)
  let ?buf = "take (Wp (pkt ?bt)) (Buf q)"
  let ?bt' = "?bt\<lparr>pkt := q\<lparr>Wp := HeaderSize\<rparr>, createTime := now, heapItem := None\<rparr>"
  let ?s = "\<lparr>si_p = ?buf, rkey = RoutingKey ?bt, next_ip = NextHop ?bt\<rparr>"
  let ?w' = "set_batch w ?b ?bt'"
  have "go_copy (replicate (Wp (pkt ?bt)) 0) ?buf = ?buf" using q(3) by (simp add: go_copy_def)
  then have eb: "empty_batch now w x = Inr (?w', ?s)"
    using q(1-3) by (simp add: empty_batch_def Let_def slice_to_def bt_of_def)
  have "batch_ok N ?bt'"
  proof -
    have "batch_subs ?bt' = []" by (simp add: batch_subs_def parse_subs_short)
    moreover have "packet_rep (fix_len (q\<lparr>Wp := HeaderSize\<rparr>)) []"
      using q(4) wp by (auto simp: packet_rep_def packet_inv_def fix_len_def)
    ultimately show ?thesis using q(5) by (simp add: batch_ok_def)
  qed
  then have "\<forall>bt \<in> set (bstore ?w'). batch_ok N bt"
    unfolding set_batch_def using wi(4) set_update_subset_insert [of "bstore w" ?b ?bt'] by auto
  moreover have u: "links_ok xs ?w'" "keys_ok xs ?w'" "scheduled (x # xs) w = scheduled xs ?w' + bt_load ?bt"
    using unlink [OF wi(2,3), of ?bt'] by simp_all
  ultimately have "worker_inv N xs ?w'" using wi(1) by (simp add: worker_inv_def set_batch_def)
  moreover have "received ?s = batch_subs ?bt" using q(3,6) by (simp add: received_def)
  moreover have "?buf \<noteq> []" using q(3) wp(2) by (auto simp: HeaderSize_def)
  ultimately show ?thesis using eb u(3) by (simp add: bt_load_def set_batch_def)
qed

lemma delivered_simps [simp]:
  "delivered [] = {#}" "delivered (s # ss) = image_mset (Pair (rkey s)) (mset (received s)) + delivered ss"
  "delivered (xs @ ys) = delivered xs + delivered ys"
  by (simp_all add: delivered_def)

lemma empty_batches_correct:
  assumes "worker_inv N ex w" "N < HeaderSize + 2 ^ 16"
  shows "\<exists>w' ss. empty_batches now w ex = Inr (w', ss) \<and> worker_inv N [] w'
    \<and> scheduled ex w = scheduled [] w' + delivered ss \<and> (\<forall>s \<in> set ss. si_p s \<noteq> [])
    \<and> heap w' = heap w \<and> items w' = items w \<and> sent w' = sent w"
  using assms(1)
proof (induction ex arbitrary: w)
  case Nil
  then show ?case by simp
next
  case (Cons x xs)
  obtain w1 s where 1: "empty_batch now w x = Inr (w1, s)" "worker_inv N xs w1"
    "scheduled (x # xs) w = scheduled xs w1 + image_mset (Pair (rkey s)) (mset (received s))"
    "si_p s \<noteq> []" "heap w1 = heap w" "items w1 = items w" "sent w1 = sent w"
    using empty_batch_correct [OF Cons.prems assms(2), of now] by blast
  obtain w' ss where 2: "empty_batches now w1 xs = Inr (w', ss)" "worker_inv N [] w'"
    "scheduled xs w1 = scheduled [] w' + delivered ss" "\<forall>s \<in> set ss. si_p s \<noteq> []"
    "heap w' = heap w1" "items w' = items w1" "sent w' = sent w1"
    using Cons.IH [OF 1(2)] by blast
  have "empty_batches now w (x # xs) = Inr (w', s # ss)" using 1(1) 2(1) by simp
  moreover have "scheduled (x # xs) w = scheduled [] w' + delivered (s # ss)" using 1(3) 2(3) by (simp add: add.commute)
  moreover have "\<forall>t \<in> set (s # ss). si_p t \<noteq> []" using 1(4) 2(4) by simp
  ultimately show ?case using 1(5-7) 2(2,5-7) by simp
qed

lemma foldl_flush:
  "\<forall>s \<in> set ss. si_p s \<noteq> [] \<Longrightarrow> foldl flush w ss = w\<lparr>sent := sent w @ ss\<rparr>"
  by (induction ss arbitrary: w) (simp_all add: flush_def)

lemma worker_inv_sent [simp]: "worker_inv N E (w\<lparr>sent := x\<rparr>) = worker_inv N E w"
  "scheduled E (w\<lparr>sent := x\<rparr>) = scheduled E w"
  by (simp_all add: worker_inv_def links_ok_def keys_ok_def bt_of_def scheduled_def)

lemma checkTimeout_correct:
  assumes inv: "worker_inv N [] w" and N: "N < HeaderSize + 2 ^ 16"
  shows "\<exists>w' ss. checkTimeout now w = Inr w' \<and> worker_inv N [] w' \<and> sent w' = sent w @ ss
    \<and> scheduled [] w = scheduled [] w' + delivered ss
    \<and> set (heap w') = {x \<in> set (heap w). now < deadline (items w ! x)} \<and> frame (items w') = frame (items w)"
proof -
  obtain w1 ex where 1: "pop_expired now w = Inr (w1, ex)" "worker_inv N ex w1" "scheduled ex w1 = scheduled [] w"
    "sent w1 = sent w" "frame (items w1) = frame (items w)" "mset (heap w) = mset (heap w1) + mset ex"
    "\<forall>x \<in> set ex. snd (frame (items w) ! x) \<le> now" "\<forall>x \<in> set (heap w1). now < snd (frame (items w) ! x)"
    using pop_expired_correct [OF inv, of now] by blast
  obtain w2 ss where 2: "empty_batches now w1 ex = Inr (w2, ss)" "worker_inv N [] w2"
    "scheduled ex w1 = scheduled [] w2 + delivered ss" "\<forall>s \<in> set ss. si_p s \<noteq> []"
    "heap w2 = heap w1" "items w2 = items w1" "sent w2 = sent w1"
    using empty_batches_correct [OF 1(2) N, of now] by blast
  have ct: "checkTimeout now w = Inr (w2\<lparr>sent := sent w @ ss\<rparr>)"
    using 1(1,4) 2(1,4,7) by (simp add: checkTimeout_def flush_expired_def foldl_flush)
  have dl: "snd (frame (items w) ! x) = deadline (items w ! x)" if "x \<in> set (heap w)" for x
    using inv that by (auto simp: worker_inv_def links_ok_def frame_nth)
  have "set (heap w) = set (heap w1) \<union> set ex" using arg_cong [OF 1(6), of set_mset] by simp
  then have "set (heap w2) = {x \<in> set (heap w). now < deadline (items w ! x)}"
    using 1(7,8) 2(5) dl by auto
  with ct 1 2 show ?thesis by auto
qed

section \<open>Eviction\<close>

lemma remove_item:
  assumes "mh.heap_ok F (h, its)" "x \<in> set h"
  shows "\<exists>h' its'. heap_Remove MinHeap_Len MinHeap_Less MinHeap_Swap MinHeap_Pop (h, its) (index (its ! x)) = Inr ((h', its'), x)
    \<and> mh.heap_ok F (h', its') \<and> mset h' = filter_mset (\<lambda>y. y \<noteq> x) (mset h)"
proof -
  obtain i where i: "i < length h" "x = h ! i" using assms(2) by (auto simp: in_set_conv_nth)
  have inv: "distinct h" "\<forall>i < length h. index (its ! (h ! i)) = int i"
    using assms(1) unfolding heap_ok_iff mh_inv_def by auto
  then have idx: "index (its ! x) = int i" using i by simp
  obtain h' y where r: "heap_Remove MinHeap_Len MinHeap_Less MinHeap_Swap MinHeap_Pop (h, its) (int i) = Inr (h', y)"
    "mh.heap_ok F h'" "mh_abs h' y = mh_elems (h, its) ! i" "mset (mh_elems (h, its)) = add_mset (mh_abs h' y) (mset (mh_elems h'))"
    using mh.remove_correct [OF assms(1), of "int i"] i by (auto simp: MinHeap_Len_def)
  have y: "y = x" using r(3) i by (simp add: mh_abs_def)
  have m: "mset h = add_mset x (mset (fst h'))"
    using arg_cong [OF r(4), of "image_mset fst"] mset_mh_elems [of "(h, its)"] mset_mh_elems [of h']
    by (simp add: mh_abs_def y)
  then have "distinct (x # fst h')" using inv(1) by (metis mset.simps(2) mset_eq_imp_distinct_iff)
  then have "mset (fst h') = filter_mset (\<lambda>y. y \<noteq> x) (mset h)"
    unfolding m by (auto intro!: filter_mset_eq_conv [THEN iffD2, symmetric])
  then show ?thesis using r(1,2) y idx by (cases h') auto
qed

lemma remove_items_correct:
  assumes "mh.heap_ok F (heap w, items w)" "distinct bs"
    "\<And>b x. b \<in> set bs \<Longrightarrow> heapItem (bstore w ! b) = Some x \<Longrightarrow> x \<in> set (heap w)"
    "\<And>b c x. b \<in> set bs \<Longrightarrow> c \<in> set bs \<Longrightarrow> heapItem (bstore w ! b) = Some x \<Longrightarrow> heapItem (bstore w ! c) = Some x \<Longrightarrow> b = c"
  shows "\<exists>h its. remove_items w bs = Inr (w\<lparr>heap := h, items := its\<rparr>) \<and> mh.heap_ok F (h, its)
    \<and> mset h = filter_mset (\<lambda>x. \<forall>b \<in> set bs. heapItem (bstore w ! b) \<noteq> Some x) (mset (heap w))"
  using assms
proof (induction bs arbitrary: w)
  case Nil
  then show ?case by (auto intro!: exI [of _ "heap w"] exI [of _ "items w"])
next
  case (Cons b bs)
  show ?case
  proof (cases "heapItem (bstore w ! b)")
    case None
    have "\<exists>h its. remove_items w bs = Inr (w\<lparr>heap := h, items := its\<rparr>) \<and> mh.heap_ok F (h, its)
        \<and> mset h = filter_mset (\<lambda>x. \<forall>b \<in> set bs. heapItem (bstore w ! b) \<noteq> Some x) (mset (heap w))"
      using Cons.prems by (intro Cons.IH) auto
    then show ?thesis using None by simp
  next
    case (Some x)
    have "x \<in> set (heap w)" using Cons.prems(3) [of b x] Some by simp
    from remove_item [OF Cons.prems(1) this] obtain h its where
      r: "heap_Remove MinHeap_Len MinHeap_Less MinHeap_Swap MinHeap_Pop (heap w, items w) (index (items w ! x)) = Inr ((h, its), x)"
        "mh.heap_ok F (h, its)" "mset h = filter_mset (\<lambda>y. y \<noteq> x) (mset (heap w))" by blast
    let ?w = "w\<lparr>heap := h, items := its\<rparr>"
    have hs: "set h = set (heap w) - {x}" using arg_cong [OF r(3), of set_mset] by auto
    have "\<exists>h its. remove_items ?w bs = Inr (?w\<lparr>heap := h, items := its\<rparr>) \<and> mh.heap_ok F (h, its)
        \<and> mset h = filter_mset (\<lambda>x. \<forall>b \<in> set bs. heapItem (bstore ?w ! b) \<noteq> Some x) (mset (heap ?w))"
    proof (rule Cons.IH)
      show "y \<in> set (heap ?w)" if "c \<in> set bs" "heapItem (bstore ?w ! c) = Some y" for c y
        using Cons.prems(2) Cons.prems(3) [of c y] Cons.prems(4) [of b c x] that Some hs by auto
    qed (use Cons.prems(2,4) r(2) in auto)
    then obtain h' its' where "remove_items ?w bs = Inr (w\<lparr>heap := h', items := its'\<rparr>)" "mh.heap_ok F (h', its')"
      "mset h' = filter_mset (\<lambda>x. \<forall>b \<in> set bs. heapItem (bstore w ! b) \<noteq> Some x) (mset h)" by auto
    then show ?thesis using Some r(1,3)
      by (auto simp: filter_filter_mset conj_commute intro!: exI [of _ h'] exI [of _ its'] filter_mset_cong)
  qed
qed

lemma filter_loads:
  "(\<Sum>x\<in>#filter_mset (\<lambda>x. RoutingKey (f x) \<noteq> k) M. bt_load (f x)) = filter_mset (\<lambda>e. fst e \<noteq> k) (\<Sum>x\<in>#M. bt_load (f x))"
  by (induction M) (auto simp: bt_load_def filter_mset_image_mset)

lemma drop_key:
  assumes inv: "links_ok [] w" "keys_ok [] w" and fr: "frame its = frame (items w)"
    and m: "mset h = filter_mset (\<lambda>x. RoutingKey (bt_of w x) \<noteq> k) (mset (heap w))"
  defines "w' \<equiv> w\<lparr>heap := h, items := its, batches := gm_del (batches w) k\<rparr>"
  shows "links_ok [] w'" "keys_ok [] w'" "scheduled [] w' = filter_mset (\<lambda>e. fst e \<noteq> k) (scheduled [] w)"
proof -
  have fld: "heap w' = h" "items w' = its" "batches w' = gm_del (batches w) k" "bstore w' = bstore w"
    by (simp_all add: w'_def)
  have hs: "set h = {x \<in> set (heap w). RoutingKey (bt_of w x) \<noteq> k}" using arg_cong [OF m, of set_mset] by auto
  have len: "length its = length (items w)" using frame_nth(2) [of its] frame_nth(2) [of "items w"] fr by simp
  have bat: "batch (its ! x) = batch (items w ! x)" "bt_of w' x = bt_of w x" if "x \<in> set (heap w)" for x
    using frame_batch [OF fr, of x] inv(1) that by (auto simp: links_ok_def bt_of_def fld)
  have gl: "gm_list (gm_del (batches w) k) k' = gm_list (batches w) k'" if "k' \<noteq> k" for k'
    using that by (simp add: gm_list_def delete_conv')
  have "distinct h" using inv(1) m by (metis append_Nil2 distinct_filter links_ok_def mset_eq_imp_distinct_iff mset_filter)
  then show "links_ok [] w'" unfolding links_ok_def fld using inv(1) hs len bat gl by (auto simp: links_ok_def)
  show "keys_ok [] w'"
    unfolding keys_ok_def fld
  proof (intro conjI allI impI ballI)
    fix k' l b x
    assume l: "gm_get (gm_del (batches w) k) k' = Some l" and b: "b \<in> set l" and x: "heapItem (bstore w ! b) = Some x"
    have k': "k' \<noteq> k" "gm_get (batches w) k' = Some l" using l by (auto simp: delete_conv' split: if_splits)
    then have "b \<in> set (gm_list (batches w) k')" using b by simp
    from keys_ok_list [OF inv(2) this] x have *: "x \<in> set (heap w)" "batch (items w ! x) = b" "RoutingKey (bstore w ! b) = k'" by auto
    then show "x \<in> set (h @ [])" "batch (its ! x) = b" using hs k'(1) bat(1) [of x] by (auto simp: bt_of_def)
  qed (use inv(2) in \<open>auto simp: keys_ok_def distinct_delete delete_conv' split: if_splits\<close>)
  have "image_mset (\<lambda>x. bt_load (bt_of w' x)) (mset h) = image_mset (\<lambda>x. bt_load (bt_of w x)) (mset h)"
    by (rule image_mset_cong) (use bat hs in auto)
  then have "scheduled [] w' = (\<Sum>x\<in>#filter_mset (\<lambda>x. RoutingKey (bt_of w x) \<noteq> k) (mset (heap w)). bt_load (bt_of w x))"
    by (simp add: scheduled_def fld m)
  also have "\<dots> = filter_mset (\<lambda>e. fst e \<noteq> k) (\<Sum>x\<in>#mset (heap w). bt_load (bt_of w x))"
    by (rule filter_loads)
  finally show "scheduled [] w' = filter_mset (\<lambda>e. fst e \<noteq> k) (scheduled [] w)" by (simp add: scheduled_def)
qed

lemma evict_key_correct:
  assumes inv: "worker_inv N [] w" and kl: "gm_get (batches w) k = Some l" and st: "stale now w l"
  shows "\<exists>w'. evict_key now w (k, l) = Inr w' \<and> worker_inv N [] w' \<and> batches w' = gm_del (batches w) k
    \<and> bstore w' = bstore w \<and> sent w' = sent w
    \<and> scheduled [] w' = filter_mset (\<lambda>e. fst e \<noteq> k) (scheduled [] w)"
proof -
  have wi: "mh.heap_ok (frame (items w)) (heap w, items w)" "links_ok [] w" "keys_ok [] w"
    "\<forall>bt \<in> set (bstore w). batch_ok N bt" using inv by (simp_all add: worker_inv_def)
  have l: "gm_list (batches w) k = l" "distinct l" using kl wi(3) by (auto simp: keys_ok_def)
  note kb = keys_ok_list [OF wi(3), of _ k, unfolded l(1) append_Nil2]
  obtain h its where r: "remove_items w l = Inr (w\<lparr>heap := h, items := its\<rparr>)" "mh.heap_ok (frame (items w)) (h, its)"
    "mset h = filter_mset (\<lambda>x. \<forall>b \<in> set l. heapItem (bstore w ! b) \<noteq> Some x) (mset (heap w))"
    using remove_items_correct [OF wi(1) l(2)] kb by blast
  have fr: "frame its = frame (items w)" using heap_ok_frame_eq [OF r(2)] by simp
  let ?w = "w\<lparr>heap := h, items := its, batches := gm_del (batches w) k\<rparr>"
  have key: "(\<forall>b \<in> set l. heapItem (bstore w ! b) \<noteq> Some x) \<longleftrightarrow> RoutingKey (bt_of w x) \<noteq> k" if "x \<in> set (heap w)" for x
    using wi(2) that kb l(1) by (auto simp: links_ok_def bt_of_def)
  have m: "mset h = filter_mset (\<lambda>x. RoutingKey (bt_of w x) \<noteq> k) (mset (heap w))"
    unfolding r(3) by (rule filter_mset_cong) (use key in auto)
  have "evict_key now w (k, l) = Inr ?w" using r(1) st by (simp add: evict_key_def stale_def)
  moreover have "worker_inv N [] ?w" "scheduled [] ?w = filter_mset (\<lambda>e. fst e \<noteq> k) (scheduled [] w)"
    using drop_key [OF wi(2,3) fr m] wi(4) r(2) fr by (simp_all add: worker_inv_def)
  ultimately show ?thesis by simp
qed

lemma evict_key_fresh: "\<not> stale now w l \<Longrightarrow> evict_key now w (k, l) = Inr w"
  by (simp add: evict_key_def stale_def)

lemma evict_keys_correct:
  assumes "worker_inv N [] w" "distinct (map fst kvs)" "\<And>k l. (k, l) \<in> set kvs \<Longrightarrow> gm_get (batches w) k = Some l"
  shows "\<exists>w'. evict_keys now w kvs = Inr w' \<and> worker_inv N [] w' \<and> sent w' = sent w \<and> bstore w' = bstore w
    \<and> batches w' = filter (\<lambda>(k, l). \<not> (\<exists>l'. (k, l') \<in> set kvs \<and> stale now w l')) (batches w)
    \<and> scheduled [] w' = filter_mset (\<lambda>e. \<not> (\<exists>l. (fst e, l) \<in> set kvs \<and> stale now w l)) (scheduled [] w)"
  using assms
proof (induction kvs arbitrary: w)
  case Nil
  then show ?case by simp
next
  case (Cons kv kvs)
  obtain k l where kv: "kv = (k, l)" by (cases kv)
  have kl: "gm_get (batches w) k = Some l" using Cons.prems(3) kv by simp
  have notin: "k \<notin> fst ` set kvs" using Cons.prems(2) kv by simp
  show ?case
  proof (cases "stale now w l")
    case False
    have "\<exists>w'. evict_keys now w kvs = Inr w' \<and> worker_inv N [] w' \<and> sent w' = sent w \<and> bstore w' = bstore w
        \<and> batches w' = filter (\<lambda>(k, l). \<not> (\<exists>l'. (k, l') \<in> set kvs \<and> stale now w l')) (batches w)
        \<and> scheduled [] w' = filter_mset (\<lambda>e. \<not> (\<exists>l. (fst e, l) \<in> set kvs \<and> stale now w l)) (scheduled [] w)"
      using Cons.prems by (intro Cons.IH) auto
    moreover have "(\<exists>l'. (k', l') \<in> set (kv # kvs) \<and> stale now w l') \<longleftrightarrow> (\<exists>l'. (k', l') \<in> set kvs \<and> stale now w l')" for k'
      using False kv by auto
    ultimately show ?thesis using False kv by (simp add: evict_key_fresh)
  next
    case True
    obtain w1 where 1: "evict_key now w (k, l) = Inr w1" "worker_inv N [] w1" "batches w1 = gm_del (batches w) k"
      "bstore w1 = bstore w" "sent w1 = sent w" "scheduled [] w1 = filter_mset (\<lambda>e. fst e \<noteq> k) (scheduled [] w)"
      using evict_key_correct [OF Cons.prems(1) kl True] by blast
    have st: "stale now w1 = stale now w" by (simp add: stale_def 1(4) fun_eq_iff)
    have get: "gm_get (batches w1) k' = Some l'" if "(k', l') \<in> set kvs" for k' l'
    proof -
      have "k' \<noteq> k" using that notin by force
      then show ?thesis using Cons.prems(3) [of k' l'] that by (simp add: 1(3) delete_conv')
    qed
    have "distinct (map fst kvs)" using Cons.prems(2) by simp
    from Cons.IH [OF 1(2) this get] obtain w' where 2: "evict_keys now w1 kvs = Inr w'" "worker_inv N [] w'"
      "sent w' = sent w1" "bstore w' = bstore w1"
      "batches w' = filter (\<lambda>(k, l). \<not> (\<exists>l'. (k, l') \<in> set kvs \<and> stale now w l')) (batches w1)"
      "scheduled [] w' = filter_mset (\<lambda>e. \<not> (\<exists>l. (fst e, l) \<in> set kvs \<and> stale now w l)) (scheduled [] w1)"
      unfolding st by blast
    have ex: "(\<exists>l'. (k', l') \<in> set (kv # kvs) \<and> stale now w l') \<longleftrightarrow> k' = k \<or> (\<exists>l'. (k', l') \<in> set kvs \<and> stale now w l')" for k'
      using True kv by auto
    have "batches w' = filter (\<lambda>(k, l). \<not> (\<exists>l'. (k, l') \<in> set (kv # kvs) \<and> stale now w l')) (batches w)"
      unfolding 2(5) 1(3) ex AList.delete_eq by (auto simp: filter_filter intro!: filter_cong)
    moreover have "scheduled [] w' = filter_mset (\<lambda>e. \<not> (\<exists>l. (fst e, l) \<in> set (kv # kvs) \<and> stale now w l)) (scheduled [] w)"
      unfolding 2(6) 1(6) ex by (simp add: filter_filter_mset conj_commute)
    ultimately show ?thesis using 1(1,4,5) 2(1-4) kv by simp
  qed
qed

section \<open>Runs\<close>

lemma new_worker_inv: "worker_inv N [] new_worker" "scheduled [] new_worker = {#}" "due_by d new_worker"
  by (simp_all add: worker_inv_def new_worker_def links_ok_def keys_ok_def scheduled_def due_by_def heap_ok_iff
      mh_inv_def heap_ord_def)

lemma handleMsg_correct:
  assumes inv: "worker_inv (BufferSize cfg) [] w" and N: "BufferSize cfg < HeaderSize + 2 ^ 16" and m: "msg_ok cfg msg"
  shows "\<exists>w'. handleMsg cfg now msg w = Inr w' \<and> worker_inv (BufferSize cfg) [] w'
    \<and> scheduled [] w' + delivered (sent w') = scheduled [] w + delivered (sent w) + {#msg_sub msg#}
    \<and> (due_by d w \<longrightarrow> now + batchTimeout cfg \<le> d \<longrightarrow> due_by d w')"
proof -
  define small where "small = (length (data msg) < 128 \<or> batchTimeout cfg \<le> 20 * 1000000)"
  define n where "n = (if small then HeaderSize + 4 + 2 + length (data msg) else BufferSize cfg)"
  have hm: "handleMsg cfg now msg w = (if emerge msg \<or> small then emerge_send n msg w else add_to_batch cfg n now msg w)"
    by (simp add: handleMsg_def Let_def small_def n_def)
  have d: "data msg \<noteq> []" "HeaderSize + 6 + length (data msg) \<le> BufferSize cfg" using m by (simp_all add: msg_ok_def)
  show ?thesis
  proof (cases "emerge msg \<or> small")
    case True
    have "HeaderSize \<le> n" "HeaderSize + 6 + length (data msg) \<le> n" "6 + length (data msg) < 2 ^ 16"
      using d(2) N by (auto simp: n_def)
    then obtain buf where b: "emerge_send n msg w = Inr (w\<lparr>sent := sent w @ [\<lparr>si_p = buf, rkey = routingKey msg, next_ip = nextHop msg\<rparr>]\<rparr>)"
        "carries msg [\<lparr>UserID = userID msg, Data = data msg\<rparr>] buf"
      using emerge_correct [of n msg w] d(1) by blast
    have "received \<lparr>si_p = buf, rkey = routingKey msg, next_ip = nextHop msg\<rparr> = [\<lparr>UserID = userID msg, Data = data msg\<rparr>]"
      using b(2) by (auto simp: carries_def received_def)
    then show ?thesis using b(1) inv True by (simp add: hm msg_sub_def due_by_def)
  next
    case False
    then show ?thesis
      using add_to_batch_correct [OF inv _ N d(1), of cfg now d] d(2) by (auto simp: hm n_def msg_sub_def)
  qed
qed

lemma agg_run_append: "agg_run cfg w (xs @ ys) = bindr (agg_run cfg w xs) (\<lambda>w'. agg_run cfg w' ys)"
  by (induction xs arbitrary: w) (auto simp: bindr_def split: sum.splits)

lemma agg_run_correct:
  assumes "worker_inv (BufferSize cfg) [] w" "BufferSize cfg < HeaderSize + 2 ^ 16" "trace_ok cfg evs"
  shows "\<exists>w'. agg_run cfg w evs = Inr w' \<and> worker_inv (BufferSize cfg) [] w'
    \<and> scheduled [] w' + delivered (sent w') = scheduled [] w + delivered (sent w) + mset (map msg_sub (trace_msgs evs))
    \<and> (due_by d w \<longrightarrow> (\<forall>t \<in> fst ` set evs. t + batchTimeout cfg \<le> d) \<longrightarrow> due_by d w')"
  using assms(1,3)
proof (induction evs arbitrary: w)
  case Nil
  then show ?case by (simp add: trace_msgs_def)
next
  case (Cons tev evs)
  obtain t ev where tev: "tev = (t, ev)" by (cases tev)
  have ev: "trace_ok cfg evs" "ev \<noteq> Evict" "\<And>m. ev = Msg m \<Longrightarrow> msg_ok cfg m"
    using Cons.prems(2) by (auto simp: trace_ok_def tev)
  have "\<exists>w1. agg_step cfg t ev w = Inr w1 \<and> worker_inv (BufferSize cfg) [] w1
      \<and> scheduled [] w1 + delivered (sent w1) = scheduled [] w + delivered (sent w) + mset (map msg_sub (trace_msgs [tev]))
      \<and> (due_by d w \<longrightarrow> t + batchTimeout cfg \<le> d \<longrightarrow> due_by d w1)"
  proof (cases ev)
    case (Msg m)
    then show ?thesis using handleMsg_correct [OF Cons.prems(1) assms(2) ev(3), of m t d] by (auto simp: trace_msgs_def tev)
  next
    case Tick
    obtain w1 ss where c: "checkTimeout t w = Inr w1" "worker_inv (BufferSize cfg) [] w1" "sent w1 = sent w @ ss"
      "scheduled [] w = scheduled [] w1 + delivered ss" "set (heap w1) = {x \<in> set (heap w). t < deadline (items w ! x)}"
      "frame (items w1) = frame (items w)"
      using checkTimeout_correct [OF Cons.prems(1) assms(2), of t] by blast
    have "due_by d w1" if "due_by d w"
    proof -
      have "x < length (items w)" if "x \<in> set (heap w)" for x
        using Cons.prems(1) that by (auto simp: worker_inv_def links_ok_def)
      then show ?thesis using that c(5) frame_batch [OF c(6)] by (auto simp: due_by_def)
    qed
    with c Tick show ?thesis by (auto simp: trace_msgs_def tev add.commute add.left_commute)
  qed (use ev in simp)
  then obtain w1 where w1: "agg_step cfg t ev w = Inr w1" "worker_inv (BufferSize cfg) [] w1"
      "scheduled [] w1 + delivered (sent w1) = scheduled [] w + delivered (sent w) + mset (map msg_sub (trace_msgs [tev]))"
      "due_by d w \<longrightarrow> t + batchTimeout cfg \<le> d \<longrightarrow> due_by d w1" by blast
  obtain w' where w': "agg_run cfg w1 evs = Inr w'" "worker_inv (BufferSize cfg) [] w'"
      "scheduled [] w' + delivered (sent w') = scheduled [] w1 + delivered (sent w1) + mset (map msg_sub (trace_msgs evs))"
      "due_by d w1 \<longrightarrow> (\<forall>t \<in> fst ` set evs. t + batchTimeout cfg \<le> d) \<longrightarrow> due_by d w'"
    using Cons.IH [OF w1(2) ev(1)] by blast
  have "trace_msgs (tev # evs) = trace_msgs [tev] @ trace_msgs evs" by (simp add: trace_msgs_def)
  with w1 w' show ?case by (auto simp: tev)
qed

lemma due_by_all_sent:
  assumes inv: "worker_inv N [] w" "N < HeaderSize + 2 ^ 16" and due: "due_by t w"
  shows "\<exists>w'. checkTimeout t w = Inr w' \<and> worker_inv N [] w' \<and> scheduled [] w' = {#}
    \<and> delivered (sent w') = delivered (sent w) + scheduled [] w"
proof -
  obtain w' ss where c: "checkTimeout t w = Inr w'" "worker_inv N [] w'" "sent w' = sent w @ ss"
    "scheduled [] w = scheduled [] w' + delivered ss" "set (heap w') = {x \<in> set (heap w). t < deadline (items w ! x)}"
    using checkTimeout_correct [OF inv, of t] by blast
  have "set (heap w') = {}" unfolding c(5) using due by (fastforce simp: due_by_def)
  then have "heap w' = []" by simp
  then have "scheduled [] w' = {#}" by (simp add: scheduled_def)
  with c show ?thesis by simp
qed

lemma pop_single:
  assumes "worker_inv N [] w" "heap w = [x]" "deadline (items w ! x) \<le> t"
  shows "pop_expired t w = Inr (w\<lparr>heap := [], items := set_index (items w) x (- 1)\<rparr>, [x])" "x < length (items w)"
proof -
  have inv: "index (items w ! x) = 0" "x < length (items w)"
    using assms(1,2) by (auto simp: worker_inv_def heap_ok_iff mh_inv_def)
  have "(items w)[x := (items w ! x)\<lparr>index := 0\<rparr>] = items w" using inv by (intro list_update_same_conv [THEN iffD2]) simp_all
  then have sw: "MinHeap_Swap ([x], items w) 0 0 = ([x], items w)"
    by (simp add: MinHeap_Swap_def set_index_def)
  have dn: "heap_down MinHeap_Less MinHeap_Swap h 0 0 = (h, False)" for h by (subst heap_down.simps) simp
  have "heap_Pop MinHeap_Len MinHeap_Less MinHeap_Swap MinHeap_Pop ([x], items w) = Inr (([], set_index (items w) x (- 1)), x)"
    by (simp add: heap_Pop_def MinHeap_Len_def sw dn MinHeap_Pop_def)
  then show "pop_expired t w = Inr (w\<lparr>heap := [], items := set_index (items w) x (- 1)\<rparr>, [x])"
    using assms(2,3) by (simp add: pop_expired_def pop_loop.simps [of "Suc 0"] pop_loop.simps [of 0] MinHeap_Len_def)
  show "x < length (items w)" by (fact inv)
qed

lemma remove_items_panic:
  assumes "b \<in> set l" "heapItem (bstore w ! b) = Some x" "\<And>c y. c \<in> set l \<Longrightarrow> heapItem (bstore w ! c) = Some y \<Longrightarrow> y = x"
    "index (items w ! x) = - 1"
  shows "is_panic (remove_items w l)"
  using assms
proof (induction l)
  case (Cons c l)
  show ?case
  proof (cases "heapItem (bstore w ! c)")
    case None
    then have "b \<in> set l" using Cons.prems(1,2) by auto
    then have "is_panic (remove_items w l)"
      by (rule Cons.IH) (use Cons.prems(2,4) in blast, rule Cons.prems(3), auto simp: Cons.prems(4))
    with None show ?thesis by simp
  next
    case (Some y)
    then have "y = x" by (rule Cons.prems(3) [of c, rotated]) (rule list.set_intros)
    then show ?thesis using Some Cons.prems(4) by (simp add: heap_Remove_def)
  qed
qed simp

lemma first_msg:
  assumes m: "\<not> emerge msg" "128 \<le> length (data msg)" "20 * 1000000 < batchTimeout cfg" "batch_count cfg (port msg) = 1"
    "msg_ok cfg msg" and N: "BufferSize cfg < HeaderSize + 2 ^ 16"
  shows "\<exists>w. handleMsg cfg now msg new_worker = Inr w \<and> worker_inv (BufferSize cfg) [] w \<and> sent w = []
    \<and> scheduled [] w = {#msg_sub msg#} \<and> batches w = [(routingKey msg, [0])] \<and> heap w = [0]
    \<and> createTime (bstore w ! 0) = now \<and> batch (items w ! 0) = 0 \<and> deadline (items w ! 0) = now + batchTimeout cfg"
proof -
  let ?n = "BufferSize cfg"
  have hm: "handleMsg cfg now msg new_worker = add_to_batch cfg ?n now msg new_worker"
    using m(1-3) by (simp add: handleMsg_def)
  have d: "data msg \<noteq> []" "HeaderSize + 6 + length (data msg) \<le> ?n" using m(5) by (simp_all add: msg_ok_def)
  obtain q where q: "AppendUserPacket (msg_packet ?n msg) (userID msg) (data msg) = Inr (q, True)"
    using AppendUserPacket_rep [OF msg_packet_rep(1), of ?n msg "userID msg" "data msg"] d(2) msg_packet_rep(2) [of ?n msg]
    by (auto simp: sub_fits_def add.assoc)
  have wp: "Wp (msg_packet ?n msg) = HeaderSize" using packet_rep_length [OF msg_packet_rep(1)] d(2) by simp
  have up: "heap_up MinHeap_Less MinHeap_Swap h 0 = h" for h by (subst heap_up.simps) simp
  obtain w where w: "handleMsg cfg now msg new_worker = Inr w" "worker_inv ?n [] w" "scheduled [] w = {#msg_sub msg#}"
    using add_to_batch_correct [OF new_worker_inv(1) _ N d(1), of cfg now 0] d(2) hm new_worker_inv(2)
    by (auto simp: msg_sub_def)
  have "sent w = [] \<and> batches w = [(routingKey msg, [0])] \<and> heap w = [0] \<and> createTime (bstore w ! 0) = now
      \<and> batch (items w ! 0) = 0 \<and> deadline (items w ! 0) = now + batchTimeout cfg"
    using w(1) q wp unfolding hm
    by (auto simp: add_to_batch_def find_batch_def new_worker_def pick_batch_def gm_list_def m(4) append_batch_def
        new_batch_def schedule_def set_batch_def heap_Push_def MinHeap_Push_def MinHeap_Len_def up set_index_def Let_def)
  with w show ?thesis by blast
qed

section \<open>Properties\<close>

text \<open>
  C3: exactly-once batching. Over every sequence of messages and timeout scans of a worker that fit
  the configured buffer, no handler fails and the sub-packets handed in are, with their routing keys
  and as a multiset, exactly those that receivers parse from the sent packets together with those
  still waiting in scheduled batches: nothing is lost, duplicated, altered or sent to another route.
\<close>

theorem aggregator_exactly_once:
  assumes "BufferSize cfg < HeaderSize + 2 ^ 16" "trace_ok cfg evs"
  shows "\<exists>w. agg_run cfg new_worker evs = Inr w
    \<and> mset (map msg_sub (trace_msgs evs)) = scheduled [] w + delivered (sent w)"
proof -
  have "delivered (sent new_worker) = {#}" by (simp add: new_worker_def)
  moreover obtain w where "agg_run cfg new_worker evs = Inr w"
    "scheduled [] w + delivered (sent w) = scheduled [] new_worker + delivered (sent new_worker) + mset (map msg_sub (trace_msgs evs))"
    using agg_run_correct [OF new_worker_inv(1) assms, of 0] by blast
  ultimately show ?thesis using new_worker_inv(2) by simp
qed

theorem aggregator_exactly_once_witness:
  "\<exists>w. agg_run ex_cfg new_worker [(0, Msg ex_msg), (5, Tick), (7, Msg ex_msg)] = Inr w
    \<and> scheduled [] w + delivered (sent w) = {#msg_sub ex_msg, msg_sub ex_msg#}"
proof -
  have "trace_ok ex_cfg [(0, Msg ex_msg), (5, Tick), (7, Msg ex_msg)]"
    by (simp add: trace_ok_def msg_ok_def ex_cfg_def ex_msg_def HeaderSize_def)
  moreover have "BufferSize ex_cfg < HeaderSize + 2 ^ 16" by (simp add: ex_cfg_def HeaderSize_def)
  ultimately show ?thesis
    using aggregator_exactly_once [of ex_cfg "[(0, Msg ex_msg), (5, Tick), (7, Msg ex_msg)]"]
    by (simp add: trace_msgs_def del: agg_run.simps) metis
qed



text \<open>
  C5: eviction takes away whole routing keys. A key goes, with all its batches, exactly when one of
  its batches was created or last flushed more than batchMaxAge ago; the other keys and what waits for
  them stay as they were. Data waiting under an evicted key is removed without being sent.
\<close>

theorem eviction_exact:
  assumes "worker_inv N [] w"
  shows "\<exists>w'. evictStaleBatches now w = Inr w' \<and> worker_inv N [] w' \<and> sent w' = sent w
    \<and> batches w' = filter (\<lambda>(k, l). \<not> stale now w l) (batches w)
    \<and> scheduled [] w' = filter_mset (\<lambda>e. \<not> stale now w (gm_list (batches w) (fst e))) (scheduled [] w)"
proof -
  have gm: "gm_ok (batches w)" using assms by (simp add: worker_inv_def keys_ok_def)
  have get: "(k, l) \<in> set (batches w) \<longleftrightarrow> gm_get (batches w) k = Some l" for k l
    using gm by simp
  obtain w' where w': "evictStaleBatches now w = Inr w'" "worker_inv N [] w'" "sent w' = sent w"
    "batches w' = filter (\<lambda>(k, l). \<not> (\<exists>l'. (k, l') \<in> set (batches w) \<and> stale now w l')) (batches w)"
    "scheduled [] w' = filter_mset (\<lambda>e. \<not> (\<exists>l. (fst e, l) \<in> set (batches w) \<and> stale now w l)) (scheduled [] w)"
    using evict_keys_correct [OF assms gm, of now] get unfolding evictStaleBatches_def by blast
  have "batches w' = filter (\<lambda>(k, l). \<not> stale now w l) (batches w)"
    unfolding w'(4) by (rule filter_cong) (auto simp: get simp del: map_of_eq_Some_iff)
  moreover have ex: "(\<exists>l. (k, l) \<in> set (batches w) \<and> stale now w l) \<longleftrightarrow> stale now w (gm_list (batches w) k)" for k
    unfolding get by (cases "gm_get (batches w) k") (simp_all add: stale_def)
  ultimately show ?thesis using w'(1-3,5) by simp
qed

theorem eviction_exact_witness:
  "\<exists>w w'. handleMsg ex_cfg 0 ex_msg new_worker = Inr w \<and> evictStaleBatches 5 w = Inr w' \<and> batches w' = [(''k'', [0])]"
proof -
  obtain w where w: "handleMsg ex_cfg 0 ex_msg new_worker = Inr w" "worker_inv (BufferSize ex_cfg) [] w"
    "batches w = [(''k'', [0])]" "createTime (bstore w ! 0) = 0"
    using first_msg [of ex_msg ex_cfg 0]
    by (auto simp: ex_msg_def ex_cfg_def batchTimeout_def batch_count_def msg_ok_def HeaderSize_def)
  from eviction_exact [OF w(2), of 5] w show ?thesis by (auto simp: stale_def batchMaxAge_def)
qed

text \<open>
  A pending batch under a stale key is lost. For a worker that holds a message and whose key is
  past batchMaxAge, eviction empties the key and the message is neither sent nor waiting any more.
\<close>

lemma eviction_loses_pending:
  assumes "worker_inv N [] w" "(k, s) \<in># scheduled [] w" "stale now w (gm_list (batches w) k)"
  shows "\<exists>w'. evictStaleBatches now w = Inr w' \<and> sent w' = sent w \<and> (k, s) \<notin># scheduled [] w'"
proof -
  have gm: "gm_ok (batches w)" using assms(1) by (simp add: worker_inv_def keys_ok_def)
  have "gm_get (batches w) k \<noteq> None" using assms(3) by (auto simp: gm_list_def stale_def split: option.splits)
  then obtain l where l: "gm_get (batches w) k = Some l" by auto
  then have "(k, l) \<in> set (batches w)" by (rule map_of_SomeD)
  moreover have "stale now w l" using assms(3) l by simp
  moreover have "\<And>k l. (k, l) \<in> set (batches w) \<Longrightarrow> gm_get (batches w) k = Some l" using gm by simp
  ultimately show ?thesis
    using evict_keys_correct [OF assms(1) gm, of now] unfolding evictStaleBatches_def by fastforce
qed

text \<open>
  The eviction can run into the gap of a timeout scan. When the scan has popped the item of a batch
  and not yet emptied the batch, evicting the batch's key removes the heap index -1 and panics.
\<close>

lemma eviction_race_panics:
  assumes "worker_inv N [] w" "heap w = [x]" "deadline (items w ! x) \<le> t"
    "batches w = [(k, l)]" "batch (items w ! x) \<in> set l" "stale t' w l"
  shows "\<exists>w'. pop_expired t w = Inr (w', [x]) \<and> is_panic (evictStaleBatches t' w')"
proof -
  let ?w = "w\<lparr>heap := [], items := set_index (items w) x (- 1)\<rparr>"
  note pop = pop_single [OF assms(1-3)]
  have wi: "links_ok [] w" "keys_ok [] w" using assms(1) by (simp_all add: worker_inv_def)
  have x: "heapItem (bstore w ! batch (items w ! x)) = Some x" using wi(1) assms(2) by (simp add: links_ok_def bt_of_def)
  have l: "gm_list (batches w) k = l" by (simp add: assms(4))
  have only: "y = x" if "c \<in> set l" "heapItem (bstore w ! c) = Some y" for c y
    using keys_ok_list(3) [OF wi(2), of c k y] that assms(2) l by simp
  have "is_panic (remove_items ?w l)"
    by (rule remove_items_panic [OF assms(5), of _ x]) (use x only pop(2) in \<open>auto simp: index_set_index\<close>)
  moreover have "stale t' ?w l" using assms(6) by (simp add: stale_def)
  ultimately have "is_panic (evict_key t' ?w (k, l))"
    by (auto simp: evict_key_def stale_def is_panic_def bindr_def split: sum.splits fault.splits)
  then show ?thesis using pop(1) assms(4)
    by (auto simp: evictStaleBatches_def is_panic_def bindr_def split: sum.splits fault.splits)
qed

end
