(* ===== verification/Aggregator_V2.thy ===== *)
theory Aggregator_V2
  imports Agg_Flush
begin

text \<open>
  \<^verbatim>\<open>src/data-proxy/aggregator/aggregator_v2.go\<close>: the sharded aggregator. Its message, batch, heap item and
  shard worker have the fields of the first aggregator's and its batch code is the same text, so the
  types and the common operations of \<^verbatim>\<open>Aggregator\<close> serve for both; what differs is modelled here: the
  emerge rule, the pooled send buffers, the sharding by a hash of the routing key and the queue of send
  tasks, which is the trace \<^verbatim>\<open>sent\<close> of a shard worker. A pooled buffer is a parameter: its contents are
  whatever its last user left, its capacity is 64 KB.
\<close>

section \<open>Definitions\<close>

type_synonym aggregatorMsgV2 = aggregatorMsg
type_synonym BatchV2 = Batch
type_synonym HeapItemV2 = HeapItem
type_synonym sendTask = sendInfo
type_synonym shardWorker = worker

definition shardCount :: nat where "shardCount = 16"

definition pool_cap :: nat where "pool_cap = 64 * 1024"

text \<open>\<^verbatim>\<open>hash/fnv\<close>, 32-bit FNV-1a over the bytes of the key.\<close>

definition fnv32a :: "string \<Rightarrow> u32" where
  "fnv32a key = foldl (\<lambda>h c. (h XOR of_nat (of_char c)) * 16777619) 2166136261 key"

definition hashRoutingKey :: "string \<Rightarrow> nat" where
  "hashRoutingKey key = unat (fnv32a key) mod shardCount"

text \<open>Filling a pooled buffer with the packet: slicing past its capacity is a panic.\<close>

definition pool_copy :: "byte list \<Rightarrow> Packet \<Rightarrow> byte list result" where
  "pool_copy pool q =
     bindr (slice_to pool (TotalBytes q)) (\<lambda>buf.
     bindr (slice_to (Buf q) (TotalBytes q)) (\<lambda>s. Inr (go_copy buf s)))"

definition emerge_sendV2 :: "byte list \<Rightarrow> nat \<Rightarrow> aggregatorMsgV2 \<Rightarrow> shardWorker \<Rightarrow> shardWorker result" where
  "emerge_sendV2 pool buffSize msg sw =
     bindr (AppendUserPacket (msg_packet buffSize msg) (userID msg) (data msg)) (\<lambda>(q, ok).
       if \<not> ok then Inr sw
       else bindr (SerializeHead q) (\<lambda>q.
            bindr (pool_copy pool q) (\<lambda>buf.
            Inr (sw\<lparr>sent := sent sw @ [\<lparr>si_p = buf, rkey = routingKey msg, next_ip = nextHop msg\<rparr>]\<rparr>))))"

definition handleMsgV2 :: "AggConfig \<Rightarrow> byte list \<Rightarrow> int \<Rightarrow> aggregatorMsgV2 \<Rightarrow> shardWorker \<Rightarrow> shardWorker result" where
  "handleMsgV2 cfg pool now msg sw =
     (let large = length (data msg) \<ge> 1024;
          buffSize = (if large then HeaderSize + 4 + 2 + length (data msg) else BufferSize cfg)
      in if emerge msg \<or> large then emerge_sendV2 pool buffSize msg sw
         else add_to_batch cfg buffSize now msg sw)"

definition empty_batchV2 :: "byte list \<Rightarrow> int \<Rightarrow> shardWorker \<Rightarrow> nat \<Rightarrow> shardWorker result" where
  "empty_batchV2 pool now sw item =
     (let b = batch (items sw ! item); bt = bstore sw ! b in
      bindr (SerializeHead (pkt bt)) (\<lambda>q.
      bindr (pool_copy pool q) (\<lambda>buf.
      let sw1 = sw\<lparr>sent := sent sw @ [\<lparr>si_p = buf, rkey = RoutingKey bt, next_ip = NextHop bt\<rparr>]\<rparr> in
      Inr (set_batch sw1 b (bt\<lparr>pkt := q\<lparr>Wp := HeaderSize\<rparr>, createTime := now, heapItem := None\<rparr>)))))"

fun empty_batchesV2 :: "byte list \<Rightarrow> int \<Rightarrow> shardWorker \<Rightarrow> nat list \<Rightarrow> shardWorker result" where
  "empty_batchesV2 pool now sw [] = Inr sw"
| "empty_batchesV2 pool now sw (x # xs) = bindr (empty_batchV2 pool now sw x) (\<lambda>sw1. empty_batchesV2 pool now sw1 xs)"

definition checkTimeoutV2 :: "byte list \<Rightarrow> int \<Rightarrow> shardWorker \<Rightarrow> shardWorker result" where
  "checkTimeoutV2 pool now sw = bindr (pop_expired now sw) (\<lambda>(sw', expired). empty_batchesV2 pool now sw' expired)"

type_synonym AggregatorV2 = "shardWorker list"

definition NewAggregatorV2 :: AggregatorV2 where
  "NewAggregatorV2 = replicate shardCount new_worker"

text \<open>
  The receive loop of the goroutine of shard \<^term>\<open>shardIdx\<close>: all sixteen goroutines read the same channel, and
  a message whose key hashes to another shard is read and not handled.
\<close>

definition receiveV2 :: "AggConfig \<Rightarrow> byte list \<Rightarrow> int \<Rightarrow> nat \<Rightarrow> aggregatorMsgV2 \<Rightarrow> AggregatorV2 \<Rightarrow> AggregatorV2 result" where
  "receiveV2 cfg pool now shardIdx msg a =
     (if hashRoutingKey (routingKey msg) = shardIdx
      then bindr (handleMsgV2 cfg pool now msg (a ! shardIdx)) (\<lambda>sw. Inr (a[shardIdx := sw]))
      else Inr a)"

fun evict_shards :: "int \<Rightarrow> shardWorker list \<Rightarrow> shardWorker list result" where
  "evict_shards now [] = Inr []"
| "evict_shards now (sw # sws) =
     bindr (evictStaleBatches now sw) (\<lambda>sw'. bindr (evict_shards now sws) (\<lambda>sws'. Inr (sw' # sws')))"

definition evictStaleBatchesV2 :: "int \<Rightarrow> AggregatorV2 \<Rightarrow> AggregatorV2 result" where
  "evictStaleBatchesV2 now a = evict_shards now a"

text \<open>The dispatcher: which send worker gets a task.\<close>

definition dispatchV2 :: "nat \<Rightarrow> sendTask \<Rightarrow> nat" where
  "dispatchV2 sendWorkers task = hashRoutingKey (rkey task) mod sendWorkers"


text \<open>
  The steps of the sharded aggregator: the goroutine of a shard reads a message from the shared channel, or
  the timeout goroutine of a shard scans. Each step has its time and the pooled buffer it draws.
\<close>

datatype v2_event = RecvV2 nat aggregatorMsgV2 | TickV2 nat

fun v2_step :: "AggConfig \<Rightarrow> int \<times> byte list \<Rightarrow> v2_event \<Rightarrow> AggregatorV2 \<Rightarrow> AggregatorV2 result" where
  "v2_step cfg (now, pool) (RecvV2 i m) a = receiveV2 cfg pool now i m a"
| "v2_step cfg (now, pool) (TickV2 i) a = bindr (checkTimeoutV2 pool now (a ! i)) (\<lambda>sw. Inr (a[i := sw]))"

fun v2_run :: "AggConfig \<Rightarrow> AggregatorV2 \<Rightarrow> ((int \<times> byte list) \<times> v2_event) list \<Rightarrow> AggregatorV2 result" where
  "v2_run cfg a [] = Inr a"
| "v2_run cfg a ((tp, e) # es) = bindr (v2_step cfg tp e a) (\<lambda>a'. v2_run cfg a' es)"

definition v2_ok :: "AggConfig \<Rightarrow> (int \<times> byte list) \<times> v2_event \<Rightarrow> bool" where
  "v2_ok cfg ev = (length (snd (fst ev)) = pool_cap
     \<and> (case snd ev of RecvV2 i m \<Rightarrow> i < shardCount \<and> msg_ok cfg m | TickV2 i \<Rightarrow> i < shardCount))"

text \<open>What is read by the goroutine of its own shard, and what the shards hold or have sent.\<close>

definition own_msgs :: "((int \<times> byte list) \<times> v2_event) list \<Rightarrow> aggregatorMsg list" where
  "own_msgs evs = concat (map (\<lambda>ev. case snd ev of
       RecvV2 i m \<Rightarrow> if hashRoutingKey (routingKey m) = i then [m] else [] | TickV2 i \<Rightarrow> []) evs)"

definition shard_load :: "worker \<Rightarrow> (string \<times> SubPacket) multiset" where
  "shard_load w = scheduled [] w + delivered (sent w)"

definition shards_inv :: "AggConfig \<Rightarrow> AggregatorV2 \<Rightarrow> bool" where
  "shards_inv cfg a = (length a = shardCount \<and> (\<forall>w \<in> set a. worker_inv (BufferSize cfg) [] w))"

section \<open>Lemmas\<close>

lemma hashRoutingKey_less: "hashRoutingKey k < shardCount"
  by (simp add: hashRoutingKey_def shardCount_def)

lemma pool_copy_eq:
  assumes "length pool = pool_cap" "TotalBytes q \<le> pool_cap" "TotalBytes q \<le> length (Buf q)"
  shows "pool_copy pool q = Inr (go_copy (replicate (TotalBytes q) 0) (take (TotalBytes q) (Buf q)))"
  using assms by (simp add: pool_copy_def slice_to_def go_copy_def)

lemma empty_batchV2_eq:
  assumes "worker_inv N (x # xs) w" "N < HeaderSize + 2 ^ 16" "N \<le> pool_cap" "length pool = pool_cap"
    "empty_batch now w x = Inr (w', s)"
  shows "empty_batchV2 pool now w x = Inr (w'\<lparr>sent := sent w @ [s]\<rparr>)"
proof -
  let ?bt = "bt_of w x"
  have wi: "links_ok (x # xs) w" "\<forall>bt \<in> set (bstore w). batch_ok N bt" using assms(1) by (simp_all add: worker_inv_def)
  have b: "batch (items w ! x) < length (bstore w)" "heapItem ?bt = Some x" using wi(1) by (auto simp: links_ok_def)
  have ok: "batch_ok N ?bt" using wi(2) b(1) by (simp add: bt_of_def)
  have rep: "packet_rep (pkt ?bt) (batch_subs ?bt)" using ok b(2) unfolding batch_ok_def by (metis option.distinct(1))
  have wp: "Wp (pkt ?bt) \<le> N" using rep ok by (auto simp: packet_rep_def packet_inv_def batch_ok_def)
  obtain q where q: "SerializeHead (pkt ?bt) = Inr q" "TotalBytes q = Wp (pkt ?bt)" "Wp (pkt ?bt) \<le> length (Buf q)"
    using Parse_serialized [OF rep, of "Wp (pkt ?bt)"] wp assms(2) by auto
  have "pool_copy pool q = Inr (go_copy (replicate (TotalBytes q) 0) (take (TotalBytes q) (Buf q)))"
    using q wp assms(3,4) by (intro pool_copy_eq) simp_all
  then show ?thesis using assms(5) q
    by (auto simp: empty_batchV2_def empty_batch_def Let_def bt_of_def slice_to_def set_batch_def)
qed

lemma empty_batch_sent: "empty_batch now w x = Inr (w', s) \<Longrightarrow> empty_batch now (w\<lparr>sent := t\<rparr>) x = Inr (w'\<lparr>sent := t\<rparr>, s)"
  by (auto simp: empty_batch_def Let_def set_batch_def bindr_eq_Inr)

lemma empty_batches_sent: "empty_batches now w xs = Inr (w', ss) \<Longrightarrow> empty_batches now (w\<lparr>sent := t\<rparr>) xs = Inr (w'\<lparr>sent := t\<rparr>, ss)"
proof (induction xs arbitrary: w ss)
  case (Cons x xs)
  then obtain w1 s ss' where "empty_batch now w x = Inr (w1, s)" "empty_batches now w1 xs = Inr (w', ss')" "ss = s # ss'"
    by (auto simp: bindr_eq_Inr)
  then show ?case using Cons.IH [of w1 ss'] empty_batch_sent [of now w x w1 s t] by simp
qed simp

lemma empty_batchesV2_eq:
  assumes "worker_inv N ex w" "N < HeaderSize + 2 ^ 16" "N \<le> pool_cap" "length pool = pool_cap"
    "empty_batches now w ex = Inr (w', ss)"
  shows "empty_batchesV2 pool now w ex = Inr (w'\<lparr>sent := sent w @ ss\<rparr>)"
  using assms(1,5)
proof (induction ex arbitrary: w w' ss)
  case (Cons x xs)
  obtain w1 s ss' where 1: "empty_batch now w x = Inr (w1, s)" "empty_batches now w1 xs = Inr (w', ss')" "ss = s # ss'"
    using Cons.prems(2) by (auto simp: bindr_eq_Inr)
  have inv: "worker_inv N xs w1" using empty_batch_correct [OF Cons.prems(1) assms(2), of now] 1(1) by auto
  let ?w = "w1\<lparr>sent := sent w @ [s]\<rparr>"
  have "empty_batchV2 pool now w x = Inr ?w" by (rule empty_batchV2_eq) fact+
  moreover have "empty_batches now ?w xs = Inr (w'\<lparr>sent := sent w @ [s]\<rparr>, ss')" by (rule empty_batches_sent) fact
  from Cons.IH [OF _ this] inv have "empty_batchesV2 pool now ?w xs = Inr (w'\<lparr>sent := sent w @ s # ss'\<rparr>)" by simp
  ultimately show ?case using 1(3) by simp
qed simp


lemma emerge_sendV2_eq:
  assumes "HeaderSize \<le> n" "n \<le> pool_cap" "length pool = pool_cap"
  shows "emerge_sendV2 pool n msg w = emerge_send n msg w"
proof -
  let ?m = "msg_packet n msg" and ?s = "\<lparr>UserID = userID msg, Data = data msg\<rparr>"
  note rep = msg_packet_rep [OF assms(1), of msg]
  obtain q ok where q: "AppendUserPacket ?m (userID msg) (data msg) = Inr (q, ok)" "packet_rep q (if ok then [?s] else [])"
    "BuffSize q = n"
    using AppendUserPacket_rep [OF rep(1), of "userID msg" "data msg", unfolded append_Nil] rep(2) by auto
  have wp: "HeaderSize \<le> Wp q" "Wp q \<le> n" using q(2,3) by (auto simp: packet_rep_def packet_inv_def)
  obtain q' where r: "SerializeHead q = Inr q'" "TotalBytes q' = Wp q" "Wp q \<le> length (Buf q')"
    using Parse_serialized [OF q(2), of "Wp q"] wp assms(2) by (auto simp: pool_cap_def HeaderSize_def)
  have "pool_copy pool q' = Inr (take (TotalBytes q') (Buf q'))"
    using pool_copy_eq [of pool q'] r wp assms by (simp add: go_copy_def)
  moreover have "Wp q \<noteq> 0" "Buf q' \<noteq> []" using wp r by (auto simp: HeaderSize_def)
  ultimately show ?thesis
    using q(1) r by (simp add: emerge_sendV2_def emerge_send_def slice_to_def flush_def)
qed

lemma checkTimeoutV2_eq:
  assumes "worker_inv N [] w" "N \<le> pool_cap" "length pool = pool_cap"
  shows "checkTimeoutV2 pool now w = checkTimeout now w"
proof -
  have N: "N < HeaderSize + 2 ^ 16" using assms(2) by (simp add: pool_cap_def HeaderSize_def)
  obtain w1 ex where 1: "pop_expired now w = Inr (w1, ex)" "worker_inv N ex w1"
    using pop_expired_correct [OF assms(1), of now] by blast
  obtain w2 ss where 2: "empty_batches now w1 ex = Inr (w2, ss)" "\<forall>s \<in> set ss. si_p s \<noteq> []" "sent w2 = sent w1"
    using empty_batches_correct [OF 1(2) N, of now] by blast
  have "foldl flush w2 ss = w2\<lparr>sent := sent w2 @ ss\<rparr>" using 2(2) by (rule foldl_flush)
  with 1 2 show ?thesis
    using empty_batchesV2_eq [OF 1(2) N assms(2,3) 2(1)] by (simp add: checkTimeoutV2_def checkTimeout_def flush_expired_def)
qed

lemma handleMsgV2_correct:
  assumes inv: "worker_inv (BufferSize cfg) [] w" and N: "BufferSize cfg \<le> pool_cap" "length pool = pool_cap" and m: "msg_ok cfg msg"
  shows "\<exists>w'. handleMsgV2 cfg pool now msg w = Inr w' \<and> worker_inv (BufferSize cfg) [] w'
    \<and> shard_load w' = shard_load w + {#msg_sub msg#}"
proof -
  define large where "large = (length (data msg) \<ge> 1024)"
  define n where "n = (if large then HeaderSize + 4 + 2 + length (data msg) else BufferSize cfg)"
  have hm: "handleMsgV2 cfg pool now msg w = (if emerge msg \<or> large then emerge_sendV2 pool n msg w else add_to_batch cfg n now msg w)"
    by (simp add: handleMsgV2_def Let_def large_def n_def)
  have d: "data msg \<noteq> []" "HeaderSize + 6 + length (data msg) \<le> BufferSize cfg" using m by (simp_all add: msg_ok_def)
  show ?thesis
  proof (cases "emerge msg \<or> large")
    case True
    have n: "HeaderSize \<le> n" "HeaderSize + 6 + length (data msg) \<le> n" "n \<le> pool_cap" "6 + length (data msg) < 2 ^ 16"
      using d(2) N by (auto simp: n_def pool_cap_def HeaderSize_def)
    then obtain buf where b: "emerge_send n msg w = Inr (w\<lparr>sent := sent w @ [\<lparr>si_p = buf, rkey = routingKey msg, next_ip = nextHop msg\<rparr>]\<rparr>)"
        "carries msg [\<lparr>UserID = userID msg, Data = data msg\<rparr>] buf"
      using emerge_correct [of n msg w] d(1) by blast
    have "received \<lparr>si_p = buf, rkey = routingKey msg, next_ip = nextHop msg\<rparr> = [\<lparr>UserID = userID msg, Data = data msg\<rparr>]"
      using b(2) by (auto simp: carries_def received_def)
    then show ?thesis using b(1) inv True emerge_sendV2_eq [OF n(1,3) N(2), of msg w]
      by (simp add: hm msg_sub_def shard_load_def)
  next
    case False
    have n: "HeaderSize \<le> BufferSize cfg" "BufferSize cfg < HeaderSize + 2 ^ 16" using d(2) N by (auto simp: pool_cap_def HeaderSize_def)
    from False show ?thesis
      using add_to_batch_correct [OF inv n d(1), of cfg now 0] d(2) by (auto simp: hm n_def msg_sub_def shard_load_def)
  qed
qed

lemma sum_list_update_mset:
  fixes f :: "'a \<Rightarrow> 'b multiset"
  shows "i < length a \<Longrightarrow> f w = f (a ! i) + D \<Longrightarrow> sum_list (map f (a[i := w])) = sum_list (map f a) + D"
proof (induction a arbitrary: i)
  case (Cons x a)
  then show ?case by (cases i) (auto simp: ac_simps)
qed simp

lemma v2_step_correct:
  assumes inv: "shards_inv cfg a" and N: "BufferSize cfg \<le> pool_cap" and ok: "v2_ok cfg ev"
  shows "\<exists>a'. v2_step cfg (fst ev) (snd ev) a = Inr a' \<and> shards_inv cfg a'
    \<and> sum_list (map shard_load a') = sum_list (map shard_load a) + mset (map msg_sub (own_msgs [ev]))"
proof -
  obtain t pool e where ev: "ev = ((t, pool), e)" by (metis surj_pair)
  have pl: "length pool = pool_cap" using ok by (simp add: v2_ok_def ev)
  have upd: "\<exists>a'. bindr r (\<lambda>sw. Inr (a[i := sw])) = Inr a' \<and> shards_inv cfg a'
      \<and> sum_list (map shard_load a') = sum_list (map shard_load a) + D"
    if "i < shardCount" "\<exists>w'. r = Inr w' \<and> worker_inv (BufferSize cfg) [] w' \<and> shard_load w' = shard_load (a ! i) + D" for r i D
    using that inv sum_list_update_mset [of i a shard_load]
    by (auto simp: shards_inv_def dest!: set_update_subset_insert [THEN subsetD])
  show ?thesis
  proof (cases e)
    case (RecvV2 i m)
    have i: "i < shardCount" "msg_ok cfg m" using ok by (simp_all add: v2_ok_def ev RecvV2)
    have "worker_inv (BufferSize cfg) [] (a ! i)" using inv i by (simp add: shards_inv_def)
    from upd [OF i(1) handleMsgV2_correct [OF this N pl i(2), of t]] inv show ?thesis
      by (auto simp: ev RecvV2 receiveV2_def own_msgs_def)
  next
    case (TickV2 i)
    have i: "i < shardCount" using ok by (simp add: v2_ok_def ev TickV2)
    have wi: "worker_inv (BufferSize cfg) [] (a ! i)" using inv i by (simp add: shards_inv_def)
    obtain w' ss where w': "checkTimeout t (a ! i) = Inr w'" "worker_inv (BufferSize cfg) [] w'" "sent w' = sent (a ! i) @ ss"
      "scheduled [] (a ! i) = scheduled [] w' + delivered ss"
      using checkTimeout_correct [OF wi, of t] N by (auto simp: pool_cap_def HeaderSize_def)
    from upd [of i "checkTimeoutV2 pool t (a ! i)" "{#}"] w' i checkTimeoutV2_eq [OF wi N pl, of t] show ?thesis
      by (auto simp: ev TickV2 own_msgs_def shard_load_def)
  qed
qed

lemma v2_run_correct:
  assumes "shards_inv cfg a" "BufferSize cfg \<le> pool_cap" "\<forall>ev \<in> set evs. v2_ok cfg ev"
  shows "\<exists>a'. v2_run cfg a evs = Inr a' \<and> shards_inv cfg a'
    \<and> sum_list (map shard_load a') = sum_list (map shard_load a) + mset (map msg_sub (own_msgs evs))"
  using assms(1,3)
proof (induction evs arbitrary: a)
  case Nil
  then show ?case by (simp add: own_msgs_def)
next
  case (Cons ev evs)
  obtain tp e where ev: "ev = (tp, e)" by (cases ev)
  have "v2_ok cfg ev" using Cons.prems(2) by simp
  from v2_step_correct [OF Cons.prems(1) assms(2) this] obtain a1 where a1: "v2_step cfg tp e a = Inr a1" "shards_inv cfg a1"
    "sum_list (map shard_load a1) = sum_list (map shard_load a) + mset (map msg_sub (own_msgs [ev]))" by (auto simp: ev)
  obtain a' where "v2_run cfg a1 evs = Inr a'" "shards_inv cfg a'"
    "sum_list (map shard_load a') = sum_list (map shard_load a1) + mset (map msg_sub (own_msgs evs))"
    using Cons.IH [OF a1(2)] Cons.prems(2) by auto
  moreover have "own_msgs (ev # evs) = own_msgs [ev] @ own_msgs evs" by (simp add: own_msgs_def)
  ultimately show ?case using a1 by (simp add: ev)
qed

lemma NewAggregatorV2_inv: "shards_inv cfg NewAggregatorV2" "sum_list (map shard_load NewAggregatorV2) = {#}"
proof -
  have 0: "shard_load new_worker = {#}" using new_worker_inv(2) by (simp add: shard_load_def new_worker_def)
  have "sum_list (replicate n {#}) = {#}" for n by (induction n) auto
  then show "sum_list (map shard_load NewAggregatorV2) = {#}" by (simp add: NewAggregatorV2_def 0)
  show "shards_inv cfg NewAggregatorV2" using new_worker_inv(1) by (simp add: shards_inv_def NewAggregatorV2_def)
qed

section \<open>Properties\<close>

text \<open>
  C16: The timeout scan with pooled buffers is equivalent to the one that allocates: whatever the drawn
  buffers contain, a shard worker in a well-formed state whose batches are at most 64 KB is left in the same
  state with the same packets handed over for sending, and with the same fault if there is one.
\<close>

theorem pooled_timeout_equivalent:
  assumes "worker_inv N [] w" "N \<le> pool_cap" "length pool = pool_cap"
  shows "checkTimeoutV2 pool now w = checkTimeout now w"
  using checkTimeoutV2_eq [OF assms] .

theorem pooled_timeout_equivalent_witness:
  "\<exists>w. handleMsg ex_cfg 0 ex_msg new_worker = Inr w \<and> heap w = [0]
     \<and> checkTimeoutV2 (replicate pool_cap 7) 60000000 w = checkTimeout 60000000 w"
proof -
  obtain w where w: "handleMsg ex_cfg 0 ex_msg new_worker = Inr w" "worker_inv (BufferSize ex_cfg) [] w" "heap w = [0]"
    using first_msg [of ex_msg ex_cfg 0]
    by (auto simp: ex_msg_def ex_cfg_def batchTimeout_def batch_count_def msg_ok_def HeaderSize_def)
  have "BufferSize ex_cfg \<le> pool_cap" by (simp add: ex_cfg_def pool_cap_def)
  from pooled_timeout_equivalent [OF w(2) this, of "replicate pool_cap 7" 60000000] w show ?thesis by auto
qed



end
