(* ===== verification/Send_Pool.thy ===== *)
theory Send_Pool
  imports Aggregator_V2
begin

text \<open>
  The send workers of the sharded aggregator (\<^verbatim>\<open>src/data-proxy/aggregator/aggregator_v2.go\<close>): the channel of send tasks, the goroutine that
  deals them out to the workers by the hash of their key, the workers with their own channels, and \<^verbatim>\<open>Stop\<close>. Channels are
  bounded queues; the goroutines interleave in any order. A closed channel that is empty gives the zero task to every
  receive, and a send on a closed channel panics.
\<close>

section \<open>Definitions\<close>

record sendWorker =
  sw_taskCh :: "sendTask list"
  sw_closed :: bool
  sw_stopCh :: bool
  sw_returned :: bool

text \<open>The last two components record all tasks put into the channel and what the workers sent, \<^term>\<open>None\<close> being the zero task.\<close>

record send_pipe =
  sp_taskCh :: "sendTask list"
  sp_closed :: bool
  sp_workers :: "sendWorker list"
  sp_queued :: "sendTask list"
  sp_sent :: "sendTask option list"

definition new_send_pipe :: "int \<Rightarrow> send_pipe" where
  "new_send_pipe aggWorkerCount =
     (let sendWorkerCount = (if aggWorkerCount \<le> 0 then 8 else nat aggWorkerCount)
      in \<lparr>sp_taskCh = [], sp_closed = False,
          sp_workers = replicate sendWorkerCount \<lparr>sw_taskCh = [], sw_closed = False, sw_stopCh = False, sw_returned = False\<rparr>,
          sp_queued = [], sp_sent = []\<rparr>)"

definition set_sender :: "nat \<Rightarrow> sendWorker \<Rightarrow> send_pipe \<Rightarrow> send_pipe" where
  "set_sender i w s = s\<lparr>sp_workers := (sp_workers s)[i := w]\<rparr>"

text \<open>A send into the channel of tasks and one step of the dispatcher: \<^term>\<open>None\<close> when it blocks.\<close>

definition queue_task :: "sendTask \<Rightarrow> send_pipe \<Rightarrow> send_pipe result option" where
  "queue_task t s =
     (if sp_closed s then Some (Inl (GoPanic ''send on closed channel''))
      else if length (sp_taskCh s) < 10000 then Some (Inr (s\<lparr>sp_taskCh := sp_taskCh s @ [t], sp_queued := sp_queued s @ [t]\<rparr>))
      else None)"

definition dispatch_task :: "send_pipe \<Rightarrow> send_pipe result option" where
  "dispatch_task s =
     (case sp_taskCh s of
        [] \<Rightarrow> None
      | t # ts \<Rightarrow>
          (let i = dispatchV2 (length (sp_workers s)) t; w = sp_workers s ! i
           in if sw_closed w then Some (Inl (GoPanic ''send on closed channel''))
              else if length (sw_taskCh w) < 100
              then Some (Inr (set_sender i (w\<lparr>sw_taskCh := sw_taskCh w @ [t]\<rparr>) (s\<lparr>sp_taskCh := ts\<rparr>)))
              else None))"

text \<open>One round of a send worker: the task it receives is sent, or it returns.\<close>

definition send_next :: "nat \<Rightarrow> send_pipe \<Rightarrow> send_pipe option" where
  "send_next i s =
     (let w = sp_workers s ! i in
      if sw_returned w then None
      else case sw_taskCh w of
             t # ts \<Rightarrow> Some (set_sender i (w\<lparr>sw_taskCh := ts\<rparr>) (s\<lparr>sp_sent := sp_sent s @ [Some t]\<rparr>))
           | [] \<Rightarrow> if sw_closed w then Some (s\<lparr>sp_sent := sp_sent s @ [None]\<rparr>) else None)"

definition worker_stops :: "nat \<Rightarrow> send_pipe \<Rightarrow> send_pipe option" where
  "worker_stops i s =
     (let w = sp_workers s ! i in
      if sw_stopCh w \<and> \<not> sw_returned w then Some (set_sender i (w\<lparr>sw_returned := True\<rparr>) s) else None)"

text \<open>\<^verbatim>\<open>Stop\<close> closes the channel of tasks and the channels of the workers; their stop channels stay open.\<close>

definition pipe_Stop :: "send_pipe \<Rightarrow> send_pipe" where
  "pipe_Stop s = s\<lparr>sp_closed := True, sp_workers := map (\<lambda>w. w\<lparr>sw_closed := True\<rparr>) (sp_workers s)\<rparr>"

inductive pipe_step :: "send_pipe \<Rightarrow> send_pipe \<Rightarrow> bool" where
  queued: "queue_task t s = Some (Inr s') \<Longrightarrow> pipe_step s s'"
| dispatched: "dispatch_task s = Some (Inr s') \<Longrightarrow> pipe_step s s'"
| sends: "i < length (sp_workers s) \<Longrightarrow> send_next i s = Some s' \<Longrightarrow> pipe_step s s'"
| stops: "i < length (sp_workers s) \<Longrightarrow> worker_stops i s = Some s' \<Longrightarrow> pipe_step s s'"

text \<open>The tasks of a key in a list, and the order they keep.\<close>

definition of_key :: "string \<Rightarrow> sendTask list \<Rightarrow> sendTask list" where
  "of_key k ts = filter (\<lambda>t. rkey t = k) ts"

definition sent_tasks :: "send_pipe \<Rightarrow> sendTask list" where
  "sent_tasks s = List.map_filter id (sp_sent s)"

definition key_worker :: "string \<Rightarrow> send_pipe \<Rightarrow> nat" where
  "key_worker k s = hashRoutingKey k mod length (sp_workers s)"

definition fifo_inv :: "send_pipe \<Rightarrow> bool" where
  "fifo_inv s = (sp_workers s \<noteq> [] \<and> (\<forall>k.
     of_key k (sp_queued s) = of_key k (sent_tasks s) @ of_key k (sw_taskCh (sp_workers s ! key_worker k s)) @ of_key k (sp_taskCh s)
     \<and> (\<forall>i < length (sp_workers s). i \<noteq> key_worker k s \<longrightarrow> of_key k (sw_taskCh (sp_workers s ! i)) = [])))"

text \<open>No stop channel is closed and no worker has returned.\<close>

definition never_stops :: "send_pipe \<Rightarrow> bool" where
  "never_stops s = list_all (\<lambda>w. \<not> sw_stopCh w \<and> \<not> sw_returned w) (sp_workers s)"

text \<open>A sample task.\<close>

definition ex_send :: "string \<Rightarrow> sendTask" where
  "ex_send k = \<lparr>si_p = [], rkey = k, next_ip = []\<rparr>"

section \<open>Lemmas\<close>

lemma of_key_simps [simp]:
  "of_key k [] = []" "of_key k (xs @ ys) = of_key k xs @ of_key k ys" "of_key k (t # ts) = (if rkey t = k then t # of_key k ts else of_key k ts)"
  by (simp_all add: of_key_def)

lemma set_sender_simps [simp]:
  "sp_taskCh (set_sender i w s) = sp_taskCh s" "sp_queued (set_sender i w s) = sp_queued s" "sp_sent (set_sender i w s) = sp_sent s"
  "sp_workers (set_sender i w s) = (sp_workers s)[i := w]" "sp_closed (set_sender i w s) = sp_closed s"
  by (simp_all add: set_sender_def)

lemma sent_tasks_snoc: "sp_sent s' = sp_sent s @ [r] \<Longrightarrow> sent_tasks s' = sent_tasks s @ (case r of Some t \<Rightarrow> [t] | None \<Rightarrow> [])"
proof -
  have "List.map_filter id (xs @ [r]) = List.map_filter id xs @ (case r of Some t \<Rightarrow> [t] | None \<Rightarrow> [])" for xs :: "sendTask option list"
    by (induction xs) (simp_all add: map_filter_simps split: option.split)
  then show "sp_sent s' = sp_sent s @ [r] \<Longrightarrow> ?thesis" by (simp add: sent_tasks_def)
qed

lemma key_worker_less: "sp_workers s \<noteq> [] \<Longrightarrow> key_worker k s < length (sp_workers s)"
  by (simp add: key_worker_def)

lemma dispatch_key: "dispatchV2 (length (sp_workers s)) t = key_worker (rkey t) s"
  by (simp add: dispatchV2_def key_worker_def)

lemma fifo_start: "fifo_inv (new_send_pipe n)"
  by (auto simp: fifo_inv_def new_send_pipe_def Let_def sent_tasks_def map_filter_simps key_worker_def)

lemma fifo_dispatch:
  assumes "fifo_inv s" "dispatch_task s = Some (Inr s')"
  shows "fifo_inv s'"
proof -
  obtain t ts where ch: "sp_taskCh s = t # ts" using assms(2) by (cases "sp_taskCh s") (simp_all add: dispatch_task_def)
  define i where "i = key_worker (rkey t) s"
  define w where "w = sp_workers s ! i"
  have s': "s' = set_sender i (w\<lparr>sw_taskCh := sw_taskCh w @ [t]\<rparr>) (s\<lparr>sp_taskCh := ts\<rparr>)"
    using assms(2) by (simp add: dispatch_task_def ch Let_def dispatch_key i_def [symmetric] w_def [symmetric] split: if_splits)
  have i: "i < length (sp_workers s)" using assms(1) by (simp add: i_def fifo_inv_def key_worker_less)
  have "sent_tasks s' = sent_tasks s" "\<And>k. key_worker k s' = key_worker k s" by (simp_all add: s' sent_tasks_def key_worker_def)
  then show ?thesis using assms(1) i unfolding fifo_inv_def
    by (auto simp: s' ch w_def nth_list_update i_def)
qed

lemma fifo_send:
  assumes "fifo_inv s" "i < length (sp_workers s)" "send_next i s = Some s'"
  shows "fifo_inv s'"
proof (cases "sw_taskCh (sp_workers s ! i)")
  case Nil
  then have s': "s' = s\<lparr>sp_sent := sp_sent s @ [None]\<rparr>" using assms(3) by (simp add: send_next_def Let_def split: if_splits)
  have "sent_tasks s' = sent_tasks s" using sent_tasks_snoc [of s' s None] by (simp add: s')
  moreover have "key_worker k s' = key_worker k s" for k by (simp add: s' key_worker_def)
  ultimately show ?thesis using assms(1) by (simp add: fifo_inv_def s')
next
  case (Cons t ts)
  let ?w = "sp_workers s ! i"
  have s': "s' = set_sender i (?w\<lparr>sw_taskCh := ts\<rparr>) (s\<lparr>sp_sent := sp_sent s @ [Some t]\<rparr>)"
    using assms(3) Cons by (simp add: send_next_def Let_def split: if_splits)
  have sent: "sent_tasks s' = sent_tasks s @ [t]" using sent_tasks_snoc [of s' s "Some t"] by (simp add: s')
  have kw: "key_worker k s' = key_worker k s" for k by (simp add: s' key_worker_def)
  have here: "i = key_worker (rkey t) s"
  proof (rule ccontr)
    assume "i \<noteq> key_worker (rkey t) s"
    then have "of_key (rkey t) (sw_taskCh ?w) = []" using assms(1, 2) by (auto simp: fifo_inv_def)
    then show False by (simp add: Cons)
  qed
  show ?thesis unfolding fifo_inv_def sent kw
  proof (intro conjI allI impI)
    show "sp_workers s' \<noteq> []" using assms(1) by (simp add: s' fifo_inv_def)
    fix k
    have inv: "of_key k (sp_queued s) = of_key k (sent_tasks s) @ of_key k (sw_taskCh (sp_workers s ! key_worker k s)) @ of_key k (sp_taskCh s)"
      "\<forall>j < length (sp_workers s). j \<noteq> key_worker k s \<longrightarrow> of_key k (sw_taskCh (sp_workers s ! j)) = []" using assms(1) by (auto simp: fifo_inv_def)
    show "of_key k (sp_queued s') = of_key k (sent_tasks s @ [t]) @ of_key k (sw_taskCh (sp_workers s' ! key_worker k s)) @ of_key k (sp_taskCh s')"
      using inv(1) here assms(2) Cons by (cases "key_worker k s = i") (auto simp: s')
    show "of_key k (sw_taskCh (sp_workers s' ! j)) = []" if "j < length (sp_workers s')" "j \<noteq> key_worker k s" for j
      using inv(2) that Cons assms(2) by (cases "j = i") (auto simp: s' split: if_splits)
  qed
qed

lemma fifo_stop:
  assumes "fifo_inv s" "i < length (sp_workers s)" "worker_stops i s = Some s'"
  shows "fifo_inv s'"
proof -
  have s': "s' = set_sender i ((sp_workers s ! i)\<lparr>sw_returned := True\<rparr>) s"
    using assms(3) by (simp add: worker_stops_def Let_def split: if_splits)
  have "sw_taskCh (sp_workers s' ! j) = sw_taskCh (sp_workers s ! j)" for j
    using assms(2) by (cases "i = j") (simp_all add: s')
  moreover have "sent_tasks s' = sent_tasks s" "\<And>k. key_worker k s' = key_worker k s" by (simp_all add: s' sent_tasks_def key_worker_def)
  ultimately show ?thesis using assms(1) unfolding fifo_inv_def by (simp add: s')
qed

lemma fifo_step:
  assumes "pipe_step s s'" "fifo_inv s"
  shows "fifo_inv s'"
  using assms(1)
proof cases
  case (queued t)
  then have "s' = s\<lparr>sp_taskCh := sp_taskCh s @ [t], sp_queued := sp_queued s @ [t]\<rparr>" by (simp add: queue_task_def split: if_splits)
  with assms(2) show ?thesis by (simp add: fifo_inv_def sent_tasks_def key_worker_def)
next
  case dispatched
  with assms(2) show ?thesis by (rule fifo_dispatch)
next
  case (sends i)
  show ?thesis by (rule fifo_send [OF assms(2) sends])
next
  case (stops i)
  show ?thesis by (rule fifo_stop [OF assms(2) stops])
qed

lemma reach_fifo: "pipe_step\<^sup>*\<^sup>* (new_send_pipe n) s \<Longrightarrow> fifo_inv s"
  by (induction rule: rtranclp_induct) (auto intro: fifo_start fifo_step)

text \<open>No step of the pipe closes a stop channel, and \<^verbatim>\<open>Stop\<close> does not either: the workers never return.\<close>

lemma list_all_update: "list_all P xs \<Longrightarrow> P x \<Longrightarrow> list_all P (xs[i := x])"
  by (auto simp: list_all_iff dest!: set_update_subset_insert [THEN subsetD])

lemma never_stops_queue:
  assumes "never_stops s" "sp_workers s' = (sp_workers s)[i := (sp_workers s ! i)\<lparr>sw_taskCh := ts\<rparr>]"
  shows "never_stops s' \<and> length (sp_workers s') = length (sp_workers s)"
proof (cases "i < length (sp_workers s)")
  case True
  then have "\<not> sw_stopCh (sp_workers s ! i)" "\<not> sw_returned (sp_workers s ! i)"
    using assms(1) by (simp_all add: never_stops_def list_all_length)
  with assms show ?thesis by (simp add: never_stops_def list_all_update)
qed (use assms in \<open>simp add: never_stops_def list_update_beyond not_less\<close>)

lemma never_stops_step:
  assumes "pipe_step s s'" "never_stops s"
  shows "never_stops s' \<and> length (sp_workers s') = length (sp_workers s)"
  using assms(1)
proof cases
  case (queued t)
  then have "sp_workers s' = sp_workers s" by (auto simp: queue_task_def split: if_splits)
  with assms(2) show ?thesis by (simp add: never_stops_def)
next
  case dispatched
  then obtain t ts where ch: "sp_taskCh s = t # ts" by (cases "sp_taskCh s") (simp_all add: dispatch_task_def)
  define i where "i = dispatchV2 (length (sp_workers s)) t"
  have "sp_workers s' = (sp_workers s)[i := (sp_workers s ! i)\<lparr>sw_taskCh := sw_taskCh (sp_workers s ! i) @ [t]\<rparr>]"
    using dispatched by (auto simp: dispatch_task_def ch Let_def i_def [symmetric] split: if_splits)
  with assms(2) show ?thesis by (rule never_stops_queue)
next
  case (sends i)
  have "sp_workers s' = sp_workers s \<or> (\<exists>ts. sp_workers s' = (sp_workers s)[i := (sp_workers s ! i)\<lparr>sw_taskCh := ts\<rparr>])"
    using sends(2) by (auto simp: send_next_def Let_def split: if_splits list.splits)
  then show ?thesis using never_stops_queue [OF assms(2)] assms(2) by (auto simp: never_stops_def)
next
  case (stops i)
  then have "sw_stopCh (sp_workers s ! i)" by (simp add: worker_stops_def Let_def split: if_splits)
  with stops(1) assms(2) show ?thesis by (simp add: never_stops_def list_all_length)
qed

lemma stop_keeps: "never_stops s \<Longrightarrow> never_stops (pipe_Stop s)"
  by (simp add: never_stops_def pipe_Stop_def list_all_length)

lemma never_stops_run: "pipe_step\<^sup>*\<^sup>* s s' \<Longrightarrow> never_stops s \<Longrightarrow> never_stops s' \<and> length (sp_workers s') = length (sp_workers s)"
proof (induction rule: rtranclp_induct)
  case (step y z)
  with never_stops_step show ?case by metis
qed simp

text \<open>After \<^verbatim>\<open>Stop\<close> a worker sends the zero task again and again, and a task still in the channel makes the dispatcher panic.\<close>

lemma stopped_worker_spins:
  assumes "i < length (sp_workers s)" "sw_taskCh (sp_workers s ! i) = []" "\<not> sw_returned (sp_workers s ! i)"
  shows "send_next i (pipe_Stop s) = Some ((pipe_Stop s)\<lparr>sp_sent := sp_sent s @ [None]\<rparr>)"
  using assms by (simp add: send_next_def Let_def pipe_Stop_def)

lemma stopped_dispatcher_panics:
  assumes "sp_taskCh s = t # ts" "sp_workers s \<noteq> []"
  shows "dispatch_task (pipe_Stop s) = Some (Inl (GoPanic ''send on closed channel''))"
proof -
  have "dispatchV2 (length (sp_workers s)) t < length (sp_workers s)" using assms(2) by (simp add: dispatchV2_def)
  with assms(1) show ?thesis by (simp add: dispatch_task_def Let_def pipe_Stop_def)
qed

section \<open>Properties\<close>

text \<open>
  C39: The packets of a routing key leave in order. However the producers, the dispatcher and the send workers interleave,
  the packets of a key that have been sent, followed by those that wait for the worker of the key and those that wait
  for the dispatcher, are the packets of the key in the order in which they were put into the channel: none is lost, repeated or
  overtaken.
\<close>

theorem send_order_kept:
  assumes "pipe_step\<^sup>*\<^sup>* (new_send_pipe n) s"
  shows "of_key k (sp_queued s) = of_key k (sent_tasks s) @ of_key k (sw_taskCh (sp_workers s ! key_worker k s)) @ of_key k (sp_taskCh s)"
  using reach_fifo [OF assms] by (simp add: fifo_inv_def)

theorem send_order_kept_witness:
  "\<exists>s. pipe_step\<^sup>*\<^sup>* (new_send_pipe 1) s \<and> sent_tasks s = [ex_send ''a'']
     \<and> [ex_send ''a'', ex_send ''a''] = [ex_send ''a''] @ of_key ''a'' (sw_taskCh (sp_workers s ! key_worker ''a'' s)) @ of_key ''a'' (sp_taskCh s)"
proof -
  let ?t = "ex_send ''a''"
  let ?w = "\<lambda>q. \<lparr>sw_taskCh = q, sw_closed = False, sw_stopCh = False, sw_returned = False\<rparr>"
  let ?s = "\<lambda>ch q al out. \<lparr>sp_taskCh = ch, sp_closed = False, sp_workers = [?w q], sp_queued = al, sp_sent = out\<rparr>"
  have s0: "new_send_pipe 1 = ?s [] [] [] []" by (simp add: new_send_pipe_def)
  have 1: "pipe_step (?s [] [] [] []) (?s [?t] [] [?t] [])" by (rule pipe_step.queued [of ?t]) (simp add: queue_task_def)
  have 2: "pipe_step (?s [?t] [] [?t] []) (?s [?t, ?t] [] [?t, ?t] [])" by (rule pipe_step.queued [of ?t]) (simp add: queue_task_def)
  have 3: "pipe_step (?s [?t, ?t] [] [?t, ?t] []) (?s [?t] [?t] [?t, ?t] [])"
    by (rule pipe_step.dispatched) (simp add: dispatch_task_def dispatchV2_def set_sender_def)
  have 4: "pipe_step (?s [?t] [?t] [?t, ?t] []) (?s [?t] [] [?t, ?t] [Some ?t])"
    by (rule pipe_step.sends [of 0]) (simp_all add: send_next_def set_sender_def)
  note into = rtranclp.rtrancl_into_rtrancl
  have run: "pipe_step\<^sup>*\<^sup>* (new_send_pipe 1) (?s [?t] [] [?t, ?t] [Some ?t])"
    unfolding s0 by (rule into [OF into [OF into [OF r_into_rtranclp]]]) (fact 1 2 3 4)+
  moreover have "sent_tasks (?s [?t] [] [?t, ?t] [Some ?t]) = [?t]" by (simp add: sent_tasks_def map_filter_simps)
  ultimately show ?thesis using send_order_kept [OF run, of "''a''"] by (intro exI [of _ "?s [?t] [] [?t, ?t] [Some ?t]"]) (simp add: ex_send_def)
qed

text \<open>
  C40: A stop of the sharded aggregator does not end. \<^verbatim>\<open>Stop\<close> waits for its goroutines, but no code closes the stop channel of a
  send worker: whatever happens before and after \<^verbatim>\<open>Stop\<close>, no send worker ever returns.
\<close>

theorem stop_never_returns:
  assumes "pipe_step\<^sup>*\<^sup>* (new_send_pipe n) s" "pipe_step\<^sup>*\<^sup>* (pipe_Stop s) s'"
  shows "sp_workers s' \<noteq> [] \<and> (\<forall>w \<in> set (sp_workers s'). \<not> sw_returned w)"
proof -
  have "never_stops (new_send_pipe n)" "sp_workers (new_send_pipe n) \<noteq> []" by (simp_all add: new_send_pipe_def never_stops_def Let_def list_all_length)
  then have "never_stops s" "sp_workers s \<noteq> []" using never_stops_run [OF assms(1)] by auto
  then have "never_stops s'" "sp_workers s' \<noteq> []"
    using never_stops_run [OF assms(2) stop_keeps] by (auto simp: pipe_Stop_def)
  then show ?thesis by (simp add: never_stops_def list_all_iff)
qed

theorem stop_never_returns_witness:
  "\<exists>s. pipe_step\<^sup>*\<^sup>* (pipe_Stop (new_send_pipe 1)) s \<and> sp_sent s = [None] \<and> map sw_returned (sp_workers s) = [False]"
proof -
  let ?p = "pipe_Stop (new_send_pipe 1)"
  let ?s = "?p\<lparr>sp_sent := [None]\<rparr>"
  have "pipe_step ?p ?s"
    by (rule pipe_step.sends [of 0]) (simp_all add: new_send_pipe_def pipe_Stop_def send_next_def)
  then have run: "pipe_step\<^sup>*\<^sup>* ?p ?s" by (rule r_into_rtranclp)
  have "length (sp_workers ?s) = 1" by (simp add: new_send_pipe_def pipe_Stop_def)
  then obtain w where w: "sp_workers ?s = [w]" by (auto simp: length_Suc_conv)
  then have "\<not> sw_returned w" using stop_never_returns [of 1 "new_send_pipe 1" ?s] run by simp
  with run w show ?thesis by (intro exI [of _ ?s]) simp
qed

end
