(* ===== verification/Back_Sourcer.thy ===== *)
theory Back_Sourcer
  imports Aggregator
begin

text \<open>
  \<^verbatim>\<open>src/data-proxy/backsourcer\<close>: the egress node's requests to the origin (\<^verbatim>\<open>backsourcer.go\<close>) and the two
  origin protocols (\<^verbatim>\<open>tcpsourcer.go\<close>, \<^verbatim>\<open>udpsourcer.go\<close>). The origin itself is a parameter: a function
  that for an address and a request gives the bytes the origin sends, or \<^term>\<open>None\<close> when dialling, writing
  or reading fails. Each task is one call of \<^verbatim>\<open>doOriginRequest\<close>, whose
  result is the message given to the response aggregator; the queue and its workers are in \<^verbatim>\<open>Back_Workers\<close>.
\<close>

section \<open>Definitions\<close>

record BackSourceTask =
  t_HopIP :: "u32 list"
  t_Port :: u16
  t_UserID :: u32
  OriginAddr :: string
  ReqData :: "byte list"

type_synonym origin = "string \<Rightarrow> byte list \<Rightarrow> byte list option"

text \<open>\<^verbatim>\<open>ReadBytes('\n')\<close>: up to and including the first newline, an error when the stream has none.\<close>

definition ReadBytes_nl :: "byte list \<Rightarrow> byte list option" where
  "ReadBytes_nl stream = (if 10 \<in> set stream then Some (takeWhile (\<lambda>b. b \<noteq> 10) stream @ [10]) else None)"

definition TCP_DoRequest :: "origin \<Rightarrow> origin" where
  "TCP_DoRequest net addr reqData =
     (case net addr reqData of None \<Rightarrow> None | Some stream \<Rightarrow> ReadBytes_nl stream)"

definition UDP_DoRequest :: "origin \<Rightarrow> origin" where
  "UDP_DoRequest net addr reqData =
     (case net addr reqData of
        None \<Rightarrow> None
      | Some dgram \<Rightarrow>
          let buf = replicate 65535 0; n = min (length dgram) 65535 in Some (take n (go_copy buf dgram)))"

definition NewBackSourcer :: "string \<Rightarrow> origin \<Rightarrow> origin" where
  "NewBackSourcer proto = (if proto = ''udp'' then UDP_DoRequest else TCP_DoRequest)"

definition response_hops :: "u32 list \<Rightarrow> net_ip list" where
  "response_hops hopIP =
     (let hops = map Uint32ToIP (filter (\<lambda>w. w \<noteq> 0) (rev hopIP)) in
      if length hops > 1 then tl hops else hops)"

definition doOriginRequest :: "origin \<Rightarrow> BackSourceTask \<Rightarrow> aggregatorMsg option result" where
  "doOriginRequest DoRequest task =
     (case DoRequest (OriginAddr task) (ReqData task) of
        None \<Rightarrow> Inr None
      | Some resp \<Rightarrow>
          if length resp = 0 then Inr None
          else let hops = response_hops (t_HopIP task);
                   hopStrs = map ip_string hops;
                   rk = join '','' hopStrs
               in bindr (go_index hops 1) (\<lambda>nh.
                    Inr (Some \<lparr>emerge = False, routingKey = rk, protocol = '''', port = 0,
                               routingInfo = \<lparr>Hops = hopStrs, Rtt = 0, RawRTT = 0\<rparr>,
                               nextHop = nh, userID = t_UserID task, data = resp\<rparr>)))"

section \<open>Lemmas\<close>

lemma Uint32ToIP_eq: "Uint32ToIP = be32"
  by (rule ext) simp

lemma ReadBytes_nl_prefix:
  "ReadBytes_nl s = Some r \<Longrightarrow> \<exists>t. s = r @ t \<and> r \<noteq> [] \<and> last r = 10 \<and> 10 \<notin> set (butlast r)"
proof -
  assume "ReadBytes_nl s = Some r"
  then have r: "10 \<in> set s" "r = takeWhile (\<lambda>b. b \<noteq> 10) s @ [10]" by (auto simp: ReadBytes_nl_def split: if_splits)
  then have "dropWhile (\<lambda>b. b \<noteq> 10) s \<noteq> []" by (simp add: dropWhile_eq_Nil_conv)
  then obtain t where "dropWhile (\<lambda>b. b \<noteq> 10) s = 10 # t" by (metis (mono_tags, lifting) hd_dropWhile list.collapse)
  then have "s = r @ t" using takeWhile_dropWhile_id [of "\<lambda>b. b \<noteq> 10" s] r(2) by simp
  moreover have "10 \<notin> set (butlast r)" using r(2) by (auto dest: set_takeWhileD)
  ultimately show ?thesis using r(2) by auto
qed

lemma response_hops_4: "a \<noteq> 0 \<Longrightarrow> b \<noteq> 0 \<Longrightarrow> c \<noteq> 0 \<Longrightarrow> d \<noteq> 0 \<Longrightarrow> response_hops [a, b, c, d] = [be32 c, be32 b, be32 a]"
  by (simp add: response_hops_def)

lemma response_hops_3: "a \<noteq> 0 \<Longrightarrow> b \<noteq> 0 \<Longrightarrow> c \<noteq> 0 \<Longrightarrow> response_hops [a, b, c, 0] = [be32 b, be32 a]"
  by (simp add: response_hops_def)

section \<open>Properties\<close>

text \<open>
  C9: an origin response goes to the aggregator exactly when the origin answers with at least one byte,
  and the request panics exactly when it does so for a path with fewer than three hops: with two or more
  hops left after dropping the origin, the message carries the response unchanged under the request's user
  identifier, over the request's path reversed, to the node before the egress.
\<close>

theorem doOriginRequest_correct:
  "case DoRequest (OriginAddr task) (ReqData task) of
     None \<Rightarrow> doOriginRequest DoRequest task = Inr None
   | Some [] \<Rightarrow> doOriginRequest DoRequest task = Inr None
   | Some resp \<Rightarrow>
       (is_panic (doOriginRequest DoRequest task) \<longleftrightarrow> length (filter (\<lambda>w. w \<noteq> 0) (t_HopIP task)) < 3)
       \<and> (3 \<le> length (filter (\<lambda>w. w \<noteq> 0) (t_HopIP task)) \<longrightarrow>
           (\<exists>m. doOriginRequest DoRequest task = Inr (Some m) \<and> data m = resp \<and> userID m = t_UserID task \<and> port m = 0
              \<and> Hops (routingInfo m) = map (\<lambda>w. ip_string (be32 w)) (tl (rev (filter (\<lambda>w. w \<noteq> 0) (t_HopIP task))))
              \<and> nextHop m = be32 (rev (filter (\<lambda>w. w \<noteq> 0) (t_HopIP task)) ! 2)))"
proof (cases "DoRequest (OriginAddr task) (ReqData task)")
  case (Some resp)
  let ?f = "filter (\<lambda>w. w \<noteq> 0) (t_HopIP task)"
  have h: "response_hops (t_HopIP task) = map be32 (if length ?f > 1 then tl (rev ?f) else rev ?f)"
    by (simp add: response_hops_def Let_def map_tl Uint32ToIP_eq flip: rev_filter)
  show ?thesis
  proof (cases resp)
    case (Cons x xs)
    show ?thesis
    proof (cases "length ?f < 3")
      case True
      then have "is_panic (doOriginRequest DoRequest task)"
        using Some Cons h by (auto simp: doOriginRequest_def Let_def go_index_def)
      with True Some Cons show ?thesis by simp
    next
      case False
      then show ?thesis using Some Cons h
        by (simp add: doOriginRequest_def Let_def go_index_def nth_tl numeral_2_eq_2)
    qed
  qed (use Some in \<open>simp add: doOriginRequest_def\<close>)
qed (simp add: doOriginRequest_def)

theorem doOriginRequest_correct_witness:
  "\<exists>m. doOriginRequest (\<lambda>addr req. Some [9, 10])
      \<lparr>t_HopIP = [1, 2, 3, 0], t_Port = 80, t_UserID = 7, OriginAddr = ''0.0.0.3:80'', ReqData = [5]\<rparr> = Inr (Some m)
    \<and> data m = [9, 10] \<and> userID m = 7"
  using doOriginRequest_correct [of "\<lambda>addr req. Some [9, 10]"
      "\<lparr>t_HopIP = [1, 2, 3, 0], t_Port = 80, t_UserID = 7, OriginAddr = ''0.0.0.3:80'', ReqData = [5]\<rparr>"]
  by auto

end
