(* ===== verification/Back_Workers.thy ===== *)
theory Back_Workers
  imports Back_Sourcer
begin

text \<open>
  The task queue and the workers of a back-sourcer (\<^verbatim>\<open>src/data-proxy/backsourcer/backsourcer.go\<close>): \<^verbatim>\<open>NewBackSourcerWithProtocol\<close>, \<^verbatim>\<open>startWorkers\<close>,
  \<^verbatim>\<open>Submit\<close> and \<^verbatim>\<open>Close\<close>. The queue is a bounded channel, the workers interleave in any order, and each handles a task by one call
  of \<^verbatim>\<open>doOriginRequest\<close>, whose message goes to the response aggregator. A back-sourcer is created without a connection pool,
  so that \<^verbatim>\<open>Close\<close> has none to close.
\<close>

section \<open>Definitions\<close>

text \<open>A worker waits for a task, handles one, or has returned.\<close>

datatype back_worker = Idle | Busy BackSourceTask | Done

text \<open>The last three components record the tasks submitted, those handled and the messages given to the aggregator.\<close>

record BackSourcer =
  taskChan :: "BackSourceTask list"
  chan_closed :: bool
  back_workers :: "back_worker list"
  submitted :: "BackSourceTask list"
  handled :: "BackSourceTask list"
  answers :: "aggregatorMsg list"

definition taskQueueSize :: nat where "taskQueueSize = 100000"

definition back_worker_count :: "int \<Rightarrow> nat" where
  "back_worker_count configured = (if configured \<le> 0 then 100 else nat configured)"

definition NewBackSourcerWithProtocol :: "int \<Rightarrow> BackSourcer" where
  "NewBackSourcerWithProtocol configured =
     \<lparr>taskChan = [], chan_closed = False, back_workers = replicate (back_worker_count configured) Idle, submitted = [], handled = [], answers = []\<rparr>"

text \<open>\<^verbatim>\<open>Submit\<close> blocks on a full queue and panics on a closed one.\<close>

definition bs_Submit :: "BackSourceTask \<Rightarrow> BackSourcer \<Rightarrow> BackSourcer result option" where
  "bs_Submit task bs =
     (if chan_closed bs then Some (Inl (GoPanic ''send on closed channel''))
      else if length (taskChan bs) < taskQueueSize then Some (Inr (bs\<lparr>taskChan := taskChan bs @ [task], submitted := submitted bs @ [task]\<rparr>))
      else None)"

definition bs_Close :: "BackSourcer \<Rightarrow> BackSourcer result" where
  "bs_Close bs = (if chan_closed bs then Inl (GoPanic ''close of closed channel'') else Inr (bs\<lparr>chan_closed := True\<rparr>))"

text \<open>One step of a worker: it takes a task, ends the loop over the closed channel, or finishes its task.\<close>

definition back_work :: "origin \<Rightarrow> nat \<Rightarrow> BackSourcer \<Rightarrow> BackSourcer result option" where
  "back_work DoRequest i bs =
     (case back_workers bs ! i of
        Idle \<Rightarrow>
          (case taskChan bs of
             task # ts \<Rightarrow> Some (Inr (bs\<lparr>taskChan := ts, back_workers := (back_workers bs)[i := Busy task]\<rparr>))
           | [] \<Rightarrow> if chan_closed bs then Some (Inr (bs\<lparr>back_workers := (back_workers bs)[i := Done]\<rparr>)) else None)
      | Busy task \<Rightarrow>
          (case doOriginRequest DoRequest task of
             Inl f \<Rightarrow> Some (Inl f)
           | Inr m \<Rightarrow> Some (Inr (bs\<lparr>back_workers := (back_workers bs)[i := Idle], handled := handled bs @ [task],
                                  answers := answers bs @ (case m of None \<Rightarrow> [] | Some a \<Rightarrow> [a])\<rparr>)))
      | Done \<Rightarrow> None)"

inductive back_step :: "origin \<Rightarrow> BackSourcer \<Rightarrow> BackSourcer \<Rightarrow> bool" for DoRequest where
  submit: "bs_Submit task bs = Some (Inr bs') \<Longrightarrow> back_step DoRequest bs bs'"
| work: "i < length (back_workers bs) \<Longrightarrow> back_work DoRequest i bs = Some (Inr bs') \<Longrightarrow> back_step DoRequest bs bs'"
| close: "bs_Close bs = Inr bs' \<Longrightarrow> back_step DoRequest bs bs'"

text \<open>A sample task and an origin server that answers with no data.\<close>

definition ex_back_task :: BackSourceTask where
  "ex_back_task = \<lparr>t_HopIP = [1, 2, 3, 0], t_Port = 80, t_UserID = 7, OriginAddr = ''0.0.0.3:80'', ReqData = [5]\<rparr>"

definition ex_origin :: origin where
  "ex_origin addr req = Some []"

text \<open>The tasks in the hands of the workers, the messages of a list of tasks, the invariant and the work left.\<close>

definition in_hand :: "BackSourcer \<Rightarrow> BackSourceTask list" where
  "in_hand bs = concat (map (\<lambda>w. case w of Busy t \<Rightarrow> [t] | _ \<Rightarrow> []) (back_workers bs))"

definition messages_of :: "origin \<Rightarrow> BackSourceTask list \<Rightarrow> aggregatorMsg list" where
  "messages_of DoRequest ts = concat (map (\<lambda>t. case doOriginRequest DoRequest t of Inr (Some m) \<Rightarrow> [m] | _ \<Rightarrow> []) ts)"

definition back_inv :: "origin \<Rightarrow> BackSourcer \<Rightarrow> bool" where
  "back_inv DoRequest bs = (mset (submitted bs) = mset (taskChan bs) + mset (in_hand bs) + mset (handled bs)
     \<and> answers bs = messages_of DoRequest (handled bs) \<and> back_workers bs \<noteq> []
     \<and> (Done \<in> set (back_workers bs) \<longrightarrow> chan_closed bs \<and> taskChan bs = []) \<and> length (taskChan bs) \<le> taskQueueSize)"

definition back_work_left :: "BackSourcer \<Rightarrow> nat" where
  "back_work_left bs = 2 * length (taskChan bs) + sum_list (map (\<lambda>w. case w of Idle \<Rightarrow> 1 | Busy _ \<Rightarrow> 2 | Done \<Rightarrow> 0) (back_workers bs))"

section \<open>Lemmas\<close>

lemma sum_list_swap:
  assumes "i < length xs"
  shows "sum_list (map f (xs[i := y])) + f (xs ! i) = sum_list (map f xs) + (f y :: nat)"
proof -
  have xs: "xs = take i xs @ xs ! i # drop (Suc i) xs" using assms by (rule id_take_nth_drop)
  have upd: "xs[i := y] = take i xs @ y # drop (Suc i) xs" using assms by (rule upd_conv_take_nth_drop)
  have "sum_list (map f xs) = sum_list (map f (take i xs)) + f (xs ! i) + sum_list (map f (drop (Suc i) xs))"
    by (subst xs) simp
  then show ?thesis unfolding upd by simp
qed

lemma concat_swap:
  assumes "i < length xs"
  shows "mset (concat (map f (xs[i := y]))) + mset (f (xs ! i)) = mset (concat (map f xs)) + mset (f y)"
proof -
  have xs: "xs = take i xs @ xs ! i # drop (Suc i) xs" using assms by (rule id_take_nth_drop)
  have upd: "xs[i := y] = take i xs @ y # drop (Suc i) xs" using assms by (rule upd_conv_take_nth_drop)
  have "mset (concat (map f xs)) = mset (concat (map f (take i xs))) + mset (f (xs ! i)) + mset (concat (map f (drop (Suc i) xs)))"
    by (subst xs) simp
  then show ?thesis unfolding upd by simp
qed

lemma in_hand_set:
  assumes "i < length (back_workers bs)"
  shows "mset (in_hand (bs\<lparr>back_workers := (back_workers bs)[i := w]\<rparr>)) + mset (case back_workers bs ! i of Busy t \<Rightarrow> [t] | _ \<Rightarrow> [])
    = mset (in_hand bs) + mset (case w of Busy t \<Rightarrow> [t] | _ \<Rightarrow> [])"
  using concat_swap [OF assms, of "\<lambda>w. case w of Busy t \<Rightarrow> [t] | _ \<Rightarrow> []" w] by (simp add: in_hand_def)

lemma back_inv_start: "back_inv DoRequest (NewBackSourcerWithProtocol n)"
  by (simp add: back_inv_def NewBackSourcerWithProtocol_def in_hand_def messages_of_def back_worker_count_def)

lemma work_inv:
  assumes "back_inv DoRequest bs" "i < length (back_workers bs)" "back_work DoRequest i bs = Some (Inr bs')"
  shows "back_inv DoRequest bs'" and "back_work_left bs = Suc (back_work_left bs')"
proof -
  let ?cost = "\<lambda>w. case w of Idle \<Rightarrow> 1 | Busy _ \<Rightarrow> 2 | Done \<Rightarrow> (0 :: nat)"
  note swap = sum_list_swap [OF assms(2), of ?cost]
  have upd: "set ((back_workers bs)[i := w]) \<subseteq> insert w (set (back_workers bs))" for w by (rule set_update_subset_insert)
  have ne: "(back_workers bs)[i := w] \<noteq> []" for w using assms(2) by auto
  have mem: "back_workers bs ! i \<in> set (back_workers bs)" using assms(2) by simp
  have "back_inv DoRequest bs' \<and> back_work_left bs = Suc (back_work_left bs')"
  proof (cases "back_workers bs ! i")
    case Idle
    show ?thesis
    proof (cases "taskChan bs")
      case (Cons t ts)
      then have bs': "bs' = bs\<lparr>taskChan := ts, back_workers := (back_workers bs)[i := Busy t]\<rparr>"
        using assms(3) Idle by (simp add: back_work_def)
      have hand: "mset (in_hand bs') = mset (in_hand bs) + {#t#}"
        using in_hand_set [OF assms(2), of "Busy t"] Idle by (simp add: bs' in_hand_def)
      have "Done \<notin> set (back_workers bs')" using assms(1) Cons upd [of "Busy t"] by (auto simp: back_inv_def bs')
      with assms(1) Cons hand ne swap [of "Busy t"] Idle show ?thesis by (simp add: back_inv_def bs' back_work_left_def)
    next
      case Nil
      then have bs': "bs' = bs\<lparr>back_workers := (back_workers bs)[i := Done]\<rparr>" "chan_closed bs"
        using assms(3) Idle by (simp_all add: back_work_def split: if_splits)
      have "mset (in_hand bs') = mset (in_hand bs)" using in_hand_set [OF assms(2), of Done] Idle by (simp add: bs')
      with assms(1) bs' Nil ne swap [of Done] Idle show ?thesis by (simp add: back_inv_def back_work_left_def)
    qed
  next
    case (Busy t)
    then obtain m where m: "doOriginRequest DoRequest t = Inr m" using assms(3) by (auto simp: back_work_def split: sum.splits)
    have bs': "bs' = bs\<lparr>back_workers := (back_workers bs)[i := Idle], handled := handled bs @ [t],
        answers := answers bs @ (case m of None \<Rightarrow> [] | Some a \<Rightarrow> [a])\<rparr>"
      using assms(3) Busy m by (simp add: back_work_def)
    have hand: "mset (in_hand bs') + {#t#} = mset (in_hand bs)"
      using in_hand_set [OF assms(2), of Idle] Busy by (simp add: bs' in_hand_def)
    have "messages_of DoRequest (handled bs @ [t]) = messages_of DoRequest (handled bs) @ (case m of None \<Rightarrow> [] | Some a \<Rightarrow> [a])"
      by (simp add: messages_of_def m split: option.split)
    moreover have "Done \<in> set (back_workers bs') \<Longrightarrow> Done \<in> set (back_workers bs)" using upd [of Idle] by (auto simp: bs')
    ultimately show ?thesis using assms(1) hand [symmetric] ne swap [of Idle] Busy
      by (auto simp: back_inv_def bs' back_work_left_def)
  next
    case Done
    with assms(3) show ?thesis by (simp add: back_work_def)
  qed
  then show "back_inv DoRequest bs'" "back_work_left bs = Suc (back_work_left bs')" by auto
qed

lemma step_back_inv:
  assumes "back_step DoRequest bs bs'" "back_inv DoRequest bs"
  shows "back_inv DoRequest bs'"
  using assms(1)
proof cases
  case (submit task)
  then have bs': "bs' = bs\<lparr>taskChan := taskChan bs @ [task], submitted := submitted bs @ [task]\<rparr>" "\<not> chan_closed bs" "length (taskChan bs) < taskQueueSize"
    by (simp_all add: bs_Submit_def split: if_splits)
  have "in_hand bs' = in_hand bs" by (simp add: bs' in_hand_def)
  with assms(2) bs' show ?thesis by (auto simp: back_inv_def)
next
  case (work i)
  with assms(2) show ?thesis by (rule work_inv(1))
next
  case close
  then have bs': "bs' = bs\<lparr>chan_closed := True\<rparr>" by (simp add: bs_Close_def split: if_splits)
  have "in_hand bs' = in_hand bs" by (simp add: bs' in_hand_def)
  with assms(2) bs' show ?thesis by (auto simp: back_inv_def)
qed

lemma reach_back_inv: "(back_step DoRequest)\<^sup>*\<^sup>* (NewBackSourcerWithProtocol n) bs \<Longrightarrow> back_inv DoRequest bs"
  by (induction rule: rtranclp_induct) (auto intro: back_inv_start step_back_inv)

text \<open>After a close the workers cannot get stuck before all of them have returned.\<close>

lemma closed_progress:
  assumes "chan_closed bs" "\<exists>w \<in> set (back_workers bs). w \<noteq> Done"
  shows "\<exists>i r. i < length (back_workers bs) \<and> back_work DoRequest i bs = Some r"
proof -
  obtain i where i: "i < length (back_workers bs)" "back_workers bs ! i \<noteq> Done" using assms(2) by (auto simp: in_set_conv_nth)
  then have "\<exists>r. back_work DoRequest i bs = Some r"
    using assms(1) by (cases "back_workers bs ! i") (auto simp: back_work_def split: list.splits sum.splits)
  with i(1) show ?thesis by blast
qed

section \<open>Properties\<close>

text \<open>
  C38: A back-sourcer handles every task once and closes cleanly. However submitting, working and closing interleave, the tasks
  submitted are those waiting, those in the hands of the workers and those handled, and the messages given to the response
  aggregator are exactly those of the handled tasks, in order. Every step of a worker leaves less work. Once the queue is closed
  no deadlock is possible: some worker has a step, or the request it performs panics, until all have returned, and then every task
  that was ever submitted has been handled.
\<close>

theorem back_sourcer_drains:
  assumes "(back_step DoRequest)\<^sup>*\<^sup>* (NewBackSourcerWithProtocol n) bs"
  shows "mset (submitted bs) = mset (taskChan bs) + mset (in_hand bs) + mset (handled bs)
    \<and> answers bs = messages_of DoRequest (handled bs)
    \<and> (\<forall>i bs'. i < length (back_workers bs) \<and> back_work DoRequest i bs = Some (Inr bs') \<longrightarrow> back_work_left bs' < back_work_left bs)
    \<and> (chan_closed bs \<longrightarrow>
         (if \<forall>w \<in> set (back_workers bs). w = Done then mset (handled bs) = mset (submitted bs)
          else \<exists>i r. i < length (back_workers bs) \<and> back_work DoRequest i bs = Some r))"
proof -
  note inv = reach_back_inv [OF assms]
  have all: "mset (handled bs) = mset (submitted bs)" if "\<forall>w \<in> set (back_workers bs). w = Done"
  proof -
    have "in_hand bs = []" using that by (auto simp: in_hand_def)
    moreover have "taskChan bs = []" using inv that by (cases "back_workers bs") (auto simp: back_inv_def)
    ultimately show ?thesis using inv by (simp add: back_inv_def)
  qed
  have left: "back_work_left bs' < back_work_left bs" if "i < length (back_workers bs)" "back_work DoRequest i bs = Some (Inr bs')" for i bs'
    using work_inv(2) [OF inv that] by simp
  show ?thesis using inv all left closed_progress [of bs DoRequest] by (auto simp: back_inv_def)
qed

theorem back_sourcer_drains_witness:
  "\<exists>bs. (back_step ex_origin)\<^sup>*\<^sup>* (NewBackSourcerWithProtocol 1) bs \<and> back_workers bs = [Done] \<and> submitted bs = [ex_back_task]
     \<and> mset (handled bs) = {#ex_back_task#} \<and> answers bs = messages_of ex_origin (handled bs)"
proof -
  let ?s = "\<lambda>q c w a h. \<lparr>taskChan = q, chan_closed = c, back_workers = [w], submitted = a, handled = h, answers = []\<rparr>"
  let ?t = ex_back_task
  have s0: "NewBackSourcerWithProtocol 1 = ?s [] False Idle [] []" by (simp add: NewBackSourcerWithProtocol_def back_worker_count_def)
  have 1: "back_step ex_origin (?s [] False Idle [] []) (?s [?t] False Idle [?t] [])"
    by (rule back_step.submit [of ?t]) (simp add: bs_Submit_def taskQueueSize_def)
  have 2: "back_step ex_origin (?s [?t] False Idle [?t] []) (?s [] False (Busy ?t) [?t] [])"
    by (rule back_step.work [of 0]) (simp_all add: back_work_def)
  have 3: "back_step ex_origin (?s [] False (Busy ?t) [?t] []) (?s [] True (Busy ?t) [?t] [])"
    by (rule back_step.close) (simp add: bs_Close_def)
  have 4: "back_step ex_origin (?s [] True (Busy ?t) [?t] []) (?s [] True Idle [?t] [?t])"
    by (rule back_step.work [of 0]) (simp_all add: back_work_def doOriginRequest_def ex_origin_def)
  have 5: "back_step ex_origin (?s [] True Idle [?t] [?t]) (?s [] True Done [?t] [?t])"
    by (rule back_step.work [of 0]) (simp_all add: back_work_def)
  note into = rtranclp.rtrancl_into_rtrancl
  have run: "(back_step ex_origin)\<^sup>*\<^sup>* (NewBackSourcerWithProtocol 1) (?s [] True Done [?t] [?t])"
    unfolding s0 by (rule into [OF into [OF into [OF into [OF r_into_rtranclp]]]]) (fact 1 2 3 4 5)+
  show ?thesis using back_sourcer_drains [OF run] run by (intro exI [of _ "?s [] True Done [?t] [?t]"]) simp
qed

end
