(* ===== verification/Yaml_Config.thy ===== *)
theory Yaml_Config
  imports Sky_Prelude
begin

text \<open>
  The configuration of the three programs: \<^verbatim>\<open>src/data-proxy/config/config.go\<close>, \<^verbatim>\<open>src/data-plane/util/config.go\<close> and
  \<^verbatim>\<open>src/control-plane/util/config.go\<close>. The file system and the YAML decoder are arguments. A path is absolute and clean, as the
  paths of the executable and of the working directory are: the list of its components, the root being the empty list.
\<close>

section \<open>Definitions\<close>

type_synonym fpath = "string list"

text \<open>A file is absent, present but not readable, or readable with some contents.\<close>

datatype file_state = Absent | Unreadable string | HasText string

type_synonym file_system = "fpath \<Rightarrow> file_state"

record SharedNode =
  sn_Provider :: string
  sn_Continent :: string
  sn_Country :: string
  sn_City :: string
  sn_Private :: string
  sn_Public :: string

text \<open>\<^verbatim>\<open>findNodeConfig\<close>: from the start upwards, without the root.\<close>

function findNodeConfig :: "file_system \<Rightarrow> fpath \<Rightarrow> fpath option" where
  "findNodeConfig fs dir =
     (if dir = [] then None
      else if fs (dir @ [''config'', ''node.yaml'']) \<noteq> Absent then Some (dir @ [''config'', ''node.yaml''])
      else findNodeConfig fs (butlast dir))"
  by pat_completeness auto
termination
  by (relation "measure (\<lambda>(fs, dir). length dir)") auto

declare findNodeConfig.simps [simp del]

text \<open>The shared node section: above the executable, or above the working directory; a file that cannot be read or decoded is ignored.\<close>

definition shared_path :: "file_system \<Rightarrow> fpath \<Rightarrow> fpath option \<Rightarrow> fpath option" where
  "shared_path fs exeDir cwd =
     (case findNodeConfig fs exeDir of
        Some p \<Rightarrow> Some p
      | None \<Rightarrow> (case cwd of None \<Rightarrow> None | Some d \<Rightarrow> findNodeConfig fs d))"

definition load_node :: "(string \<Rightarrow> SharedNode option) \<Rightarrow> file_system \<Rightarrow> fpath \<Rightarrow> fpath option \<Rightarrow> SharedNode \<Rightarrow> SharedNode" where
  "load_node yamlNode fs exeDir cwd own =
     (if sn_Provider own = []
      then case shared_path fs exeDir cwd of
             None \<Rightarrow> own
           | Some p \<Rightarrow>
               (case fs p of
                  HasText content \<Rightarrow> (case yamlNode content of None \<Rightarrow> own | Some n \<Rightarrow> n)
                | _ \<Rightarrow> own)
      else own)"

text \<open>Reading the file beside the executable.\<close>

definition read_yaml :: "(string \<Rightarrow> string + 'c) \<Rightarrow> file_system \<Rightarrow> string + fpath \<Rightarrow> 'c result" where
  "read_yaml yaml fs exePath =
     (case exePath of
        Inl err \<Rightarrow> Inl (GoError (''failed to get executable path: '' @ err))
      | Inr exe \<Rightarrow>
          (case fs (butlast exe @ [''config.yaml'']) of
             Absent \<Rightarrow> Inl (GoError ''configuration file does not exist'')
           | Unreadable err \<Rightarrow> Inl (GoError (''failed to read configuration file: '' @ err))
           | HasText content \<Rightarrow>
               (case yaml content of
                  Inl err \<Rightarrow> Inl (GoError (''failed to parse yaml: '' @ err))
                | Inr config \<Rightarrow> Inr config)))"

definition exe_dir :: "string + fpath \<Rightarrow> fpath" where
  "exe_dir exePath = (case exePath of Inl _ \<Rightarrow> [] | Inr exe \<Rightarrow> butlast exe)"

subsection \<open>The data proxy\<close>

record Listener =
  ls_Proto :: string
  ls_Port :: int
  ls_BatchNum :: int

record ProxyConfig =
  px_Port :: string
  px_ControlHost :: string
  px_TestRouting :: "(int \<times> string) list"
  px_AggWorkerNum :: int
  px_AggWorkerCount :: int
  px_TcpWorkerCount :: int
  px_BackWorkerCount :: int
  px_TunnelConcurrentLimit :: int
  px_Listeners :: "Listener list"
  px_RateLimit :: "int \<times> int \<times> int"
  px_Aggregator :: "int \<times> int"
  px_Node :: SharedNode

definition test_path_map :: "(int \<times> string) list \<Rightarrow> (int, string) gomap" where
  "test_path_map ts = foldl (\<lambda>m v. gm_set m (fst v) (snd v)) [] ts"

definition batch_num_map :: "Listener list \<Rightarrow> (u16, int) gomap" where
  "batch_num_map ls = foldl (\<lambda>m v. gm_set m (of_int (ls_Port v)) (ls_BatchNum v)) [] ls"

text \<open>The configuration with the two maps it sets.\<close>

definition proxy_ReadYamlConfig ::
  "(string \<Rightarrow> string + ProxyConfig) \<Rightarrow> (string \<Rightarrow> SharedNode option) \<Rightarrow> file_system \<Rightarrow> string + fpath \<Rightarrow> fpath option
     \<Rightarrow> (ProxyConfig \<times> (int, string) gomap \<times> (u16, int) gomap) result" where
  "proxy_ReadYamlConfig yaml yamlNode fs exePath cwd =
     bindr (read_yaml yaml fs exePath) (\<lambda>config.
       let config = config\<lparr>px_Node := load_node yamlNode fs (exe_dir exePath) cwd (px_Node config)\<rparr>
       in Inr (config, test_path_map (px_TestRouting config), batch_num_map (px_Listeners config)))"

subsection \<open>The data plane and the control plane\<close>

record PlaneConfig =
  pl_ControlHost :: string
  pl_AccessLog :: string
  pl_Node :: SharedNode

definition plane_ReadYamlConfig ::
  "(string \<Rightarrow> string + PlaneConfig) \<Rightarrow> (string \<Rightarrow> SharedNode option) \<Rightarrow> file_system \<Rightarrow> string + fpath \<Rightarrow> fpath option \<Rightarrow> PlaneConfig result" where
  "plane_ReadYamlConfig yaml yamlNode fs exePath cwd =
     bindr (read_yaml yaml fs exePath) (\<lambda>config.
       Inr (config\<lparr>pl_Node := load_node yamlNode fs (exe_dir exePath) cwd (pl_Node config)\<rparr>))"

record ControlConfig =
  cc_IpLib :: string
  cc_ServerList :: "string list"
  cc_ServerIP :: string
  cc_DataDir :: string
  cc_Node :: SharedNode

definition control_ReadYamlConfig ::
  "(string \<Rightarrow> string + ControlConfig) \<Rightarrow> (string \<Rightarrow> SharedNode option) \<Rightarrow> file_system \<Rightarrow> string + fpath \<Rightarrow> fpath option \<Rightarrow> ControlConfig result" where
  "control_ReadYamlConfig yaml yamlNode fs exePath cwd =
     bindr (read_yaml yaml fs exePath) (\<lambda>config.
       Inr (config\<lparr>cc_Node := load_node yamlNode fs (exe_dir exePath) cwd (cc_Node config)\<rparr>))"

section \<open>Lemmas\<close>

text \<open>The file found is that of the nearest directory above the start that has one; the root is never looked at.\<close>

lemma findNodeConfig_spec:
  "case findNodeConfig fs dir of
     Some p \<Rightarrow> \<exists>k. 0 < k \<and> k \<le> length dir \<and> p = take k dir @ [''config'', ''node.yaml''] \<and> fs p \<noteq> Absent
       \<and> (\<forall>j. k < j \<and> j \<le> length dir \<longrightarrow> fs (take j dir @ [''config'', ''node.yaml'']) = Absent)
   | None \<Rightarrow> \<forall>k. 0 < k \<and> k \<le> length dir \<longrightarrow> fs (take k dir @ [''config'', ''node.yaml'']) = Absent"
proof (induction fs dir rule: findNodeConfig.induct)
  case (1 fs dir)
  let ?c = "[''config'', ''node.yaml'']"
  consider "dir = []" | "dir \<noteq> []" "fs (dir @ ?c) \<noteq> Absent" | "dir \<noteq> []" "fs (dir @ ?c) = Absent" by blast
  then show ?case
  proof cases
    case 2
    then show ?thesis by (auto simp: findNodeConfig.simps [of fs dir] intro!: exI [of _ "length dir"])
  next
    case 3
    have eq: "findNodeConfig fs dir = findNodeConfig fs (butlast dir)" using 3 by (simp add: findNodeConfig.simps [of fs dir])
    have top: "fs (take k dir @ ?c) = Absent" if "k = length dir" for k using that 3(2) by simp
    have low: "take k (butlast dir) = take k dir" if "k < length dir" for k using that by (simp add: take_butlast)
    note IH = 1 [OF 3(1)]
    show ?thesis
    proof (cases "findNodeConfig fs (butlast dir)")
      case None
      with IH 3(2) have *: "0 < k \<and> k \<le> length (butlast dir) \<longrightarrow> fs (take k (butlast dir) @ ?c) = Absent" for k by simp
      have "fs (take k dir @ ?c) = Absent" if "0 < k" "k \<le> length dir" for k
        using * [of k] top [of k] low [of k] that by (cases "k = length dir") auto
      with eq None show ?thesis by simp
    next
      case (Some p)
      with IH 3(2) obtain k where k: "0 < k" "k \<le> length (butlast dir)" "p = take k (butlast dir) @ ?c" "fs p \<noteq> Absent"
        "\<forall>j. k < j \<and> j \<le> length (butlast dir) \<longrightarrow> fs (take j (butlast dir) @ ?c) = Absent" by auto
      have lt: "k < length dir" using k(1, 2) unfolding length_butlast by linarith
      have "fs (take j dir @ ?c) = Absent" if "k < j" "j \<le> length dir" for j
        using k(5) top [of j] low [of j] that by (cases "j = length dir") auto
      with eq Some k lt show ?thesis by (auto simp: low intro!: exI [of _ k])
    qed
  qed (simp add: findNodeConfig.simps [of fs "[]"])
qed

lemma root_never_read: "findNodeConfig fs [] = None"
  by (simp add: findNodeConfig.simps [of fs "[]"])

lemma load_node_own: "sn_Provider own \<noteq> [] \<Longrightarrow> load_node yamlNode fs exeDir cwd own = own"
  by (simp add: load_node_def)

text \<open>The last listener of a port decides; ports are taken modulo 65536.\<close>

lemma batch_num_get:
  "gm_get (batch_num_map ls) p = (case filter (\<lambda>v. of_int (ls_Port v) = p) ls of [] \<Rightarrow> None | vs \<Rightarrow> Some (ls_BatchNum (last vs)))"
proof -
  have "gm_get (foldl (\<lambda>m v. gm_set m (of_int (ls_Port v)) (ls_BatchNum v)) m ls) p
      = (case filter (\<lambda>v. of_int (ls_Port v) = p) ls of [] \<Rightarrow> gm_get m p | vs \<Rightarrow> Some (ls_BatchNum (last vs)))" for m :: "(u16, int) gomap"
    by (induction ls arbitrary: m) (auto simp: update_conv' split: list.splits)
  then show ?thesis by (simp add: batch_num_map_def split: list.split)
qed

lemma port_collision: "gm_get (batch_num_map [\<lparr>ls_Proto = [], ls_Port = 80, ls_BatchNum = 1\<rparr>, \<lparr>ls_Proto = [], ls_Port = 65616, ls_BatchNum = 2\<rparr>]) 80 = Some 2"
  by (simp add: batch_num_get)

end
