(* ===== verification/Etcd_Sync.thy ===== *)
theory Etcd_Sync
  imports Graph_Manager
begin

text \<open>
  The control plane over etcd: the client calls of \<^verbatim>\<open>src/control-plane/sync/etcd_client/etcd_client.go\<close>, the settings of the
  embedded server (\<^verbatim>\<open>src/control-plane/sync/etcd_server/etcd_server.go\<close>) and the part of \<^verbatim>\<open>main\<close> that loads the overlay and then
  follows its changes (\<^verbatim>\<open>src/control-plane/main.go\<close>). The requests to etcd are arguments that give a value or an error; the events
  a watch delivers are the input of the handlers.
\<close>

section \<open>Definitions\<close>

subsection \<open>Client calls\<close>

definition PutKeyWithLease :: "(int \<Rightarrow> string + 'lease) \<Rightarrow> (string \<Rightarrow> string \<Rightarrow> 'lease \<Rightarrow> string option) \<Rightarrow> string \<Rightarrow> string \<Rightarrow> int \<Rightarrow> unit result" where
  "PutKeyWithLease grant put key val ttlSeconds =
     (case grant ttlSeconds of
        Inl err \<Rightarrow> Inl (GoError err)
      | Inr lease \<Rightarrow> (case put key val lease of Some err \<Rightarrow> Inl (GoError err) | None \<Rightarrow> Inr ()))"

text \<open>All keys of a prefix; without a key the map is nil.\<close>

definition GetPrefixAll :: "(string \<Rightarrow> string + (string \<times> string) list) \<Rightarrow> string \<Rightarrow> (string, string) gomap option result" where
  "GetPrefixAll get prefix =
     (case get prefix of
        Inl err \<Rightarrow> Inl (GoError err)
      | Inr kvs \<Rightarrow> if length kvs = 0 then Inr None else Inr (Some (foldl (\<lambda>m kv. gm_set m (fst kv) (snd kv)) [] kvs)))"

definition WatchPrefix :: "('s \<Rightarrow> string \<times> string \<times> string \<Rightarrow> 's) \<Rightarrow> 's \<Rightarrow> etcd_event list \<Rightarrow> 's" where
  "WatchPrefix callback s events = foldl (\<lambda>s ev. callback s (watch_args ev)) s events"

subsection \<open>The embedded server\<close>

definition etcd_name :: "string \<Rightarrow> string" where
  "etcd_name ip = ''etcd-'' @ map (\<lambda>c. if c = CHR ''.'' then CHR ''-'' else c) ip"

definition initial_cluster :: "string list \<Rightarrow> string" where
  "initial_cluster serverList = join '','' (map (\<lambda>ip. etcd_name ip @ ''=http://'' @ ip @ '':2380'') serverList)"

definition client_endpoints :: "string list \<Rightarrow> string list option" where
  "client_endpoints serverList = (if length serverList > 0 then Some (map (\<lambda>v. v @ '':2379'') serverList) else None)"

subsection \<open>Loading and following the overlay\<close>

definition load_overlay :: "(string \<Rightarrow> NodeTelemetry option) \<Rightarrow> (string, string) gomap option result \<Rightarrow> GraphManager" where
  "load_overlay unmarshal loaded =
     (case loaded of
        Inr (Some nodeMap) \<Rightarrow> load_nodes unmarshal nodeMap
      | _ \<Rightarrow> NewGraphManager)"

definition follow_overlay :: "(string \<Rightarrow> NodeTelemetry option) \<Rightarrow> (string \<Rightarrow> string + (string \<times> string) list) \<Rightarrow> etcd_event list \<Rightarrow> GraphManager" where
  "follow_overlay unmarshal get events =
     WatchPrefix (HandleRoutingWatchEvent unmarshal) (load_overlay unmarshal (GetPrefixAll get ''/routing-middle/'')) events"

text \<open>The key of a node, keys and values that fit, and the value each key had last.\<close>

definition node_key :: "string \<Rightarrow> string" where "node_key ip = ''/routing-middle/'' @ ip"

definition kv_fits :: "(string \<Rightarrow> NodeTelemetry option) \<Rightarrow> string \<times> string \<Rightarrow> bool" where
  "kv_fits unmarshal kv = (snd kv \<noteq> [] \<and> (case unmarshal (snd kv) of None \<Rightarrow> False | Some tel \<Rightarrow> fst kv = node_key (PublicIP tel)))"

fun last_put :: "(string, string) gomap \<Rightarrow> etcd_event \<Rightarrow> (string, string) gomap" where
  "last_put m (EPut created k v) = gm_set m k v"
| "last_put m (EDelete k) = gm_del m k"

fun put_fits :: "(string \<Rightarrow> NodeTelemetry option) \<Rightarrow> etcd_event \<Rightarrow> bool" where
  "put_fits unmarshal (EPut created k v) = kv_fits unmarshal (k, v)"
| "put_fits unmarshal (EDelete k) = False"

text \<open>The nodes of an overlay are those of a map of keys and values.\<close>

definition mirrors :: "(string \<Rightarrow> NodeTelemetry option) \<Rightarrow> (string, string) gomap \<Rightarrow> GraphManager \<Rightarrow> bool" where
  "mirrors unmarshal m g = (\<forall>ip. GetNode ip g = (case gm_get m (node_key ip) of None \<Rightarrow> None | Some v \<Rightarrow> unmarshal v))"

section \<open>Lemmas\<close>

lemma node_key_inj [simp]: "node_key a = node_key b \<longleftrightarrow> a = b"
  by (simp add: node_key_def)

lemma add_links_nodes: "g_nodes (foldl (add_link src) g vs) = g_nodes g"
  by (induction vs arbitrary: g) simp_all

lemma AddNode_get: "GetNode ip (AddNode tel g) = (if ip = PublicIP tel then Some tel else GetNode ip g)"
  by (simp add: AddNode_def GetNode_def add_links_nodes update_conv')

lemma mirrors_put:
  assumes "mirrors unmarshal m g" "kv_fits unmarshal (k, v)" "unmarshal v = Some tel"
  shows "mirrors unmarshal (gm_set m k v) (AddNode tel g)"
  using assms by (auto simp: mirrors_def kv_fits_def AddNode_get update_conv')

lemma load_mirrors:
  assumes "\<forall>kv \<in> set kvs. kv_fits unmarshal kv" "mirrors unmarshal m g"
  shows "mirrors unmarshal (foldl (\<lambda>m kv. gm_set m (fst kv) (snd kv)) m kvs)
    (foldl (\<lambda>r nodeJson. case unmarshal nodeJson of None \<Rightarrow> r | Some tel \<Rightarrow> AddNode tel r) g (gm_vals kvs))"
  using assms
proof (induction kvs arbitrary: m g)
  case (Cons kv kvs)
  then obtain tel where tel: "unmarshal (snd kv) = Some tel" by (cases "unmarshal (snd kv)") (auto simp: kv_fits_def)
  have "mirrors unmarshal (gm_set m (fst kv) (snd kv)) (AddNode tel g)"
    using Cons.prems tel by (intro mirrors_put) simp_all
  with Cons tel show ?case by simp
qed simp

lemma watch_mirrors:
  assumes "\<forall>ev \<in> set evs. put_fits unmarshal ev" "mirrors unmarshal m g"
  shows "mirrors unmarshal (foldl last_put m evs) (WatchPrefix (HandleRoutingWatchEvent unmarshal) g evs)"
  using assms
proof (induction evs arbitrary: m g)
  case (Cons ev evs)
  then obtain c k v where ev: "ev = EPut c k v" "kv_fits unmarshal (k, v)" by (cases ev) auto
  then obtain tel where tel: "unmarshal v = Some tel" "v \<noteq> []" by (cases "unmarshal v") (auto simp: kv_fits_def)
  have "HandleRoutingWatchEvent unmarshal g (watch_args ev) = AddNode tel g" using tel by (simp add: ev(1) HandleRoutingWatchEvent_def)
  moreover have "mirrors unmarshal (gm_set m k v) (AddNode tel g)" by (rule mirrors_put) (use Cons.prems ev tel in simp_all)
  ultimately show ?case using Cons by (simp add: WatchPrefix_def ev(1))
qed (simp add: WatchPrefix_def)

lemma cluster_entry_count: "serverList \<noteq> [] \<Longrightarrow> \<forall>ip \<in> set serverList. CHR '','' \<notin> set ip \<Longrightarrow>
    split (initial_cluster serverList) '','' = map (\<lambda>ip. etcd_name ip @ ''=http://'' @ ip @ '':2380'') serverList"
  unfolding initial_cluster_def by (rule split_join) (auto simp: etcd_name_def intro!: sep_safe_char split: if_splits)

section \<open>Properties\<close>



end
