(* ===== verification/Disaggregator.thy ===== *)
theory Disaggregator
  imports Sky_Prelude
begin

text \<open>
  \<^verbatim>\<open>src/data-proxy/disaggregator/disaggregator.go\<close>: the table of clients waiting for a response. A
  channel of capacity one is a queue with a closed flag in a store; the value a client holds is the
  index of its channel. \<^verbatim>\<open>Deliver\<close> looks the channel up under the lock and sends after giving the lock
  up: the two halves are separate definitions, so that other calls can run in between. A send on a
  full channel blocks, a send on a closed channel panics, as the language defines.
\<close>

section \<open>Definitions\<close>

record chan =
  queue :: "byte list list"
  closed :: bool

record Disaggregator =
  waiters :: "(u32, nat) gomap"
  chans :: "chan list"

definition NewDisaggregator :: Disaggregator where
  "NewDisaggregator = \<lparr>waiters = [], chans = []\<rparr>"

definition Register :: "Disaggregator \<Rightarrow> u32 \<Rightarrow> Disaggregator \<times> nat" where
  "Register d userID =
     (let ch = length (chans d) in
      (d\<lparr>chans := chans d @ [\<lparr>queue = [], closed = False\<rparr>], waiters := gm_set (waiters d) userID ch\<rparr>, ch))"

text \<open>The function \<^verbatim>\<open>cleanup\<close> that \<^verbatim>\<open>Register\<close> returns: closing a closed channel panics.\<close>

definition cleanup :: "Disaggregator \<Rightarrow> u32 \<Rightarrow> nat \<Rightarrow> Disaggregator result" where
  "cleanup d userID ch =
     (let d1 = d\<lparr>waiters := gm_del (waiters d) userID\<rparr> in
      if closed (chans d ! ch) then Inl (GoPanic ''close of closed channel'')
      else Inr (d1\<lparr>chans := (chans d1)[ch := (chans d ! ch)\<lparr>closed := True\<rparr>]\<rparr>))"

datatype send_outcome = Sent Disaggregator | Blocks

definition deliver_lookup :: "Disaggregator \<Rightarrow> u32 \<Rightarrow> nat option" where
  "deliver_lookup d userID = gm_get (waiters d) userID"

definition chan_send :: "Disaggregator \<Rightarrow> nat \<Rightarrow> byte list \<Rightarrow> send_outcome result" where
  "chan_send d ch dat =
     (if closed (chans d ! ch) then Inl (GoPanic ''send on closed channel'')
      else if length (queue (chans d ! ch)) \<ge> 1 then Inr Blocks
      else Inr (Sent (d\<lparr>chans := (chans d)[ch := (chans d ! ch)\<lparr>queue := queue (chans d ! ch) @ [dat]\<rparr>]\<rparr>)))"

definition Deliver :: "Disaggregator \<Rightarrow> u32 \<Rightarrow> byte list \<Rightarrow> send_outcome result" where
  "Deliver d userID dat =
     (case deliver_lookup d userID of None \<Rightarrow> Inr (Sent d) | Some ch \<Rightarrow> chan_send d ch dat)"

text \<open>The client's receive: \<^term>\<open>None\<close> while there is nothing to read.\<close>

definition chan_recv :: "Disaggregator \<Rightarrow> nat \<Rightarrow> (Disaggregator \<times> byte list) option" where
  "chan_recv d ch =
     (case queue (chans d ! ch) of
        [] \<Rightarrow> None
      | x # xs \<Rightarrow> Some (d\<lparr>chans := (chans d)[ch := (chans d ! ch)\<lparr>queue := xs\<rparr>]\<rparr>, x))"

text \<open>Every waiter has an allocated open channel of its own.\<close>

definition disagg_inv :: "Disaggregator \<Rightarrow> bool" where
  "disagg_inv d = (gm_ok (waiters d) \<and> distinct (map snd (waiters d))
     \<and> (\<forall>(u, c) \<in> set (waiters d). c < length (chans d) \<and> \<not> closed (chans d ! c))
     \<and> (\<forall>c \<in> set (chans d). length (queue c) \<le> 1))"

text \<open>The calls the program makes, as steps: a client registers, reads and cleans up; a packet delivers.\<close>

inductive dstep :: "Disaggregator \<Rightarrow> Disaggregator \<Rightarrow> bool" where
  register: "dstep d (fst (Register d u))"
| cleanup: "gm_get (waiters d) u = Some c \<Longrightarrow> cleanup d u c = Inr d' \<Longrightarrow> dstep d d'"
| deliver: "Deliver d u x = Inr (Sent d') \<Longrightarrow> dstep d d'"
| receive: "c < length (chans d) \<Longrightarrow> chan_recv d c = Some (d', x) \<Longrightarrow> dstep d d'"

inductive_cases dstepE: "dstep d d'"

section \<open>Lemmas\<close>

lemma inv_get:
  assumes "disagg_inv d" "gm_get (waiters d) u = Some c"
  shows "c < length (chans d)" "\<not> closed (chans d ! c)" "length (queue (chans d ! c)) \<le> 1"
    "gm_get (waiters d) v = Some c \<Longrightarrow> v = u"
proof -
  have mem: "(u, c) \<in> set (waiters d)" using assms(2) by (rule map_of_SomeD)
  then show c: "c < length (chans d)" "\<not> closed (chans d ! c)" using assms(1) by (auto simp: disagg_inv_def)
  then show "length (queue (chans d ! c)) \<le> 1" using assms(1) by (auto simp: disagg_inv_def)
  assume "gm_get (waiters d) v = Some c"
  then have "(v, c) \<in> set (waiters d)" by (rule map_of_SomeD)
  moreover have "inj_on snd (set (waiters d))" using assms(1) by (simp add: disagg_inv_def distinct_map)
  ultimately show "v = u" using mem by (metis Pair_inject inj_onD snd_conv)
qed

lemma snd_update_fresh:
  "n \<notin> set (map snd m) \<Longrightarrow> distinct (map snd m) \<Longrightarrow> distinct (map snd (gm_set m k n))
     \<and> snd ` set (gm_set m k n) \<subseteq> insert n (snd ` set m)"
  by (induction m) (auto simp: image_iff)

lemma Register_inv: "disagg_inv d \<Longrightarrow> disagg_inv (fst (Register d u))"
proof -
  assume inv: "disagg_inv d"
  let ?n = "length (chans d)"
  have "?n \<notin> set (map snd (waiters d))" using inv by (auto simp: disagg_inv_def)
  then have "distinct (map snd (gm_set (waiters d) u ?n))" using snd_update_fresh [of ?n "waiters d" u] inv by (simp add: disagg_inv_def)
  moreover have "c < Suc ?n \<and> \<not> closed ((chans d @ [\<lparr>queue = [], closed = False\<rparr>]) ! c)" if "(v, c) \<in> set (gm_set (waiters d) u ?n)" for v c
  proof -
    have "gm_get (gm_set (waiters d) u ?n) v = Some c"
      using that inv by (intro map_of_is_SomeI) (auto simp: disagg_inv_def distinct_update)
    then show ?thesis using inv_get(1,2) [OF inv, of v c]
      by (auto simp: update_conv' nth_append split: if_splits)
  qed
  ultimately show ?thesis using inv by (auto simp: disagg_inv_def Register_def Let_def distinct_update)
qed

lemma update_chan_inv:
  assumes "disagg_inv d" "c < length (chans d)" "closed x = closed (chans d ! c)" "length (queue x) \<le> 1"
  shows "disagg_inv (d\<lparr>chans := (chans d)[c := x]\<rparr>)"
  using assms set_update_subset_insert [of "chans d" c x] by (fastforce simp: disagg_inv_def nth_list_update)

lemma cleanup_inv:
  assumes "disagg_inv d" "gm_get (waiters d) u = Some c" "cleanup d u c = Inr d'"
  shows "disagg_inv d'"
proof -
  have d': "d' = d\<lparr>waiters := gm_del (waiters d) u, chans := (chans d)[c := (chans d ! c)\<lparr>closed := True\<rparr>]\<rparr>"
    using assms(3) by (auto simp: cleanup_def Let_def split: if_splits)
  have "distinct (map snd (gm_del (waiters d) u))"
    using assms(1) by (simp add: disagg_inv_def AList.delete_eq distinct_map_filter)
  moreover have "e < length (chans d) \<and> \<not> closed ((chans d)[c := (chans d ! c)\<lparr>closed := True\<rparr>] ! e)"
    if "(v, e) \<in> set (gm_del (waiters d) u)" for v e
  proof -
    have v: "gm_get (waiters d) v = Some e" "v \<noteq> u"
      using that assms(1) by (auto simp: AList.delete_eq disagg_inv_def)
    then have "e \<noteq> c" using inv_get(4) [OF assms(1,2)] by auto
    then show ?thesis using inv_get(1,2) [OF assms(1) v(1)] by simp
  qed
  moreover have "length (queue x) \<le> 1" if "x \<in> set ((chans d)[c := (chans d ! c)\<lparr>closed := True\<rparr>])" for x
    using that inv_get(3) [OF assms(1,2)] assms(1) set_update_subset_insert [of "chans d" c "(chans d ! c)\<lparr>closed := True\<rparr>"]
    by (auto simp: disagg_inv_def)
  ultimately show ?thesis using assms(1) by (auto simp: disagg_inv_def d' distinct_delete)
qed

lemma Deliver_inv:
  assumes "disagg_inv d" "Deliver d u x = Inr (Sent d')"
  shows "disagg_inv d'"
proof (cases "gm_get (waiters d) u")
  case (Some c)
  have "queue (chans d ! c) = []" "d' = d\<lparr>chans := (chans d)[c := (chans d ! c)\<lparr>queue := queue (chans d ! c) @ [x]\<rparr>]\<rparr>"
    using assms(2) Some by (auto simp: Deliver_def chan_send_def deliver_lookup_def Suc_le_eq split: if_splits)
  then show ?thesis using inv_get(1) [OF assms(1) Some] assms(1) by (auto intro: update_chan_inv)
qed (use assms in \<open>simp add: Deliver_def deliver_lookup_def\<close>)

lemma chan_recv_inv:
  assumes "disagg_inv d" "c < length (chans d)" "chan_recv d c = Some (d', x)"
  shows "disagg_inv d'"
proof -
  obtain xs where xs: "queue (chans d ! c) = x # xs" "d' = d\<lparr>chans := (chans d)[c := (chans d ! c)\<lparr>queue := xs\<rparr>]\<rparr>"
    using assms(3) by (auto simp: chan_recv_def split: list.splits)
  have "length (queue (chans d ! c)) \<le> 1" using assms(1,2) by (auto simp: disagg_inv_def)
  then show ?thesis unfolding xs(2) using assms(1,2) xs(1) by (intro update_chan_inv) auto
qed

lemma dstep_inv: "dstep d d' \<Longrightarrow> disagg_inv d \<Longrightarrow> disagg_inv d'"
  by (erule dstepE) (auto intro: Register_inv cleanup_inv Deliver_inv chan_recv_inv)

lemma reachable_inv: "dstep\<^sup>*\<^sup>* NewDisaggregator d \<Longrightarrow> disagg_inv d"
proof (induction rule: rtranclp_induct)
  case base
  show ?case by (simp add: NewDisaggregator_def disagg_inv_def)
qed (rule dstep_inv)

section \<open>Properties\<close>



text \<open>
  A registered client reads exactly the response delivered for its identifier: after Register, and
  after a delivery to any other identifier, Deliver succeeds and the client's next read returns the data.
\<close>

lemma register_deliver_receive:
  assumes "disagg_inv d" "Register d u = (d1, c)" "v \<noteq> u" "Deliver d1 v y = Inr (Sent d2)"
  shows "\<exists>d3 d4. Deliver d2 u x = Inr (Sent d3) \<and> chan_recv d3 c = Some (d4, x)"
proof -
  have c: "gm_get (waiters d1) u = Some c" "c < length (chans d1)" "chans d1 ! c = \<lparr>queue = [], closed = False\<rparr>"
    using assms(2) by (auto simp: Register_def Let_def update_conv' nth_append)
  have inv: "disagg_inv d1" using Register_inv [OF assms(1), of u] assms(2) by simp
  have "chans d2 ! c = chans d1 ! c \<and> waiters d2 = waiters d1 \<and> length (chans d2) = length (chans d1)"
  proof (cases "gm_get (waiters d1) v")
    case (Some e)
    then have "e \<noteq> c" using inv_get(4) [OF inv c(1), of v] assms(3) by blast
    then show ?thesis using assms(4) Some by (auto simp: Deliver_def deliver_lookup_def chan_send_def split: if_splits)
  qed (use assms(4) in \<open>simp add: Deliver_def deliver_lookup_def\<close>)
  then show ?thesis using c by (simp add: Deliver_def deliver_lookup_def chan_send_def chan_recv_def)
qed

text \<open>
  C11: the gap inside Deliver is unsafe. If the client cleans up between the lookup and the send, the send
  hits a closed channel and panics; for every registered client this interleaving exists.
\<close>

theorem deliver_cleanup_race:
  assumes "disagg_inv d" "gm_get (waiters d) u = Some c"
  shows "\<exists>d'. deliver_lookup d u = Some c \<and> cleanup d u c = Inr d' \<and> is_panic (chan_send d' c x)"
  using inv_get(1,2) [OF assms] assms(2) by (simp add: deliver_lookup_def cleanup_def chan_send_def Let_def)

theorem deliver_cleanup_race_witness:
  "\<exists>d'. cleanup (fst (Register NewDisaggregator 7)) 7 0 = Inr d' \<and> is_panic (chan_send d' 0 [1])"
proof -
  have "disagg_inv NewDisaggregator" by (simp add: NewDisaggregator_def disagg_inv_def)
  then have "disagg_inv (fst (Register NewDisaggregator 7))" by (rule Register_inv)
  moreover have "gm_get (waiters (fst (Register NewDisaggregator 7))) 7 = Some 0"
    by (simp add: Register_def NewDisaggregator_def Let_def)
  ultimately show ?thesis using deliver_cleanup_race by blast
qed

end
