(* ===== verification/Proxy_Server.thy ===== *)
theory Proxy_Server
  imports Control_API Back_Sourcer Disaggregator
begin

text \<open>
  \<^verbatim>\<open>src/data-proxy/server\<close>: the servers at the ingress of the tunnel. A connection is handled in two steps, up to the
  point where it waits for the answer and from the answer or the timeout on, since other connections and the tunnel
  act in between. Clocks are in nanoseconds. The exchange with the control plane, the network and the token buckets of
  the package \<^verbatim>\<open>golang.org/x/time/rate\<close> are arguments.
\<close>

section \<open>Definitions\<close>

subsection \<open>Routes\<close>

text \<open>\<^verbatim>\<open>routing.go\<close>. The request has the JSON fields of the request type of the control plane.\<close>

record RoutingResponse =
  rr_Code :: int
  rr_Msg :: string
  rr_Data :: RoutingInfo

definition zero_endpoint :: EndPoint where
  "zero_endpoint = \<lparr>ep_IP = [], ep_Port = 0, ep_Provider = [], ep_Continent = [], ep_Country = [], ep_City = []\<rparr>"

definition routing_request :: "string \<Rightarrow> int \<Rightarrow> EndPoints" where
  "routing_request publicIP prt = \<lparr>ep_Source = zero_endpoint\<lparr>ep_IP := publicIP\<rparr>, ep_Dest = zero_endpoint\<lparr>ep_Port := prt\<rparr>\<rparr>"

definition test_route :: "(int, string) gomap \<Rightarrow> string \<Rightarrow> int \<Rightarrow> RoutingInfo option" where
  "test_route testPaths publicIP prt =
     (case gm_get testPaths prt of
        None \<Rightarrow> None
      | Some path \<Rightarrow>
          (let hops = split path '','' in
           if length hops \<ge> 2 \<and> hops ! 0 = publicIP then Some \<lparr>Routing = [\<lparr>Hops = hops, Rtt = 0, RawRTT = 0\<rparr>]\<rparr> else None))"

definition GetRoutingFromControlPlane ::
  "(int, string) gomap \<Rightarrow> string \<Rightarrow> (EndPoints \<Rightarrow> string + RoutingResponse) \<Rightarrow> int \<Rightarrow> RoutingInfo" where
  "GetRoutingFromControlPlane testPaths publicIP post prt =
     (case test_route testPaths publicIP prt of
        Some info \<Rightarrow> info
      | None \<Rightarrow>
          (case post (routing_request publicIP prt) of
             Inl err \<Rightarrow> \<lparr>Routing = []\<rparr>
           | Inr resp \<Rightarrow> if rr_Code resp \<noteq> 200 then \<lparr>Routing = []\<rparr> else rr_Data resp))"

text \<open>\<^verbatim>\<open>handler.go\<close>: the routes of the ports.\<close>

record routeEntry =
  re_info :: RoutingInfo
  re_deadline :: int

type_synonym route_map = "(int, routeEntry) gomap"

definition routeTimeout :: int where "routeTimeout = 10 ^ 9"

definition store_route :: "int \<Rightarrow> int \<Rightarrow> RoutingInfo \<Rightarrow> route_map \<Rightarrow> route_map" where
  "store_route now prt info m = gm_set m prt \<lparr>re_info = info, re_deadline = now + routeTimeout\<rparr>"

text \<open>
  The route of a request: fetched and stored when there is none, otherwise the stored one; the last component tells
  that a refresh is started in the background, which ends with \<^const>\<open>store_route\<close> of what it fetched.
\<close>

definition route_for :: "int \<Rightarrow> int \<Rightarrow> RoutingInfo \<Rightarrow> int \<Rightarrow> route_map \<Rightarrow> RoutingInfo \<times> route_map \<times> bool" where
  "route_for now later fetched prt m =
     (case gm_get m prt of
        None \<Rightarrow> (fetched, store_route later prt fetched m, False)
      | Some ri \<Rightarrow> if now > re_deadline ri then (re_info ri, m, True) else (re_info ri, m, False))"

subsection \<open>Handing a request to the aggregator\<close>

record proxy =
  px_routes :: route_map
  px_disagg :: Disaggregator
  px_seq :: u64
  px_access :: "(string, int) gomap"
  px_input :: "aggregatorMsg list"

definition pick_path :: "PathInfo list \<Rightarrow> PathInfo" where
  "pick_path routing = (case List.find (\<lambda>p. length (Hops p) > 2) routing of Some p \<Rightarrow> p | None \<Rightarrow> routing ! 0)"

definition strip_hop :: "string list \<times> string \<Rightarrow> string \<Rightarrow> string list \<times> string" where
  "strip_hop hp h =
     (if contains_char h (CHR '':'') then (let t = split h '':'' in (fst hp @ [t ! 0], t ! 1)) else (fst hp @ [h], snd hp))"

definition split_hops :: "string list \<Rightarrow> string list \<times> string" where
  "split_hops hs = foldl strip_hop ([], []) hs"

text \<open>\<^verbatim>\<open>strconv.ParseUint(s, 10, 16)\<close> without its error: zero for a text that is no number, the maximum for one out of range.\<close>

definition ParseUint16 :: "string \<Rightarrow> u16" where
  "ParseUint16 s = (if s = [] \<or> \<not> list_all is_digit s then 0 else if dec_value s > 65535 then 65535 else of_nat (dec_value s))"

definition AddToBatch :: "aggregatorMsg \<Rightarrow> proxy \<Rightarrow> proxy" where
  "AddToBatch m st = st\<lparr>px_input := px_input st @ [m]\<rparr>"

definition submit :: "bool \<Rightarrow> string \<Rightarrow> PathInfo \<Rightarrow> u32 \<Rightarrow> byte list \<Rightarrow> proxy \<Rightarrow> (proxy \<times> nat) result" where
  "submit udp proto pathInfo reqID dat st =
     bindr (go_index (Hops pathInfo) 1) (\<lambda>h.
       let nh = HopIPToNet h;
           (hs, portText) = split_hops (Hops pathInfo);
           (d, ch) = Register (px_disagg st) reqID;
           m = \<lparr>emerge = udp, routingKey = join '','' hs, protocol = proto, port = ParseUint16 portText,
                routingInfo = \<lparr>Hops = hs, Rtt = 0, RawRTT = 0\<rparr>, nextHop = nh, userID = reqID, data = dat\<rparr>
       in Inr (AddToBatch m (st\<lparr>px_disagg := d\<rparr>), ch))"

subsection \<open>TCP\<close>

record TCPServer =
  ts_protocol :: string
  ts_keepAlive :: bool
  ts_keepAliveTime :: int

definition NewTCPServer :: "bool \<Rightarrow> int \<Rightarrow> TCPServer" where
  "NewTCPServer keepAlive keepAliveTime =
     \<lparr>ts_protocol = ''tcp'', ts_keepAlive = keepAlive, ts_keepAliveTime = (if keepAliveTime = 0 then 30 * 10 ^ 9 else keepAliveTime)\<rparr>"

definition worker_count :: "int \<Rightarrow> int" where
  "worker_count configured = (if configured \<le> 0 then 1000 else configured)"

definition accessWindow :: int where "accessWindow = 5 * 10 ^ 9"

definition shouldLogAccess :: "int \<Rightarrow> string \<Rightarrow> (string, int) gomap \<Rightarrow> bool \<times> (string, int) gomap" where
  "shouldLogAccess now clientIP m =
     (case gm_get m clientIP of
        None \<Rightarrow> (True, gm_set m clientIP now)
      | Some lastTime \<Rightarrow> if now - lastTime \<ge> accessWindow then (True, gm_set m clientIP now) else (False, m))"

text \<open>The accept loop: a short connection is queued for the workers, a long one takes one of the places; otherwise it is closed.\<close>

definition maxPendingConns :: nat where "maxPendingConns = 100000"

definition longConnLimit :: nat where "longConnLimit = 512"

datatype 'c accepted = Queued | Spawned | Refused

definition accept_conn :: "TCPServer \<Rightarrow> 'c \<Rightarrow> 'c list \<times> nat \<Rightarrow> 'c accepted \<times> 'c list \<times> nat" where
  "accept_conn t conn cl =
     (let (connChan, longConns) = cl in
      if ts_keepAlive t
      then (if longConns < longConnLimit then (Spawned, connChan, longConns + 1) else (Refused, connChan, longConns))
      else if length connChan < maxPendingConns then (Queued, connChan @ [conn], longConns) else (Refused, connChan, longConns))"

text \<open>What a handler meets: the client, the port, the clock before and after the exchange with the control plane, the answer of the control plane and the round-trip time of the connection.\<close>

record arrival =
  ar_clientIP :: string
  ar_port :: int
  ar_now :: int
  ar_later :: int
  ar_route :: RoutingInfo
  ar_rtt :: real

datatype outcome = Closed | Waiting u32 nat

definition log_access :: "arrival \<Rightarrow> proxy \<Rightarrow> proxy" where
  "log_access a st = (if ar_rtt a > 0 then st\<lparr>px_access := snd (shouldLogAccess (ar_now a) (ar_clientIP a) (px_access st))\<rparr> else st)"

definition tcp_serve :: "arrival \<Rightarrow> u32 \<Rightarrow> byte list \<Rightarrow> proxy \<Rightarrow> (outcome \<times> bool \<times> proxy) result" where
  "tcp_serve a reqID dat st =
     (let st = log_access a st;
          (info, routes, refresh) = route_for (ar_now a) (ar_later a) (ar_route a) (ar_port a) (px_routes st);
          st = st\<lparr>px_routes := routes\<rparr>
      in if length (Routing info) = 0 then Inr (Closed, refresh, st)
         else bindr (submit False ''tcp'' (pick_path (Routing info)) reqID dat st) (\<lambda>(st, ch). Inr (Waiting reqID ch, refresh, st)))"

definition next_reqID :: "string \<Rightarrow> proxy \<Rightarrow> u32 \<times> proxy" where
  "next_reqID clientIP st = (let (q, reqID) = GenShortReqID (px_seq st) clientIP in (reqID, st\<lparr>px_seq := q\<rparr>))"

text \<open>The bytes that the client sent before the deadline for reading.\<close>

definition handleConnection :: "arrival \<Rightarrow> byte list \<Rightarrow> proxy \<Rightarrow> (outcome \<times> bool \<times> proxy) result" where
  "handleConnection a stream st =
     (let (reqID, st) = next_reqID (ar_clientIP a) st in
      case ReadBytes_nl stream of
        None \<Rightarrow> Inr (Closed, False, st)
      | Some dat \<Rightarrow> tcp_serve a reqID dat st)"

text \<open>The end of the wait: the channel can be read, or the time is over. The result has the bytes written to the client.\<close>

datatype wait_event = Readable | TimedOut

definition tcp_finish :: "u32 \<Rightarrow> nat \<Rightarrow> wait_event \<Rightarrow> proxy \<Rightarrow> (byte list option \<times> proxy) result" where
  "tcp_finish reqID ch ev st =
     (let (resp, d) = (case ev of
          TimedOut \<Rightarrow> (None, px_disagg st)
        | Readable \<Rightarrow> (case chan_recv (px_disagg st) ch of Some (d, x) \<Rightarrow> (Some x, d) | None \<Rightarrow> (Some [], px_disagg st)))
      in bindr (cleanup d reqID ch) (\<lambda>d. Inr (resp, st\<lparr>px_disagg := d\<rparr>)))"

text \<open>
  Keep-alive connections. The bytes arrive in segments; each request is read through a new buffered reader, which takes whole
  segments until it has a line, so the rest of the last segment goes with the reader.
\<close>

fun read_line :: "byte list \<Rightarrow> byte list list \<Rightarrow> (byte list \<times> byte list list) option" where
  "read_line acc [] = None"
| "read_line acc (seg # segs) =
     (case ReadBytes_nl seg of
        Some dat \<Rightarrow> Some (acc @ dat, segs)
      | None \<Rightarrow> read_line (acc @ seg) segs)"

definition ka_request :: "arrival \<Rightarrow> u32 \<Rightarrow> byte list list \<Rightarrow> proxy \<Rightarrow> (outcome \<times> byte list list \<times> bool \<times> proxy) result" where
  "ka_request a reqID segs st =
     (case read_line [] segs of
        None \<Rightarrow> Inr (Closed, [], False, st)
      | Some (dat, segs) \<Rightarrow>
          if length dat = 0 then Inr (Closed, segs, False, st)
          else bindr (tcp_serve a reqID dat st) (\<lambda>(out, refresh, st). Inr (out, segs, refresh, st)))"

definition ka_finish :: "string \<Rightarrow> int \<Rightarrow> int \<Rightarrow> u32 \<Rightarrow> nat \<Rightarrow> wait_event \<Rightarrow> proxy \<Rightarrow> (byte list option \<times> u32 option \<times> proxy) result" where
  "ka_finish clientIP connDeadline now reqID ch ev st =
     bindr (tcp_finish reqID ch ev st) (\<lambda>(resp, st).
       let (reqID, st) = next_reqID clientIP st
       in Inr (resp, if now > connDeadline then None else Some reqID, st))"

definition directOriginProxy :: "(string \<Rightarrow> byte list \<Rightarrow> byte list option) \<Rightarrow> string \<Rightarrow> byte list \<Rightarrow> byte list option" where
  "directOriginProxy net originAddr dat = (case net originAddr dat of None \<Rightarrow> None | Some stream \<Rightarrow> ReadBytes_nl stream)"

subsection \<open>The rate limiter\<close>

record 'l IPLimiter =
  il_limiter :: 'l
  il_lastSeen :: int

record RateLimit =
  rl_QPS :: int
  rl_Burst :: int
  rl_CleanInterval :: int

record 'l PortLimiters =
  pl_limiters :: "(string, 'l IPLimiter) gomap"
  pl_config :: RateLimit
  pl_stopped :: bool

record 'l GlobalRateLimiter =
  grl_ports :: "(int, 'l PortLimiters) gomap"
  grl_config :: RateLimit

definition InitRateLimiter :: "RateLimit \<Rightarrow> 'l GlobalRateLimiter" where
  "InitRateLimiter cfg = \<lparr>grl_ports = [], grl_config = cfg\<rparr>"

definition GetLimiter :: "(int \<Rightarrow> int \<Rightarrow> 'l) \<Rightarrow> int \<Rightarrow> int \<Rightarrow> string \<Rightarrow> 'l GlobalRateLimiter \<Rightarrow> 'l \<times> 'l GlobalRateLimiter" where
  "GetLimiter NewLimiter now prt ip g =
     (let pl = (case gm_get (grl_ports g) prt of Some pl \<Rightarrow> pl | None \<Rightarrow> \<lparr>pl_limiters = [], pl_config = grl_config g, pl_stopped = False\<rparr>);
          l = (case gm_get (pl_limiters pl) ip of
                 Some il \<Rightarrow> il_limiter il
               | None \<Rightarrow> NewLimiter (rl_QPS (grl_config g)) (rl_Burst (grl_config g)));
          pl = pl\<lparr>pl_limiters := gm_set (pl_limiters pl) ip \<lparr>il_limiter = l, il_lastSeen = now\<rparr>\<rparr>
      in (l, g\<lparr>grl_ports := gm_set (grl_ports g) prt pl\<rparr>))"

text \<open>The bucket is shared by reference: its new state is stored.\<close>

definition put_bucket :: "int \<Rightarrow> string \<Rightarrow> 'l \<Rightarrow> 'l GlobalRateLimiter \<Rightarrow> 'l GlobalRateLimiter" where
  "put_bucket prt ip l g =
     (case gm_get (grl_ports g) prt of
        None \<Rightarrow> g
      | Some pl \<Rightarrow>
          (case gm_get (pl_limiters pl) ip of
             None \<Rightarrow> g
           | Some il \<Rightarrow> g\<lparr>grl_ports := gm_set (grl_ports g) prt (pl\<lparr>pl_limiters := gm_set (pl_limiters pl) ip (il\<lparr>il_limiter := l\<rparr>)\<rparr>)\<rparr>))"

definition Allow :: "(int \<Rightarrow> int \<Rightarrow> 'l) \<Rightarrow> (int \<Rightarrow> 'l \<Rightarrow> bool \<times> 'l) \<Rightarrow> int \<Rightarrow> int \<Rightarrow> string \<Rightarrow> 'l GlobalRateLimiter \<Rightarrow> bool \<times> 'l GlobalRateLimiter" where
  "Allow NewLimiter allow now prt ip g =
     (let (l, g) = GetLimiter NewLimiter now prt ip g; (ok, l) = allow now l in (ok, put_bucket prt ip l g))"

text \<open>A tick of the cleaning loop, which runs until the port is stopped.\<close>

definition cleanup_tick :: "int \<Rightarrow> 'l PortLimiters \<Rightarrow> 'l PortLimiters" where
  "cleanup_tick now pl =
     (if pl_stopped pl then pl
      else pl\<lparr>pl_limiters := filter (\<lambda>(ip, il). \<not> now - il_lastSeen il > rl_CleanInterval (pl_config pl) * (60 * 10 ^ 9)) (pl_limiters pl)\<rparr>)"

definition StopLimiters :: "'l GlobalRateLimiter \<Rightarrow> 'l GlobalRateLimiter result" where
  "StopLimiters g =
     (if list_ex (\<lambda>(prt, pl). pl_stopped pl) (grl_ports g) then Inl (GoPanic ''close of closed channel'')
      else Inr (g\<lparr>grl_ports := map (\<lambda>(prt, pl). (prt, pl\<lparr>pl_stopped := True\<rparr>)) (grl_ports g)\<rparr>))"

subsection \<open>UDP\<close>

definition DirectOriginProxy :: "(string \<Rightarrow> byte list \<Rightarrow> byte list option) \<Rightarrow> string \<Rightarrow> byte list \<Rightarrow> byte list option" where
  "DirectOriginProxy net originAddr dat = map_option (take 65535) (net originAddr dat)"

datatype udp_outcome = Dropped | Answered "byte list option" | UWaiting u32 nat

definition udp_serve :: "(string \<Rightarrow> byte list \<Rightarrow> byte list option) \<Rightarrow> arrival \<Rightarrow> byte list \<Rightarrow> proxy \<Rightarrow> (udp_outcome \<times> bool \<times> proxy) result" where
  "udp_serve net a dat st =
     (let (reqID, st) = next_reqID (ar_clientIP a) st;
          (info, routes, refresh) = route_for (ar_now a) (ar_later a) (ar_route a) (ar_port a) (px_routes st);
          st = st\<lparr>px_routes := routes\<rparr>
      in if length (Routing info) = 0 then Inr (Dropped, refresh, st)
         else let pathInfo = Routing info ! 0 in
           if length (Hops pathInfo) \<le> 2
           then (if Hops pathInfo = [] then Inl (GoPanic ''index out of range'')
                 else Inr (Answered (DirectOriginProxy net (last (Hops pathInfo)) dat), refresh, st))
           else bindr (submit True ''udp'' pathInfo reqID dat st) (\<lambda>(st, ch). Inr (UWaiting reqID ch, refresh, st)))"

definition handleUDPConnection ::
  "(int \<Rightarrow> int \<Rightarrow> 'l) \<Rightarrow> (int \<Rightarrow> 'l \<Rightarrow> bool \<times> 'l) \<Rightarrow> (string \<Rightarrow> byte list \<Rightarrow> byte list option) \<Rightarrow> arrival \<Rightarrow> byte list
     \<Rightarrow> 'l GlobalRateLimiter option \<Rightarrow> proxy \<Rightarrow> (udp_outcome \<times> bool \<times> 'l GlobalRateLimiter option \<times> proxy) result" where
  "handleUDPConnection NewLimiter allow net a dat rl st =
     (let (ok, rl) = (case rl of
          None \<Rightarrow> (True, None)
        | Some g \<Rightarrow> (let (ok, g) = Allow NewLimiter allow (ar_now a) (ar_port a) (ar_clientIP a) g in (ok, Some g)))
      in if \<not> ok then Inr (Dropped, False, rl, st)
         else bindr (udp_serve net a dat st) (\<lambda>(out, refresh, st). Inr (out, refresh, rl, st)))"

definition udp_finish :: "u32 \<Rightarrow> nat \<Rightarrow> wait_event \<Rightarrow> proxy \<Rightarrow> (byte list option \<times> proxy) result" where
  "udp_finish reqID ch ev st =
     (let (resp, d) = (case ev of
          TimedOut \<Rightarrow> (None, px_disagg st)
        | Readable \<Rightarrow> (case chan_recv (px_disagg st) ch of Some (d, x) \<Rightarrow> (Some x, d) | None \<Rightarrow> (None, px_disagg st)))
      in bindr (cleanup d reqID ch) (\<lambda>d. Inr (resp, st\<lparr>px_disagg := d\<rparr>)))"

subsection \<open>The server manager\<close>

datatype listener = TCPListener | UDPConn

record manager =
  mg_ports :: "(int, bool) gomap"
  mg_listeners :: "(int, listener) gomap"

definition add_port :: "listener \<Rightarrow> int \<Rightarrow> manager \<Rightarrow> manager" where
  "add_port l prt mg = mg\<lparr>mg_listeners := gm_set (mg_listeners mg) prt l, mg_ports := gm_set (mg_ports mg) prt True\<rparr>"

definition TCP_StartServerWithMgr :: "int \<Rightarrow> string option \<Rightarrow> manager \<Rightarrow> manager result" where
  "TCP_StartServerWithMgr prt listenErr mg = (case listenErr of Some err \<Rightarrow> Inl (GoError err) | None \<Rightarrow> Inr (add_port TCPListener prt mg))"

definition UDP_StartServerWithMgr :: "int \<Rightarrow> string option \<Rightarrow> manager \<Rightarrow> manager result" where
  "UDP_StartServerWithMgr prt listenErr mg = (case listenErr of Some err \<Rightarrow> Inl (GoError err) | None \<Rightarrow> Inr (add_port UDPConn prt mg))"

text \<open>The start of the accept loops: the listener that they take from the map. The loop of UDP ends without one.\<close>

definition TCP_StartServerRun :: "int \<Rightarrow> manager \<Rightarrow> unit result" where
  "TCP_StartServerRun prt mg =
     (if gm_get (mg_listeners mg) prt = Some TCPListener then Inr () else Inl (GoPanic ''interface conversion: not net.Listener''))"

definition UDP_StartServerRun :: "int \<Rightarrow> manager \<Rightarrow> bool" where
  "UDP_StartServerRun prt mg = (gm_get (mg_listeners mg) prt = Some UDPConn)"

text \<open>
  One round of the loops: an error of the listener, also that of a closed one, starts the next round. The loop of UDP
  blocks while all its places are taken.
\<close>

datatype 'c accept_event = AcceptError | Accepted 'c

definition tcp_round :: "TCPServer \<Rightarrow> 'c accept_event \<Rightarrow> 'c list \<times> nat \<Rightarrow> 'c accepted option \<times> 'c list \<times> nat" where
  "tcp_round t ev cl = (case ev of AcceptError \<Rightarrow> (None, cl) | Accepted c \<Rightarrow> (let (x, cl) = accept_conn t c cl in (Some x, cl)))"

definition udpWorkerCount :: nat where "udpWorkerCount = 100"

definition udp_round :: "'c accept_event \<Rightarrow> nat \<Rightarrow> nat option" where
  "udp_round ev running = (case ev of AcceptError \<Rightarrow> Some running | Accepted c \<Rightarrow> if running < udpWorkerCount then Some (running + 1) else None)"

definition remove_port :: "int \<Rightarrow> manager \<Rightarrow> manager" where
  "remove_port prt mg = mg\<lparr>mg_listeners := gm_del (mg_listeners mg) prt, mg_ports := gm_del (mg_ports mg) prt\<rparr>"

text \<open>Stopping: the server of one protocol may meet a listener of the other. The error is that of closing.\<close>

definition TCP_StopServer :: "int \<Rightarrow> string option \<Rightarrow> manager \<Rightarrow> (string option \<times> manager) result" where
  "TCP_StopServer prt closeErr mg =
     (case gm_get (mg_listeners mg) prt of
        None \<Rightarrow> Inr (None, mg)
      | Some UDPConn \<Rightarrow> Inl (GoPanic ''interface conversion: *net.UDPConn is not net.Listener'')
      | Some TCPListener \<Rightarrow> Inr (closeErr, remove_port prt mg))"

definition UDP_StopServer :: "int \<Rightarrow> string option \<Rightarrow> manager \<Rightarrow> (string option \<times> manager) result" where
  "UDP_StopServer prt closeErr mg =
     (case gm_get (mg_listeners mg) prt of
        Some UDPConn \<Rightarrow> Inr (closeErr, remove_port prt mg)
      | _ \<Rightarrow> Inr (None, mg))"

text \<open>The operations of the interface \<^verbatim>\<open>ServerFuncs\<close> on the server of a protocol.\<close>

fun StartServerWithMgr :: "listener \<Rightarrow> int \<Rightarrow> string option \<Rightarrow> manager \<Rightarrow> manager result" where
  "StartServerWithMgr TCPListener = TCP_StartServerWithMgr"
| "StartServerWithMgr UDPConn = UDP_StartServerWithMgr"

fun StopServer :: "listener \<Rightarrow> int \<Rightarrow> string option \<Rightarrow> manager \<Rightarrow> (string option \<times> manager) result" where
  "StopServer TCPListener = TCP_StopServer"
| "StopServer UDPConn = UDP_StopServer"

definition InitServerInterface :: "string \<Rightarrow> listener option" where
  "InitServerInterface proto = (if proto = ''tcp'' then Some TCPListener else if proto = ''udp'' then Some UDPConn else None)"

text \<open>\<^verbatim>\<open>strconv.Atoi\<close>.\<close>

definition Atoi :: "string \<Rightarrow> int option" where
  "Atoi s =
     (let (neg, ds) = (case s of c # cs \<Rightarrow> if c = CHR ''-'' then (True, cs) else if c = CHR ''+'' then (False, cs) else (False, s) | [] \<Rightarrow> (False, []));
          v = (if neg then - int (dec_value ds) else int (dec_value ds))
      in if ds = [] \<or> \<not> list_all is_digit ds \<or> v < - (2 ^ 63) \<or> v \<ge> 2 ^ 63 then None else Some v)"

datatype reply = ErrorReply nat string | OkReply string int

text \<open>The handlers of \<^verbatim>\<open>/tcp/start\<close>, \<^verbatim>\<open>/tcp/stop\<close> and \<^verbatim>\<open>/tcp/list\<close>.\<close>

definition with_port :: "string \<Rightarrow> string \<Rightarrow> (int \<Rightarrow> listener \<Rightarrow> (reply \<times> manager) result) \<Rightarrow> manager \<Rightarrow> (reply \<times> manager) result" where
  "with_port portStr proto act mg =
     (if portStr = [] then Inr (ErrorReply 400 ''port is required'', mg)
      else case Atoi portStr of
        None \<Rightarrow> Inr (ErrorReply 400 ''invalid port'', mg)
      | Some prt \<Rightarrow>
          (case InitServerInterface proto of
             None \<Rightarrow> Inr (ErrorReply 400 ''invalid protocol'', mg)
           | Some server \<Rightarrow> act prt server))"

definition manager_start :: "string \<Rightarrow> string \<Rightarrow> string option \<Rightarrow> manager \<Rightarrow> (reply \<times> manager) result" where
  "manager_start portStr proto listenErr mg =
     with_port portStr proto (\<lambda>prt server.
       if gm_get (mg_ports mg) prt = Some True then Inr (ErrorReply 409 ''port already started'', mg)
       else case StartServerWithMgr server prt listenErr mg of
         Inl (GoError err) \<Rightarrow> Inr (ErrorReply 500 err, mg)
       | Inl f \<Rightarrow> Inl f
       | Inr mg \<Rightarrow> Inr (OkReply ''tcp server started'' prt, mg)) mg"

definition manager_stop :: "string \<Rightarrow> string \<Rightarrow> string option \<Rightarrow> manager \<Rightarrow> (reply \<times> manager) result" where
  "manager_stop portStr proto closeErr mg =
     with_port portStr proto (\<lambda>prt server.
       bindr (StopServer server prt closeErr mg) (\<lambda>(err, mg).
         case err of Some e \<Rightarrow> Inr (ErrorReply 500 e, mg) | None \<Rightarrow> Inr (OkReply ''tcp server stopped'' prt, mg))) mg"

definition manager_list :: "manager \<Rightarrow> int list" where
  "manager_list mg = map fst (mg_ports mg)"

text \<open>A sample proxy with one route, and a connection to its port.\<close>

definition ex_arrival :: arrival where
  "ex_arrival = \<lparr>ar_clientIP = ''203.0.113.5'', ar_port = 9000, ar_now = 5, ar_later = 6, ar_route = \<lparr>Routing = []\<rparr>, ar_rtt = 1\<rparr>"

definition ex_proxy :: proxy where
  "ex_proxy = \<lparr>px_routes = [(9000, \<lparr>re_info = \<lparr>Routing = [\<lparr>Hops = [''10.0.0.1'', ''10.0.0.2'', ''192.0.2.7:80''], Rtt = 1, RawRTT = 1\<rparr>]\<rparr>, re_deadline = 4\<rparr>)],
     px_disagg = NewDisaggregator, px_seq = 0, px_access = [], px_input = []\<rparr>"

text \<open>Every started port has its listener.\<close>

definition manager_inv :: "manager \<Rightarrow> bool" where
  "manager_inv mg = (gm_ok (mg_ports mg) \<and> gm_ok (mg_listeners mg) \<and> (\<forall>prt. gm_get (mg_ports mg) prt = map_option (\<lambda>_. True) (gm_get (mg_listeners mg) prt)))"

section \<open>Lemmas: paths and messages\<close>

lemma set_join: "set (join sep ss) \<subseteq> set sep \<union> \<Union> (set ` set ss)"
  by (induction sep ss rule: join.induct) auto

lemma ip_string_no_colon: "CHR '':'' \<notin> set (ip_string ip)"
proof -
  have "CHR '':'' \<notin> set (nat_digits n)" for n by (rule digits_no_char) (simp add: is_digit_def)
  then show ?thesis using set_join [of "''.''" "map (\<lambda>b. nat_digits (unat b)) ip"] by (auto simp: ip_string_def)
qed

lemma hop_net: "HopIPToNet (ip_string (be32 w)) = be32 w"
proof -
  have "be32 w = [be32 w ! 0, be32 w ! 1, be32 w ! 2, be32 w ! 3]" by (simp add: be32_def)
  then show ?thesis by (simp add: HopIPToNet_def parse_ip_string)
qed

lemma split_origin:
  assumes "CHR '':'' \<notin> set ip"
  shows "split (origin_addr ip prt) '':'' = [ip, itoa prt]"
proof -
  have "CHR '':'' \<notin> set (nat_digits n)" for n by (rule digits_no_char) (simp add: is_digit_def)
  then have "CHR '':'' \<notin> set (itoa prt)" by (simp add: itoa_def)
  then have "split (join '':'' [ip, itoa prt]) '':'' = [ip, itoa prt]"
    using assms sep_safeI [of "CHR '':''" _ "[]"] by (intro split_join) auto
  then show ?thesis by (simp add: origin_addr_def)
qed

lemma split_hops_path:
  assumes "\<forall>h \<in> set hs. CHR '':'' \<notin> set h" "CHR '':'' \<notin> set ip"
  shows "split_hops (hs @ [origin_addr ip prt]) = (hs @ [ip], itoa prt)"
proof -
  have "foldl strip_hop (acc, p) hs = (acc @ hs, p)" for acc p
    using assms(1) by (induction hs arbitrary: acc) (simp_all add: strip_hop_def contains_char_def)
  moreover have "CHR '':'' \<in> set (origin_addr ip prt)" by (simp add: origin_addr_def)
  ultimately show ?thesis by (simp add: split_hops_def strip_hop_def contains_char_def split_origin [OF assms(2)])
qed

lemma parse_port:
  assumes "0 \<le> prt" "prt \<le> 65535"
  shows "ParseUint16 (itoa prt) = of_int prt"
proof -
  have "itoa prt = nat_digits (nat prt)" using assms(1) by (simp add: itoa_def)
  moreover have "\<not> 65535 < nat prt" using assms by simp
  ultimately show ?thesis using nat_digits_digits [of "nat prt"] assms(1) by (simp add: ParseUint16_def of_nat_nat)
qed

lemma pick_path_mem:
  assumes "ps \<noteq> []"
  shows "pick_path ps \<in> set ps"
proof -
  have "List.find P ps = Some p \<Longrightarrow> p \<in> set ps" for P p by (induction ps) (auto split: if_splits)
  then show ?thesis using assms by (cases "List.find (\<lambda>p. length (Hops p) > 2) ps") (simp_all add: pick_path_def)
qed

lemma submit_path:
  assumes "Hops p = map (\<lambda>w. ip_string (be32 w)) (butlast ws) @ [origin_addr (ip_string (be32 (last ws))) prt]" "2 < length ws"
    "0 \<le> prt" "prt \<le> 65535"
  shows "submit udp proto p reqID dat st =
    Inr (AddToBatch \<lparr>emerge = udp, routingKey = join '','' (map (\<lambda>w. ip_string (be32 w)) ws), protocol = proto, port = of_int prt,
             routingInfo = \<lparr>Hops = map (\<lambda>w. ip_string (be32 w)) ws, Rtt = 0, RawRTT = 0\<rparr>, nextHop = be32 (ws ! 1), userID = reqID, data = dat\<rparr>
           (st\<lparr>px_disagg := fst (Register (px_disagg st) reqID)\<rparr>), snd (Register (px_disagg st) reqID))"
proof -
  have "split_hops (Hops p) = (map (\<lambda>w. ip_string (be32 w)) (butlast ws) @ [ip_string (be32 (last ws))], itoa prt)"
    unfolding assms(1) using ip_string_no_colon by (intro split_hops_path) auto
  also have "map (\<lambda>w. ip_string (be32 w)) (butlast ws) @ [ip_string (be32 (last ws))] = map (\<lambda>w. ip_string (be32 w)) ws"
    using assms(2) by (cases ws rule: rev_cases) simp_all
  finally have s: "split_hops (Hops p) = (map (\<lambda>w. ip_string (be32 w)) ws, itoa prt)" .
  have "1 < length (butlast ws)" using assms(2) by simp
  then have "Hops p ! 1 = ip_string (be32 (ws ! 1))" unfolding assms(1) by (simp add: nth_append nth_butlast)
  moreover have "1 < length (Hops p)" using assms(2) unfolding assms(1) by simp
  ultimately have "go_index (Hops p) 1 = Inr (ip_string (be32 (ws ! 1)))" by (simp add: go_index_def)
  then show ?thesis by (simp add: submit_def s hop_net parse_port [OF assms(3, 4)] case_prod_unfold Let_def)
qed

section \<open>Lemmas: connections\<close>

text \<open>The first request for a port over a path of at least three hops.\<close>

lemma first_request:
  assumes "ReadBytes_nl stream = Some dat" "gm_get (px_routes st) (ar_port a) = None" "Routing (ar_route a) \<noteq> []"
    "Hops (pick_path (Routing (ar_route a))) = map (\<lambda>w. ip_string (be32 w)) (butlast ws) @ [origin_addr (ip_string (be32 (last ws))) prt]"
    "2 < length ws" "0 \<le> prt" "prt \<le> 65535" "fst (next_reqID (ar_clientIP a) st) = reqID"
  shows "\<exists>m st'. handleConnection a stream st = Inr (Waiting reqID (length (chans (px_disagg st))), False, st')
    \<and> px_disagg st' = fst (Register (px_disagg st) reqID) \<and> px_input st' = px_input st @ [m] \<and> data m = dat \<and> userID m = reqID
    \<and> protocol m = ''tcp'' \<and> port m = of_int prt \<and> Hops (routingInfo m) = map (\<lambda>w. ip_string (be32 w)) ws \<and> nextHop m = be32 (ws ! 1)"
proof -
  obtain st1 where n: "next_reqID (ar_clientIP a) st = (reqID, st1)" using assms(8) by (cases "next_reqID (ar_clientIP a) st") auto
  then have st1: "px_routes st1 = px_routes st" "px_disagg st1 = px_disagg st" "px_input st1 = px_input st"
    by (auto simp: next_reqID_def case_prod_unfold Let_def)
  define st2 where "st2 = (log_access a st1)\<lparr>px_routes := store_route (ar_later a) (ar_port a) (ar_route a) (px_routes (log_access a st1))\<rparr>"
  have st2: "px_disagg st2 = px_disagg st" "px_input st2 = px_input st" by (simp_all add: st2_def log_access_def st1)
  have "route_for (ar_now a) (ar_later a) (ar_route a) (ar_port a) (px_routes (log_access a st1))
      = (ar_route a, store_route (ar_later a) (ar_port a) (ar_route a) (px_routes (log_access a st1)), False)"
    using assms(2) by (simp add: route_for_def log_access_def st1)
  then have "handleConnection a stream st = bindr (submit False ''tcp'' (pick_path (Routing (ar_route a))) reqID dat st2) (\<lambda>(st, ch). Inr (Waiting reqID ch, False, st))"
    using assms(1, 3) n by (simp add: handleConnection_def tcp_serve_def st2_def Let_def)
  then show ?thesis unfolding submit_path [OF assms(4-7)] by (simp add: AddToBatch_def st2 Register_def Let_def)
qed

lemma finish_response:
  assumes "ch < length (chans d)" "chans d ! ch = \<lparr>queue = [x], closed = False\<rparr>"
  shows "\<exists>d'. tcp_finish reqID ch Readable (st\<lparr>px_disagg := d\<rparr>) = Inr (Some x, st\<lparr>px_disagg := d'\<rparr>) \<and> gm_get (waiters d') reqID = None \<and> closed (chans d' ! ch)"
  by (rule exI [of _ "d\<lparr>waiters := gm_del (waiters d) reqID, chans := (chans d)[ch := \<lparr>queue = [], closed = True\<rparr>]\<rparr>"])
    (use assms in \<open>simp add: tcp_finish_def chan_recv_def cleanup_def Let_def delete_conv'\<close>)

text \<open>What follows a line in its segment is lost for the next request.\<close>

lemma keep_alive_loses_rest:
  assumes "ReadBytes_nl line = Some line"
  shows "read_line [] ((line @ rest) # segs) = Some (line, segs)"
proof -
  have l: "10 \<in> set line" "line = takeWhile (\<lambda>b. b \<noteq> 10) line @ [10]" using assms by (auto simp: ReadBytes_nl_def split: if_splits)
  then have "takeWhile (\<lambda>b. b \<noteq> 10) (line @ rest) = takeWhile (\<lambda>b. b \<noteq> 10) line" by (simp add: takeWhile_append1)
  then show ?thesis using l by (simp add: ReadBytes_nl_def)
qed

text \<open>A request for a port whose stored route is empty is closed, whatever the control plane would answer.\<close>

lemma empty_route_closes:
  assumes "gm_get (px_routes st) (ar_port a) = Some e" "Routing (re_info e) = []"
  shows "\<exists>refresh st'. handleConnection a stream st = Inr (Closed, refresh, st') \<and> px_input st' = px_input st"
  using assms by (auto simp: handleConnection_def next_reqID_def tcp_serve_def log_access_def route_for_def case_prod_unfold Let_def split: option.split)

section \<open>Lemmas: the server manager\<close>

lemma with_port_inv:
  assumes "manager_inv mg" "\<And>prt l. act prt l = Inr (r, mg') \<Longrightarrow> manager_inv mg'" "with_port portStr proto act mg = Inr (r, mg')"
  shows "manager_inv mg'"
  using assms by (cases "Atoi portStr"; cases "InitServerInterface proto") (auto simp: with_port_def split: if_splits)

lemma remove_port_inv: "manager_inv mg \<Longrightarrow> manager_inv (remove_port prt mg)"
  by (simp add: manager_inv_def remove_port_def delete_conv' distinct_delete)

lemma StopServer_inv:
  assumes "manager_inv mg" "StopServer l prt err mg = Inr (e, mg')"
  shows "manager_inv mg'"
proof (cases l)
  case TCPListener
  then show ?thesis using assms remove_port_inv by (cases "gm_get (mg_listeners mg) prt") (auto simp: TCP_StopServer_def UDP_StopServer_def split: listener.splits)
next
  case UDPConn
  then show ?thesis using assms remove_port_inv by (cases "gm_get (mg_listeners mg) prt") (auto simp: TCP_StopServer_def UDP_StopServer_def split: listener.splits)
qed

lemma manager_keeps_inv:
  assumes "manager_inv mg" "manager_start portStr proto err mg = Inr (r, mg') \<or> manager_stop portStr proto err mg = Inr (r, mg')"
  shows "manager_inv mg'"
  using assms(2)
proof
  assume "manager_start portStr proto err mg = Inr (r, mg')"
  moreover have "manager_inv mg''" if "StartServerWithMgr l prt err mg = Inr mg''" for l prt mg''
    using that assms(1) by (cases l; cases err)
      (auto simp: TCP_StartServerWithMgr_def UDP_StartServerWithMgr_def add_port_def manager_inv_def update_conv' distinct_update)
  ultimately show ?thesis unfolding manager_start_def
    by (elim with_port_inv [OF assms(1), rotated]) (use assms(1) in \<open>auto split: if_splits sum.splits fault.splits\<close>)
next
  assume "manager_stop portStr proto err mg = Inr (r, mg')"
  then show ?thesis unfolding manager_stop_def
  proof (elim with_port_inv [OF assms(1), rotated])
    fix prt l
    assume a: "bindr (StopServer l prt err mg) (\<lambda>(e, mg). case e of Some e \<Rightarrow> Inr (ErrorReply 500 e, mg) | None \<Rightarrow> Inr (OkReply ''tcp server stopped'' prt, mg)) = Inr (r, mg')"
    then obtain e where "StopServer l prt err mg = Inr (e, mg')"
      by (cases "StopServer l prt err mg") (auto split: option.splits)
    then show "manager_inv mg'" by (rule StopServer_inv [OF assms(1)])
  qed
qed

text \<open>Stopping a UDP port through the TCP server panics, the other way round it reports success and stops nothing.\<close>

lemma wrong_protocol_stop:
  assumes "gm_get (mg_listeners mg) prt = Some l"
  shows "l = UDPConn \<Longrightarrow> is_panic (StopServer TCPListener prt err mg)" "l = TCPListener \<Longrightarrow> StopServer UDPConn prt err mg = Inr (None, mg)"
  using assms by (simp_all add: TCP_StopServer_def UDP_StopServer_def)

section \<open>Properties\<close>



end
