(* ===== verification/Tunnel_Handler.thy ===== *)
theory Tunnel_Handler
  imports Agg_Flush Back_Sourcer Disaggregator
begin

text \<open>
  \<^verbatim>\<open>src/data-proxy/tunnel-handler.go\<close>: what a node does with a tunnel packet. The calls the handler makes
  (sending to the next node, submitting to the back-sourcer, delivering to a waiting client) are its
  result, in order. A request (port not zero) goes hop by hop to the egress node, a response (port zero)
  back to the ingress. \<^verbatim>\<open>tunnel_walk\<close> follows a packet through the nodes; a node's address plays no part in
  the handler. Logging is left out.
\<close>

section \<open>Definitions\<close>

datatype action = SendTo net_ip "byte list" | SubmitTo string BackSourceTask | DeliverTo u32 "byte list"

text \<open>\<^verbatim>\<open>header.HopIP[header.HopPos+1]\<close>: the sum is computed in a byte.\<close>

definition hop_at :: "u32 list \<Rightarrow> byte \<Rightarrow> u32 result" where
  "hop_at ips i = go_index ips (unat i)"

definition forward :: "Packet \<Rightarrow> byte list \<Rightarrow> action list result" where
  "forward header raw =
     bindr (hop_at (HopIP header) (HopPos header + 1)) (\<lambda>w.
       let nextIP = Uint32ToIP w in Inr [SendTo nextIP (AdvanceRawHop raw)])"

definition HandleQUICPacket :: "byte list \<Rightarrow> action list result" where
  "HandleQUICPacket raw =
     (if length raw < HeaderSize then Inr []
      else case ParseHeader raw of
        Inl e \<Rightarrow> Inr []
      | Inr header \<Rightarrow>
          if Port header \<noteq> 0 then
            let protocal = (if Protocol header = 17 then ''udp'' else ''tcp'');
                isLastHop = (HopPos header = 2 \<or>
                  (unat (HopPos header) + 2 < MaxHops \<and> HopIP header ! unat (HopPos header + 2) = 0))
            in if isLastHop then
                 case Parse raw (length raw) of
                   Inl (GoPanic e) \<Rightarrow> Inl (GoPanic e)
                 | Inl GoDiverges \<Rightarrow> Inl GoDiverges
                 | Inl (GoError e) \<Rightarrow> Inr []
                 | Inr (_, subs) \<Rightarrow>
                     if length subs = 0 then Inr []
                     else bindr (go_index (HopIP header) (unat (HopPos header) + 1)) (\<lambda>w.
                       let originIP = Uint32ToIP w in
                       if ip_string originIP = ''0.0.0.0'' then Inr []
                       else let originAddr = ip_string originIP @ '':'' @ itoa (int (unat (Port header))) in
                         Inr (map (\<lambda>sub. SubmitTo protocal \<lparr>t_HopIP = HopIP header, t_Port = Port header,
                                t_UserID = UserID sub, OriginAddr = originAddr, ReqData = Data sub\<rparr>) subs))
               else forward header raw
          else
            let isLastHop = (HopPos header = 3 \<or>
                  (unat (HopPos header) + 1 < MaxHops \<and> HopIP header ! unat (HopPos header + 1) = 0))
            in if isLastHop then
                 case Parse raw (length raw) of
                   Inl (GoPanic e) \<Rightarrow> Inl (GoPanic e)
                 | Inl GoDiverges \<Rightarrow> Inl GoDiverges
                 | Inl (GoError e) \<Rightarrow> Inr []
                 | Inr (_, subs) \<Rightarrow>
                     if length subs = 0 then Inr []
                     else Inr (map (\<lambda>sub. DeliverTo (UserID sub) (Data sub)) subs)
               else forward header raw)"

text \<open>The nodes a packet is sent to, and what the last one does with it.\<close>

fun tunnel_walk :: "nat \<Rightarrow> byte list \<Rightarrow> (net_ip list \<times> action list) result" where
  "tunnel_walk 0 raw = Inl (GoError ''still travelling'')"
| "tunnel_walk (Suc n) raw =
     bindr (HandleQUICPacket raw) (\<lambda>acts.
       case acts of
         [SendTo ip raw'] \<Rightarrow> bindr (tunnel_walk n raw') (\<lambda>(ips, fin). Inr (ip # ips, fin))
       | _ \<Rightarrow> Inr ([], acts))"

text \<open>The header of a raw packet as the handler reads it.\<close>

definition raw_header :: "byte list \<Rightarrow> byte \<Rightarrow> u32 list \<Rightarrow> u16 \<Rightarrow> byte \<Rightarrow> bool" where
  "raw_header raw pos ips pt pr = (\<exists>h. ParseHeader raw = Inr h \<and> HopPos h = pos \<and> HopIP h = ips \<and> Port h = pt \<and> Protocol h = pr)"

section \<open>Lemmas\<close>

lemma ParseHeader_ok:
  assumes "HeaderSize \<le> length raw"
  shows "ParseHeader raw = Inr (read_header (take HeaderSize raw) \<lparr>Buf = take HeaderSize raw, BuffSize = 0, HopPos = 0,
           HopIP = [0, 0, 0, 0], PayloadLen = 0, Port = 0, Protocol = 0, Wp = 0\<rparr>)"
  using assms by (simp add: ParseHeader_def go_copy_def Let_def)

lemma length_HopIP_header: "ParseHeader raw = Inr h \<Longrightarrow> length (HopIP h) = 4"
  by (auto simp: ParseHeader_def read_header_def Let_def split: if_splits)

lemma Parse_header:
  assumes "Parse raw n = Inr (r, subs)"
  shows "HeaderSize \<le> length raw" "raw_header raw (HopPos r) (HopIP r) (Port r) (Protocol r)"
proof -
  let ?buf = "go_copy (Buf (NewPacket n)) raw"
  show len: "HeaderSize \<le> length raw" using assms by (auto simp: Parse_def split: if_splits)
  have n: "HeaderSize \<le> n" using assms by (auto simp: Parse_def Let_def NewPacket_def split: if_splits)
  have "take HeaderSize ?buf = take HeaderSize raw" using len n by (simp add: go_copy_def NewPacket_def)
  then have "r = read_header (take HeaderSize raw) ((NewPacket n)\<lparr>Buf := ?buf\<rparr>)"
    using assms by (auto simp: Parse_def Let_def split: if_splits)
  then show "raw_header raw (HopPos r) (HopIP r) (Port r) (Protocol r)"
    by (simp add: raw_header_def ParseHeader_ok [OF len] read_header_def)
qed

lemma Parse_self:
  assumes "HeaderSize \<le> length raw"
  shows "Parse raw (length raw) =
    (let r = read_header (take HeaderSize raw) ((NewPacket (length raw))\<lparr>Buf := raw\<rparr>);
         e = HeaderSize + unat (PayloadLen r)
     in if e > length raw then Inl (GoError ''invalid payload length'')
        else Inr (r, parse_subs (drop HeaderSize (take e raw))))"
proof -
  have "go_copy (Buf (NewPacket (length raw))) raw = raw" by (simp add: go_copy_def NewPacket_def)
  moreover have "length (Buf (NewPacket (length raw))) = length raw" by (simp add: NewPacket_def)
  ultimately show ?thesis using assms by (simp add: Parse_def Let_def)
qed

lemma Parse_advance:
  assumes "Parse raw (length raw) = Inr (r, subs)" "unat (HopPos r) < 3"
  shows "\<exists>r'. Parse (AdvanceRawHop raw) (length raw) = Inr (r', subs) \<and> length (AdvanceRawHop raw) = length raw
    \<and> HopPos r' = HopPos r + 1 \<and> HopIP r' = HopIP r \<and> Port r' = Port r \<and> Protocol r' = Protocol r"
proof -
  have len: "HeaderSize \<le> length raw" using Parse_header(1) [OF assms(1)] .
  obtain x xs where raw: "raw = x # xs" using len by (cases raw) (auto simp: HeaderSize_def)
  let ?rd = "\<lambda>x b. read_header (x # take 23 xs) ((NewPacket (length raw))\<lparr>Buf := b\<rparr>)"
  have tk: "take HeaderSize (y # xs) = y # take 23 xs" for y by (simp add: HeaderSize_def)
  have r: "r = ?rd x raw" "\<not> HeaderSize + unat (PayloadLen r) > length raw"
      "subs = parse_subs (drop HeaderSize (take (HeaderSize + unat (PayloadLen r)) raw))"
    using assms(1) unfolding Parse_self [OF len] Let_def unfolding raw tk by (auto split: if_splits)
  have x: "HopPos r = x" by (simp add: r(1) read_header_def)
  have adv: "AdvanceRawHop raw = (x + 1) # xs"
    using len assms(2) x by (simp add: AdvanceRawHop_def raw MaxHops_def)
  let ?raw = "(x + 1) # xs"
  have len': "length ?raw = length raw" by (simp add: raw)
  let ?r = "?rd (x + 1) ?raw"
  have f: "PayloadLen ?r = PayloadLen r" "HopPos ?r = x + 1" "HopIP ?r = HopIP r" "Port ?r = Port r" "Protocol ?r = Protocol r"
    unfolding r(1) by (simp_all add: read_header_def nth_Cons')
  have "drop HeaderSize (take (HeaderSize + k) ?raw) = drop HeaderSize (take (HeaderSize + k) raw)" for k
    by (simp add: raw HeaderSize_def drop_take)
  then have "Parse ?raw (length raw) = Inr (?r, subs)"
    using Parse_self [of ?raw] len r(2,3) f(1) unfolding len' tk by (simp add: Let_def)
  then show ?thesis unfolding adv using f x len' by auto
qed

lemma ip_string_inj:
  assumes "length x = 4" "length y = 4" "ip_string x = ip_string y"
  shows "x = y"
proof -
  have "IPv4 (x ! 0) (x ! 1) (x ! 2) (x ! 3) = IPv4 (y ! 0) (y ! 1) (y ! 2) (y ! 3)"
    using parse_ip_string [OF assms(1)] parse_ip_string [OF assms(2)] assms(3) by simp
  then have "x ! 0 = y ! 0 \<and> x ! 1 = y ! 1 \<and> x ! 2 = y ! 2 \<and> x ! 3 = y ! 3" by (simp add: IPv4_def)
  then show ?thesis using assms(1,2) by (auto simp: length_Suc_conv numeral_eq_Suc)
qed

lemma ip_string_nonzero: "w \<noteq> 0 \<Longrightarrow> ip_string (be32 w) \<noteq> ''0.0.0.0''"
proof
  assume w: "w \<noteq> 0" and eq: "ip_string (be32 w) = ''0.0.0.0''"
  have "nat_digits 0 = ''0''" by code_simp
  then have "ip_string (be32 0) = ''0.0.0.0''" by (simp add: ip_string_def be32_def)
  with eq have "be32 w = be32 0" by (intro ip_string_inj) simp_all
  then have "of_be32 (be32 w) = of_be32 (be32 0)" by simp
  with w show False by (simp only: of_be32_be32)
qed

text \<open>The handler on a packet whose header and contents are known.\<close>

lemma handle_request:
  assumes "Parse raw (length raw) = Inr (r, subs)" "HopIP r = [a, b, c, d]" "Port r \<noteq> 0" "subs \<noteq> []"
  shows "HopPos r = 1 \<Longrightarrow> d \<noteq> 0 \<Longrightarrow> HandleQUICPacket raw = Inr [SendTo (be32 c) (AdvanceRawHop raw)]"
    and "HopPos r = 1 \<and> d = 0 \<and> w = c \<or> HopPos r = 2 \<and> w = d \<Longrightarrow> w \<noteq> 0 \<Longrightarrow>
      HandleQUICPacket raw = Inr (map (\<lambda>sub. SubmitTo (if Protocol r = 17 then ''udp'' else ''tcp'')
        \<lparr>t_HopIP = [a, b, c, d], t_Port = Port r, t_UserID = UserID sub,
         OriginAddr = ip_string (be32 w) @ '':'' @ itoa (int (unat (Port r))), ReqData = Data sub\<rparr>) subs)"
proof -
  obtain h where h: "ParseHeader raw = Inr h" "HopPos h = HopPos r" "HopIP h = [a, b, c, d]" "Port h = Port r" "Protocol h = Protocol r"
    using Parse_header(2) [OF assms(1)] assms(2) by (auto simp: raw_header_def)
  have len: "\<not> length raw < HeaderSize" using Parse_header(1) [OF assms(1)] by simp
  show "HandleQUICPacket raw = Inr [SendTo (be32 c) (AdvanceRawHop raw)]" if "HopPos r = 1" "d \<noteq> 0"
    using len h that assms(3) by (simp add: HandleQUICPacket_def forward_def hop_at_def go_index_def MaxHops_def)
  show "HandleQUICPacket raw = Inr (map (\<lambda>sub. SubmitTo (if Protocol r = 17 then ''udp'' else ''tcp'')
        \<lparr>t_HopIP = [a, b, c, d], t_Port = Port r, t_UserID = UserID sub,
         OriginAddr = ip_string (be32 w) @ '':'' @ itoa (int (unat (Port r))), ReqData = Data sub\<rparr>) subs)"
    if w: "HopPos r = 1 \<and> d = 0 \<and> w = c \<or> HopPos r = 2 \<and> w = d" "w \<noteq> 0"
  proof -
    have "ip_string (be32 w) \<noteq> ''0.0.0.0''" using w(2) by (rule ip_string_nonzero)
    then show ?thesis using w len h assms
      by (auto simp: HandleQUICPacket_def go_index_def MaxHops_def Let_def)
  qed
qed

lemma handle_response:
  assumes "Parse raw (length raw) = Inr (r, subs)" "HopIP r = [a, b, c, d]" "Port r = 0" "subs \<noteq> []"
  shows "HopPos r = 1 \<Longrightarrow> c \<noteq> 0 \<Longrightarrow> HandleQUICPacket raw = Inr [SendTo (be32 c) (AdvanceRawHop raw)]"
    and "HopPos r = 1 \<and> c = 0 \<or> HopPos r = 2 \<and> d = 0 \<Longrightarrow>
      HandleQUICPacket raw = Inr (map (\<lambda>sub. DeliverTo (UserID sub) (Data sub)) subs)"
proof -
  obtain h where h: "ParseHeader raw = Inr h" "HopPos h = HopPos r" "HopIP h = [a, b, c, d]" "Port h = 0" "Protocol h = Protocol r"
    using Parse_header(2) [OF assms(1)] assms(2,3) by (auto simp: raw_header_def)
  have len: "\<not> length raw < HeaderSize" using Parse_header(1) [OF assms(1)] by simp
  show "HandleQUICPacket raw = Inr [SendTo (be32 c) (AdvanceRawHop raw)]" if "HopPos r = 1" "c \<noteq> 0"
    using len h that by (simp add: HandleQUICPacket_def forward_def hop_at_def go_index_def MaxHops_def)
  show "HandleQUICPacket raw = Inr (map (\<lambda>sub. DeliverTo (UserID sub) (Data sub)) subs)"
    if "HopPos r = 1 \<and> c = 0 \<or> HopPos r = 2 \<and> d = 0"
    using that len h assms by (auto simp: HandleQUICPacket_def MaxHops_def Let_def)
qed

lemma hop_word_ip_string: "hop_word (ip_string (be32 w)) = w"
proof -
  have "[be32 w ! 0, be32 w ! 1, be32 w ! 2, be32 w ! 3] = be32 w" by (simp add: be32_def)
  then have "HopIPToNet (ip_string (be32 w)) = be32 w" by (simp add: HopIPToNet_def parse_ip_string)
  moreover have "To4 (be32 w) = be32 w" by (simp add: To4_def)
  moreover have "be32 w \<noteq> []" by (simp add: be32_def)
  ultimately show ?thesis by (simp add: hop_word_def)
qed

text \<open>A request over three or four hops, and the response on the way back.\<close>

lemma walk_request:
  assumes "carries msg subs buf" "subs \<noteq> []" "port msg \<noteq> 0" "hop_words (Hops (routingInfo msg)) = [a, b, c, d]" "c \<noteq> 0"
  shows "tunnel_walk 2 buf = Inr (if d = 0 then [] else [be32 c],
     map (\<lambda>sub. SubmitTo (if protocol msg = ''tcp'' then ''tcp'' else ''udp'')
        \<lparr>t_HopIP = [a, b, c, d], t_Port = port msg, t_UserID = UserID sub,
         OriginAddr = ip_string (be32 (if d = 0 then c else d)) @ '':'' @ itoa (int (unat (port msg))), ReqData = Data sub\<rparr>) subs)"
proof -
  obtain r where r: "Parse buf (length buf) = Inr (r, subs)" "HopPos r = 1" "HopIP r = [a, b, c, d]" "Port r = port msg"
    "Protocol r = (if protocol msg = ''tcp'' then 6 else 17)"
    using assms(1,4) by (auto simp: carries_def)
  obtain s ss where subs: "subs = s # ss" using assms(2) by (cases subs) auto
  have pr: "(if Protocol r = 17 then ''udp'' else ''tcp'') = (if protocol msg = ''tcp'' then ''tcp'' else ''udp'')"
    by (simp add: r(5))
  show ?thesis
  proof (cases "d = 0")
    case True
    then show ?thesis using handle_request(2) [OF r(1,3) _ assms(2), of c, unfolded pr] r(2,4) assms(3,5) subs
      by (simp add: numeral_2_eq_2)
  next
    case False
    obtain r' where r': "Parse (AdvanceRawHop buf) (length (AdvanceRawHop buf)) = Inr (r', subs)" "HopPos r' = 2" "HopIP r' = [a, b, c, d]"
      "Port r' = port msg" "Protocol r' = Protocol r"
      using Parse_advance [OF r(1)] r by (auto simp: numeral_2_eq_2)
    have "HandleQUICPacket buf = Inr [SendTo (be32 c) (AdvanceRawHop buf)]"
      using handle_request(1) [OF r(1,3) _ assms(2)] r assms(3) False by simp
    then show ?thesis using handle_request(2) [OF r'(1,3) _ assms(2), of d, unfolded r'(5) pr] r'(2,4) assms(3) False subs
      by (simp add: numeral_2_eq_2)
  qed
qed

lemma walk_response:
  assumes "carries msg subs buf" "subs \<noteq> []" "port msg = 0" "hop_words (Hops (routingInfo msg)) = [a, b, c, 0]"
  shows "tunnel_walk 2 buf = Inr (if c = 0 then [] else [be32 c], map (\<lambda>sub. DeliverTo (UserID sub) (Data sub)) subs)"
proof -
  obtain r where r: "Parse buf (length buf) = Inr (r, subs)" "HopPos r = 1" "HopIP r = [a, b, c, 0]" "Port r = 0"
    using assms(1,3,4) by (auto simp: carries_def)
  obtain s ss where subs: "subs = s # ss" using assms(2) by (cases subs) auto
  show ?thesis
  proof (cases "c = 0")
    case True
    then show ?thesis using handle_response(2) [OF r(1,3,4) assms(2)] r subs by (simp add: numeral_2_eq_2)
  next
    case False
    obtain r' where r': "Parse (AdvanceRawHop buf) (length (AdvanceRawHop buf)) = Inr (r', subs)" "HopPos r' = 2" "HopIP r' = [a, b, c, 0]"
      "Port r' = 0"
      using Parse_advance [OF r(1)] r by (auto simp: numeral_2_eq_2)
    have "HandleQUICPacket buf = Inr [SendTo (be32 c) (AdvanceRawHop buf)]"
      using handle_response(1) [OF r(1,3,4) assms(2)] r False by simp
    then show ?thesis using handle_response(2) [OF r'(1,3,4) assms(2)] r'(2) False subs by (simp add: numeral_2_eq_2)
  qed
qed

text \<open>Reading the header is all that decides what the handler does.\<close>

lemma unat_byte_add1: "unat (b + 1 :: byte) = (unat b + 1) mod 256"
  by (simp add: unat_word_ariths)

lemma unat_byte_less: "unat (b :: byte) < 256"
proof -
  have "unat b < 2 ^ LENGTH(8)" by (rule unsigned_less)
  then show ?thesis by simp
qed

lemma forward_panics:
  assumes "length (HopIP h) = 4"
  shows "is_panic (forward h raw) \<longleftrightarrow> 3 \<le> unat (HopPos h) \<and> unat (HopPos h) \<le> 254"
proof -
  have "unat (HopPos h + 1) < 4 \<longleftrightarrow> \<not> (3 \<le> unat (HopPos h) \<and> unat (HopPos h) \<le> 254)"
    using unat_byte_less [of "HopPos h"] by (cases "unat (HopPos h) = 255") (auto simp: unat_byte_add1)
  then show ?thesis using assms by (auto simp: forward_def hop_at_def go_index_def Let_def)
qed

lemma Parse_self_no_panic: "\<not> is_panic (Parse raw (length raw)) \<and> Parse raw (length raw) \<noteq> Inl GoDiverges"
  by (cases "HeaderSize \<le> length raw") (auto simp: Parse_self Let_def, simp_all add: Parse_def)

lemma byte_eq_unat: "(b :: byte) = of_nat n \<longleftrightarrow> unat b = n" if "n < 256" for b n
  using that by (auto simp: unat_of_nat)

lemma raw_header_len: "raw_header raw pos ips pt pr \<Longrightarrow> HeaderSize \<le> length raw"
  by (auto simp: raw_header_def ParseHeader_def split: if_splits)

lemma raw_header_pos: "raw_header raw pos ips pt pr \<Longrightarrow> raw ! 0 = pos \<and> length ips = 4"
proof -
  assume a: "raw_header raw pos ips pt pr"
  then have "HeaderSize \<le> length raw" by (rule raw_header_len)
  with a show ?thesis by (auto simp: raw_header_def ParseHeader_ok read_header_def HeaderSize_def)
qed

lemma raw_header_advance:
  assumes "raw_header raw pos ips pt pr"
  shows "raw_header (AdvanceRawHop raw) (if unat pos < 3 then pos + 1 else pos) ips pt pr"
proof -
  have len: "HeaderSize \<le> length raw" by (rule raw_header_len) fact
  obtain x xs where raw: "raw = x # xs" using len by (cases raw) (auto simp: HeaderSize_def)
  have tk: "take HeaderSize (y # xs) = y # take 23 xs" for y by (simp add: HeaderSize_def)
  have x: "x = pos" using raw_header_pos [OF assms] by (simp add: raw)
  have adv: "AdvanceRawHop raw = (if unat pos < 3 then pos + 1 else pos) # xs"
    using len x by (simp add: AdvanceRawHop_def raw MaxHops_def)
  have "HeaderSize \<le> length ((if unat pos < 3 then pos + 1 else pos) # xs)" using len by (simp add: raw)
  then show ?thesis using assms unfolding adv raw_header_def ParseHeader_ok [OF len] unfolding raw
    by (simp only: ParseHeader_ok tk) (auto simp: read_header_def nth_Cons' x)
qed

text \<open>A handler call either ends the journey or forwards the advanced packet.\<close>

lemma handle_cases:
  assumes h: "raw_header raw pos ips pt pr" and pos: "unat pos \<le> (if pt \<noteq> 0 then 2 else 3) \<or> unat pos = 255"
  shows "(\<exists>acts. HandleQUICPacket raw = Inr acts \<and> (\<forall>ip r. SendTo ip r \<notin> set acts) \<and> unat pos \<noteq> 255)
    \<or> (\<exists>ip. HandleQUICPacket raw = Inr [SendTo ip (AdvanceRawHop raw)] \<and> (unat pos < (if pt \<noteq> 0 then 2 else 3) \<or> unat pos = 255))"
proof -
  obtain hd where hd: "ParseHeader raw = Inr hd" "HopPos hd = pos" "HopIP hd = ips" "Port hd = pt" "Protocol hd = pr"
    using h by (auto simp: raw_header_def)
  have len: "\<not> length raw < HeaderSize" "length ips = 4" using raw_header_len [OF h] raw_header_pos [OF h] by auto
  have two: "pos = 2 \<longleftrightarrow> unat pos = 2" "pos = 3 \<longleftrightarrow> unat pos = 3"
    using byte_eq_unat [of 2 pos] byte_eq_unat [of 3 pos] by simp_all
  have fw: "\<exists>ip. forward hd raw = Inr [SendTo ip (AdvanceRawHop raw)]" if "unat pos < 3 \<or> unat pos = 255"
    using that len(2) hd by (auto simp: forward_def hop_at_def go_index_def Let_def unat_byte_add1)
  have np: "\<not> is_panic (Parse raw (length raw))" "Parse raw (length raw) \<noteq> Inl GoDiverges" using Parse_self_no_panic by blast+
  show ?thesis
  proof (cases "pt = 0")
    case True
    show ?thesis using True pos hd len fw np two
      by (auto simp: HandleQUICPacket_def Let_def MaxHops_def is_panic_def split: sum.splits fault.splits if_splits)
  next
    case False
    show ?thesis using False pos hd len fw np two
      by (auto simp: HandleQUICPacket_def Let_def MaxHops_def is_panic_def go_index_def split: sum.splits fault.splits if_splits)
  qed
qed

lemma walk_ends:
  assumes "raw_header raw pos ips pt pr" "unat pos \<le> (if pt \<noteq> 0 then 2 else 3)" "(if pt \<noteq> 0 then 2 else 3) - unat pos < n"
  shows "\<exists>nodes acts. tunnel_walk n raw = Inr (nodes, acts) \<and> length nodes \<le> (if pt \<noteq> 0 then 2 else 3) - unat pos
    \<and> (\<forall>ip r. SendTo ip r \<notin> set acts)"
  using assms
proof (induction n arbitrary: raw pos)
  case (Suc n)
  let ?m = "if pt \<noteq> 0 then 2 else 3 :: nat"
  from handle_cases [OF Suc.prems(1)] Suc.prems(2)
  consider acts where "HandleQUICPacket raw = Inr acts" "\<forall>ip r. SendTo ip r \<notin> set acts"
    | ip where "HandleQUICPacket raw = Inr [SendTo ip (AdvanceRawHop raw)]" "unat pos < ?m"
    by (auto split: if_splits)
  then show ?case
  proof cases
    case (1 acts)
    then have "tunnel_walk (Suc n) raw = Inr ([], acts)" by (auto split: list.splits action.splits)
    with 1 show ?thesis by auto
  next
    case (2 ip)
    have up: "unat (pos + 1) = unat pos + 1" using 2(2) by (auto simp: unat_byte_add1 split: if_splits)
    have "raw_header (AdvanceRawHop raw) (pos + 1) ips pt pr"
      using raw_header_advance [OF Suc.prems(1)] 2(2) by (auto split: if_splits)
    moreover have "unat (pos + 1) \<le> ?m" "?m - unat (pos + 1) < n" using 2(2) Suc.prems(3) up by (auto split: if_splits)
    ultimately obtain nodes acts where "tunnel_walk n (AdvanceRawHop raw) = Inr (nodes, acts)"
      "length nodes \<le> ?m - unat (pos + 1)" "\<forall>ip r. SendTo ip r \<notin> set acts"
      using Suc.IH by blast
    then show ?thesis using 2 up by auto
  qed
qed simp

section \<open>Properties\<close>


text \<open>
  C7: a packet with a hop position of the table travels a bounded way. It is forwarded at most three
  times (twice for a request) and then consumed: some node submits, delivers or drops it, and no node on
  the way panics.
\<close>

theorem walk_terminates:
  assumes "raw_header raw pos ips pt pr" "unat pos \<le> (if pt \<noteq> 0 then 2 else 3)"
  shows "\<exists>nodes acts. tunnel_walk 4 raw = Inr (nodes, acts) \<and> length nodes \<le> (if pt \<noteq> 0 then 2 else 3) - unat pos
    \<and> (\<forall>ip r. SendTo ip r \<notin> set acts)"
  using walk_ends [OF assms, of 4] by (auto split: if_splits)

theorem walk_terminates_witness:
  "\<exists>nodes acts. tunnel_walk 4 (replicate 24 0) = Inr (nodes, acts) \<and> length nodes \<le> 3"
proof -
  have "raw_header (replicate 24 0) 0 [0, 0, 0, 0] 0 0"
    by (auto simp: raw_header_def ParseHeader_ok HeaderSize_def read_header_def of_be32_def of_be16_def numeral_eq_Suc)
  from walk_terminates [OF this] show ?thesis by auto
qed

text \<open>
  C8: a packet with hop position 255 circulates for ever. The next-hop index wraps to entry 0 and the
  position is not advanced, so every node it reaches sends the same packet on, unchanged.
\<close>

theorem hop255_never_ends:
  assumes "raw_header raw 255 ips pt pr"
  shows "HandleQUICPacket raw = Inr [SendTo (be32 (ips ! 0)) raw]
    \<and> tunnel_walk n raw = Inl (GoError ''still travelling'')"
proof -
  have "AdvanceRawHop raw = raw" using raw_header_pos [OF assms] by (simp add: AdvanceRawHop_def MaxHops_def)
  then have h: "HandleQUICPacket raw = Inr [SendTo (be32 (ips ! 0)) raw]"
    using assms raw_header_len [OF assms] raw_header_pos [OF assms]
    by (auto simp: raw_header_def HandleQUICPacket_def Let_def MaxHops_def forward_def hop_at_def go_index_def)
  have "tunnel_walk n raw = Inl (GoError ''still travelling'')" by (induction n) (simp_all add: h)
  with h show ?thesis ..
qed

theorem hop255_never_ends_witness: "HandleQUICPacket (255 # replicate 23 0) = Inr [SendTo [0, 0, 0, 0] (255 # replicate 23 0)]"
proof -
  have "raw_header (255 # replicate 23 0) 255 [0, 0, 0, 0] 0 0"
    by (auto simp: raw_header_def ParseHeader_ok HeaderSize_def read_header_def of_be32_def of_be16_def numeral_eq_Suc)
  from hop255_never_ends [OF this] show ?thesis by (simp add: be32_def)
qed

end
