(* ===== verification/Tunnel_Link.thy ===== *)
theory Tunnel_Link
  imports Tunnel_Handler
begin

text \<open>
  \<^verbatim>\<open>src/data-proxy/tunnel-manager\<close>: the QUIC connections between the nodes. A connection is a value of an arbitrary type; dialling,
  opening a stream and writing to it are arguments. On the receiving side the bytes of one stream become one packet
  for the handler. Accepting connections and the certificate are not modelled.
\<close>

section \<open>Definitions\<close>

record 'c TunnelManager =
  tm_tunnels :: "(string, 'c) gomap"

definition NewTunnelManager :: "'c TunnelManager" where
  "NewTunnelManager = \<lparr>tm_tunnels = []\<rparr>"

text \<open>\<^verbatim>\<open>net.JoinHostPort\<close>.\<close>

definition JoinHostPort :: "string \<Rightarrow> string \<Rightarrow> string" where
  "JoinHostPort host prt = (if contains_char host (CHR '':'') then ''['' @ host @ '']:'' @ prt else host @ '':'' @ prt)"

definition QUIC_PORT :: string where "QUIC_PORT = ''4433''"

definition tunnel_addr :: "net_ip \<Rightarrow> string" where
  "tunnel_addr remoteIP = JoinHostPort (ip_string remoteIP) QUIC_PORT"

definition GetOrCreateTunnel :: "(string \<Rightarrow> string + 'c) \<Rightarrow> net_ip \<Rightarrow> 'c TunnelManager \<Rightarrow> (string + 'c) \<times> 'c TunnelManager" where
  "GetOrCreateTunnel dial remoteIP m =
     (let addr = tunnel_addr remoteIP in
      case gm_get (tm_tunnels m) addr of
        Some conn \<Rightarrow> (Inr conn, m)
      | None \<Rightarrow>
          (case dial addr of
             Inl err \<Rightarrow> (Inl err, m)
           | Inr conn \<Rightarrow> (Inr conn, m\<lparr>tm_tunnels := gm_set (tm_tunnels m) addr conn\<rparr>)))"

definition CloseTunnel :: "net_ip \<Rightarrow> 'c TunnelManager \<Rightarrow> 'c TunnelManager" where
  "CloseTunnel remoteIP m = m\<lparr>tm_tunnels := gm_del (tm_tunnels m) (tunnel_addr remoteIP)\<rparr>"

definition SendPacket ::
  "(string \<Rightarrow> string + 'c) \<Rightarrow> ('c \<Rightarrow> string option) \<Rightarrow> ('c \<Rightarrow> byte list \<Rightarrow> string option) \<Rightarrow> net_ip \<Rightarrow> byte list
     \<Rightarrow> 'c TunnelManager \<Rightarrow> string option \<times> 'c TunnelManager" where
  "SendPacket dial open_stream write_stream remoteIP dat m =
     (if remoteIP = [] then (Some ''remote ip is nil'', m)
      else case GetOrCreateTunnel dial remoteIP m of
        (Inl err, m) \<Rightarrow> (Some err, m)
      | (Inr conn, m) \<Rightarrow>
          (case open_stream conn of
             Some err \<Rightarrow> (Some err, CloseTunnel remoteIP m)
           | None \<Rightarrow>
               (case write_stream conn dat of
                  Some err \<Rightarrow> (Some err, CloseTunnel remoteIP m)
                | None \<Rightarrow> (None, m))))"

definition stream_limit :: "int \<Rightarrow> int" where
  "stream_limit configured = (if configured \<le> 0 then 100 else configured)"

text \<open>
  The bytes of a stream, from its start to the end of the stream, as the packet given to the handler. Too few bytes for the
  header are an error, as is a missing payload; a payload that is cut off leaves zeros in the buffer.
\<close>

definition read_stream :: "byte list \<Rightarrow> byte list option" where
  "read_stream stream =
     (if length stream < HeaderSize then None
      else let headerBuf = take HeaderSize stream;
               payloadLen = unat (of_be16 (take 2 (drop 17 headerBuf)));
               body = take payloadLen (drop HeaderSize stream)
           in if payloadLen > 0 \<and> body = [] then None
              else Some (headerBuf @ body @ replicate (payloadLen - length body) 0))"

definition handle_stream :: "byte list \<Rightarrow> action list result" where
  "handle_stream stream = (case read_stream stream of None \<Rightarrow> Inr [] | Some buf \<Rightarrow> HandleQUICPacket buf)"

section \<open>Lemmas\<close>

lemma read_stream_exact:
  assumes "HeaderSize \<le> length buf" "unat (of_be16 (take 2 (drop 17 buf))) = length buf - HeaderSize"
  shows "read_stream buf = Some buf"
proof -
  have "take 2 (drop 17 (take HeaderSize buf)) = take 2 (drop 17 buf)" by (simp add: HeaderSize_def drop_take)
  then show ?thesis using assms by (auto simp: read_stream_def Let_def)
qed

text \<open>A serialised packet arrives as it was sent, whatever follows it on the stream is not read.\<close>

lemma stream_roundtrip:
  assumes "packet_rep p subs" "Wp p < HeaderSize + 65536" "SerializeHead p = Inr q"
  shows "read_stream (take (Wp q) (Buf q) @ rest) = Some (take (Wp q) (Buf q))" "read_stream (take (Wp q) (Buf q)) = Some (take (Wp q) (Buf q))"
proof -
  have inv: "length (Buf p) = BuffSize p" "HeaderSize \<le> Wp p" "Wp p \<le> BuffSize p" "length (HopIP p) = MaxHops" "PayloadLen p = of_nat (Wp p - HeaderSize)"
    using assms(1) by (simp_all add: packet_rep_def packet_inv_def)
  have q: "q = p\<lparr>Buf := header_bytes p @ drop 22 (Buf p)\<rparr>" using SerializeHead_bytes [of p] inv assms(3) by simp
  define buf where "buf = take (Wp q) (Buf q)"
  have len: "length buf = Wp p" using inv by (simp add: buf_def q HeaderSize_def)
  have "buf = header_bytes p @ take (Wp p - 22) (drop 22 (Buf p))" using inv(2) by (simp add: buf_def q HeaderSize_def)
  then have "PayloadLen (read_header buf p) = PayloadLen p" using read_header_bytes [OF inv(4)] by simp
  then have "of_be16 (take 2 (drop 17 buf)) = (of_nat (Wp p - HeaderSize) :: u16)" by (simp add: read_header_def inv(5))
  then have pl: "unat (of_be16 (take 2 (drop 17 buf))) = length buf - HeaderSize" using assms(2) by (simp add: len unat_of_nat)
  show "read_stream (take (Wp q) (Buf q)) = Some (take (Wp q) (Buf q))"
    unfolding buf_def [symmetric] by (rule read_stream_exact [OF _ pl]) (simp add: len inv(2))
  have "take 2 (drop 17 (take HeaderSize (buf @ rest))) = take 2 (drop 17 buf)" using inv(2) by (simp add: HeaderSize_def drop_take len take_append)
  then show "read_stream (take (Wp q) (Buf q) @ rest) = Some (take (Wp q) (Buf q))"
    unfolding buf_def [symmetric] using pl inv(2) len by (auto simp: read_stream_def Let_def)
qed

text \<open>An error of a stream removes the connection, so the next packet dials again.\<close>

lemma failed_send_redials:
  assumes "SendPacket dial open_stream write_stream ip dat m = (Some err, m')" "ip \<noteq> []" "gm_get (tm_tunnels m) (tunnel_addr ip) \<noteq> None"
  shows "gm_get (tm_tunnels m') (tunnel_addr ip) = None"
  using assms by (auto simp: SendPacket_def GetOrCreateTunnel_def CloseTunnel_def delete_conv' Let_def split: option.splits if_splits)

end
