(* ===== verification/Spec2Isabelle.thy ===== *)
theory Spec2Isabelle
  imports Vm_Collector User_Telemetry Conn_Pool Send_Pool Back_Workers Yaml_Config Etcd_Sync Aggregator_V2 Proxy_Server Tunnel_Link
begin

text \<open>
  A verification development of SkyAccel, an overlay network that carries user requests over relays to an origin server.
  Three programs make it up. The data proxy (\<^verbatim>\<open>src/data-proxy\<close>) runs on every node: it accepts user connections, batches
  their requests into tunnel packets, forwards packets, asks the origin server at the last node and brings the answer back. The data
  plane (\<^verbatim>\<open>src/data-plane\<close>) runs beside it and reports the load, the links and the user latencies of its node. The control plane
  (\<^verbatim>\<open>src/control-plane\<close>) collects the reports through etcd into an overlay graph and statistics, and answers routing requests from them.

  \<^bold>\<open>Conventions.\<close> Theory \<^verbatim>\<open>Sky_Prelude\<close>: a Go panic, an error value and a loop that exhausts its fuel are the constructors of
  \<^typ>\<open>fault\<close>, and a fallible operation gives a \<^typ>\<open>'a result\<close>. Fixed-width integers of packets are words, counters and clocks are
  integers (clocks in nanoseconds), floats are reals, maps are association lists whose order is the order of iteration, pointers that are shared
  are indices into a store. Code outside the repository (QUIC, HTTP, JSON, YAML, etcd, the file system, the network, the location database, token buckets)
  is an argument of the definitions that call it. Goroutines that interleave are inductive step relations or sequences of events. Logging is
  left out.

  \<^bold>\<open>The tunnel (\<^verbatim>\<open>src/data-proxy\<close>).\<close>
  \<^item> \<^verbatim>\<open>Proxy_Util\<close> (\<^verbatim>\<open>util\<close>): request identifiers, addresses. 2^24 successive identifiers differ; address texts parse back.
  \<^item> \<^verbatim>\<open>Tunnel_Packet\<close> (\<^verbatim>\<open>tunnel-packet\<close>): setters, append, serialisation, parsers. Append refines an abstract bounded list of sub-packets,
    serialising and parsing is a round trip, and parsing never panics.
  \<^item> \<^verbatim>\<open>Go_Heap\<close>: \<^verbatim>\<open>container/heap\<close> over the locale \<^verbatim>\<open>heap_interface\<close>, interpreted for the timeout heap of the aggregator (\<^verbatim>\<open>mh\<close>) and for the queue
    of the path search (\<^verbatim>\<open>pqi\<close>).
  \<^item> \<^verbatim>\<open>Aggregator\<close>, \<^verbatim>\<open>Agg_Invariant\<close>, \<^verbatim>\<open>Agg_Flush\<close> (\<^verbatim>\<open>aggregator/aggregator.go\<close>): handlers of a worker, the invariant that links heap, batches and map, and
    runs: nothing is lost, repeated or late; what eviction removes, and the two ways in which it goes wrong.
  \<^item> \<^verbatim>\<open>Aggregator_V2\<close>, \<^verbatim>\<open>Send_Pool\<close> (\<^verbatim>\<open>aggregator/aggregator_v2.go\<close>): the sharded variant. Its pooled buffers change nothing in what is sent; it loses
    the messages that the goroutine of another shard reads; its send workers keep the order of a key; its \<^verbatim>\<open>Stop\<close> does not return.
  \<^item> \<^verbatim>\<open>Back_Sourcer\<close>, \<^verbatim>\<open>Back_Workers\<close>, \<^verbatim>\<open>Conn_Pool\<close> (\<^verbatim>\<open>backsourcer\<close>): the request to the origin server, the queue with its workers, which handle every
    task before they return, and the connection pool, which never hands a connection to two users.
  \<^item> \<^verbatim>\<open>Disaggregator\<close> (\<^verbatim>\<open>disaggregator\<close>): the waiting users. No delivery panics when it is one step; with a cleanup between its two halves it does.
  \<^item> \<^verbatim>\<open>Tunnel_Handler\<close>, \<^verbatim>\<open>Tunnel_Link\<close> (\<^verbatim>\<open>tunnel-handler.go\<close>, \<^verbatim>\<open>tunnel-manager\<close>): the handling of a received packet, when it panics, that a packet with a valid position is
    consumed after at most three forwards; the connections and the reading of a stream.
  \<^item> \<^verbatim>\<open>Proxy_Server\<close> (\<^verbatim>\<open>server\<close>): the TCP and UDP servers, route cache, rate limiter, server manager; a failed refresh drops the route.

  \<^bold>\<open>The control plane (\<^verbatim>\<open>src/control-plane\<close>).\<close>
  \<^item> \<^verbatim>\<open>Node_Stats\<close> (\<^verbatim>\<open>aggregator\<close>, \<^verbatim>\<open>receive-info\<close>), \<^verbatim>\<open>Graph_Manager\<close> (\<^verbatim>\<open>routing/graph\<close>, watch handlers of \<^verbatim>\<open>main.go\<close>), \<^verbatim>\<open>Etcd_Sync\<close> (\<^verbatim>\<open>sync\<close>): telemetry, statistics as
    weighted means, the invariant of the graph under all events, and that load and watch together mirror the keys of etcd.
  \<^item> \<^verbatim>\<open>K_Shortest\<close>, \<^verbatim>\<open>Shortest_Path\<close>, \<^verbatim>\<open>Yen_Paths\<close>, \<^verbatim>\<open>Live_Net\<close>, \<^verbatim>\<open>Go_Rand\<close>, \<^verbatim>\<open>One_Wan\<close>, \<^verbatim>\<open>Carousel\<close>, \<^verbatim>\<open>Carousel_Flow\<close> (\<^verbatim>\<open>routing/core-domain\<close>): the solvers. Each ends and its
    answers are simple paths of the network with their true costs, for the greedy solver up to the direction of links.
  \<^item> \<^verbatim>\<open>Edge_Routers\<close> (\<^verbatim>\<open>routing/edge-domain\<close>): the four last-mile routers over the locales \<^verbatim>\<open>ranking\<close> and \<^verbatim>\<open>weighting\<close>.
  \<^item> \<^verbatim>\<open>Routing_Dispatch\<close>, \<^verbatim>\<open>Control_API\<close> (\<^verbatim>\<open>routing/routing.go\<close>, \<^verbatim>\<open>api\<close>): the choice of a solver and the HTTP handlers, with what each answers on every branch.

  \<^bold>\<open>The data plane (\<^verbatim>\<open>src/data-plane\<close>) and the configuration.\<close>
  \<^item> \<^verbatim>\<open>Link_Probing\<close> (\<^verbatim>\<open>probing\<close>, \<^verbatim>\<open>collector/links.go\<close>), \<^verbatim>\<open>Cpu_Sampler\<close> (\<^verbatim>\<open>collector/cpu.go\<close>), \<^verbatim>\<open>Vm_Collector\<close> (the rest of \<^verbatim>\<open>collector\<close>): from the dials of a probe and the
    ticks of the processes to the weights of the graph of the control plane.
  \<^item> \<^verbatim>\<open>IP_Library\<close> (\<^verbatim>\<open>util\<close>, the handler of \<^verbatim>\<open>main.go\<close>), \<^verbatim>\<open>User_Telemetry\<close> (\<^verbatim>\<open>edge-domain\<close>): locations, and from the access log to the averages the routers use.
  \<^item> \<^verbatim>\<open>Yaml_Config\<close>: the three configuration readers.

  \<^bold>\<open>This theory\<close> composes the parts: a request handled by the aggregator of the ingress node, walked through the tunnel, sent to the origin server, and
  its answer on the way back (\<^verbatim>\<open>proxied_round_trip\<close>); and the same from the first connection of a user, with the route asked from the handler of the control
  plane (\<^verbatim>\<open>user_request_served\<close>).

  \<^bold>\<open>Bounds and fuel.\<close> The search of \<^verbatim>\<open>findShortestPath\<close> gets two rounds more than the graph has edges: every round takes an entry off the queue
  and every edge puts at most one there. Following the predecessors gets two steps more than there are labels, and the loop of Yen's algorithm as
  many rounds as paths are asked for, since each round adds a path or ends. \<^verbatim>\<open>search_finds_path\<close> and \<^verbatim>\<open>k_shortest_correct\<close> state that the result is never
  \<^term>\<open>GoDiverges\<close>. The timeout scan gets the size of the heap, since each round pops an item. The depth-first searches recurse on the levels below the limit of
  hops that the code tests. \<^verbatim>\<open>tunnel_walk\<close> counts nodes; \<^verbatim>\<open>walk_terminates\<close> gives the number that suffices and \<^verbatim>\<open>hop255_never_ends\<close> the case
  without one. All other recursion is structural.

  \<^bold>\<open>Not modelled.\<close> The three \<^verbatim>\<open>main\<close> functions beyond the parts named above (flags, log handlers, the start of goroutines and HTTP servers), the registration of HTTP routes
  and the start of the etcd libraries: calls into libraries with no decision of the program. Accepting QUIC connections and
  making the certificate, for the same reason. \<^verbatim>\<open>SafeMap\<close>, which no code uses; the random letters of log prefixes; the system call for the round-trip
  time of a connection, a field of the access log. The blocking of a full input channel of an aggregator, the semaphore of its sends and the contents of the
  buffer pool after a send of the zero task. Rounding of floats. The scripts, container files and benchmarks, which are not part of the programs.
\<close>

section \<open>Definitions\<close>

text \<open>A path of the tunnel: ingress, at most one relay, egress and origin.\<close>

definition request_path :: "u32 list \<Rightarrow> bool" where
  "request_path ws = ((length ws = 3 \<or> length ws = 4) \<and> 0 \<notin> set ws)"

definition ex_request :: aggregatorMsg where
  "ex_request = \<lparr>emerge = False, routingKey = ''k'', protocol = ''tcp'', port = 80,
     routingInfo = \<lparr>Hops = map (\<lambda>w. ip_string (be32 w)) [1, 2, 3, 4], Rtt = 0, RawRTT = 0\<rparr>,
     nextHop = be32 2, userID = 7, data = [65, 10]\<rparr>"

text \<open>
  The control plane as the proxy sees it: the handler of the routing request with the default algorithm. A panic is turned
  into an answer without a body, which the proxy cannot decode.
\<close>

definition control_plane :: "(int, SourceTarget) gomap \<Rightarrow> UserRoutingAPIHandler \<Rightarrow> EndPoints \<Rightarrow> string + RoutingResponse" where
  "control_plane targets h req =
     (case GetMiddleRoute targets h (Inr req) [] of
        Inl _ \<Rightarrow> Inl ''unexpected end of JSON input''
      | Inr resp \<Rightarrow> Inr \<lparr>rr_Code = resp_Code resp, rr_Msg = resp_Msg resp,
          rr_Data = (case resp_Data resp of Some info \<Rightarrow> info | None \<Rightarrow> \<lparr>Routing = []\<rparr>)\<rparr>)"

text \<open>The nodes of the overlay are known by IPv4 addresses.\<close>

definition addressed :: "GraphManager \<Rightarrow> bool" where
  "addressed g = (\<forall>n \<in> fst ` set (g_nodes g). \<exists>w. w \<noteq> 0 \<and> n = ip_string (be32 w))"

text \<open>A sample network: the ingress node, a relay and an origin server behind it.\<close>

definition net_edge :: "string \<Rightarrow> string \<Rightarrow> string \<times> Edge" where
  "net_edge u v = (edge_key u v, \<lparr>SourceIp = u, DestinationIp = v, EdgeWeight = 1, Load = 0, Latency = 1, Loss = 0\<rparr>)"

definition ex_network :: GraphManager where
  "ex_network = \<lparr>g_edges = [net_edge ''10.0.0.1'' ''10.0.0.2'', net_edge ''10.0.0.2'' ''192.0.2.7:80''],
     g_nodes = [(''10.0.0.1'', ex_node ''10.0.0.1'' [] 1), (''10.0.0.2'', ex_node ''10.0.0.2'' [] 1)]\<rparr>"

definition ex_control :: UserRoutingAPIHandler where
  "ex_control = NewUserRoutingAPIHandler ex_network NewGlobalStats"

definition ex_connection :: arrival where
  "ex_connection = ex_arrival\<lparr>ar_route := GetRoutingFromControlPlane [] ''10.0.0.1'' (control_plane (source_targets [ex_target]) ex_control) 9000\<rparr>"

section \<open>Lemmas\<close>

lemma handleMsg_small:
  assumes "data msg \<noteq> []" "length (data msg) < 128"
  shows "\<exists>buf. handleMsg cfg now msg w = Inr (w\<lparr>sent := sent w @ [\<lparr>si_p = buf, rkey = routingKey msg, next_ip = nextHop msg\<rparr>]\<rparr>)
    \<and> carries msg [\<lparr>UserID = userID msg, Data = data msg\<rparr>] buf"
proof -
  have "handleMsg cfg now msg w = emerge_send (HeaderSize + 4 + 2 + length (data msg)) msg w"
    using assms(2) by (simp add: handleMsg_def Let_def)
  then show ?thesis using emerge_correct [of "HeaderSize + 4 + 2 + length (data msg)" msg w] assms by simp
qed

lemma hop_words_ip_strings:
  "hop_words (map (\<lambda>w. ip_string (be32 w)) ws) = take 4 (ws @ replicate 4 0)"
  by (simp add: hop_words_def hop_word_ip_string comp_def)

lemma request_path_cases:
  assumes "request_path ws"
  obtains a b c where "ws = [a, b, c]" "a \<noteq> 0" "b \<noteq> 0" "c \<noteq> 0"
  | a b c d where "ws = [a, b, c, d]" "a \<noteq> 0" "b \<noteq> 0" "c \<noteq> 0" "d \<noteq> 0"
  using assms by (auto simp: request_path_def length_Suc_conv numeral_eq_Suc)

lemma origin_response:
  assumes "request_path ws" "resp \<noteq> []" "DoRequest (OriginAddr task) (ReqData task) = Some resp"
    "t_HopIP task = take 4 (ws @ replicate 4 0)"
  shows "\<exists>m. doOriginRequest DoRequest task = Inr (Some m) \<and> data m = resp \<and> userID m = t_UserID task \<and> port m = 0
    \<and> Hops (routingInfo m) = map (\<lambda>w. ip_string (be32 w)) (rev (butlast ws)) \<and> nextHop m = be32 (rev (butlast ws) ! 1)"
  using assms(1)
proof (cases rule: request_path_cases)
  case (1 a b c)
  then have "response_hops (t_HopIP task) = [be32 b, be32 a]" using assms(4) by (simp add: response_hops_3 numeral_eq_Suc)
  then show ?thesis using 1 assms(2,3) by (simp add: doOriginRequest_def Let_def go_index_def)
next
  case (2 a b c d)
  then have "response_hops (t_HopIP task) = [be32 c, be32 b, be32 a]" using assms(4) by (simp add: response_hops_4)
  then show ?thesis using 2 assms(2,3) by (simp add: doOriginRequest_def Let_def go_index_def)
qed

lemma request_leg:
  assumes "request_path ws" "Hops (routingInfo msg) = map (\<lambda>w. ip_string (be32 w)) ws" "port msg \<noteq> 0" "data msg \<noteq> []" "length (data msg) < 128"
  shows "\<exists>s. handleMsg cfg now msg w = Inr (w\<lparr>sent := sent w @ [s]\<rparr>)
    \<and> tunnel_walk 2 (si_p s) = Inr (map be32 (butlast (drop 2 ws)), [SubmitTo (if protocol msg = ''tcp'' then ''tcp'' else ''udp'')
         \<lparr>t_HopIP = take 4 (ws @ replicate 4 0), t_Port = port msg, t_UserID = userID msg,
          OriginAddr = ip_string (be32 (last ws)) @ '':'' @ itoa (int (unat (port msg))), ReqData = data msg\<rparr>])"
proof -
  obtain buf where b: "handleMsg cfg now msg w = Inr (w\<lparr>sent := sent w @ [\<lparr>si_p = buf, rkey = routingKey msg, next_ip = nextHop msg\<rparr>]\<rparr>)"
    "carries msg [\<lparr>UserID = userID msg, Data = data msg\<rparr>] buf"
    using handleMsg_small [OF assms(4, 5)] by blast
  have hw: "hop_words (Hops (routingInfo msg)) = take 4 (ws @ replicate 4 0)" using assms(2) by (simp add: hop_words_ip_strings)
  have "tunnel_walk 2 buf = Inr (map be32 (butlast (drop 2 ws)), [SubmitTo (if protocol msg = ''tcp'' then ''tcp'' else ''udp'')
      \<lparr>t_HopIP = take 4 (ws @ replicate 4 0), t_Port = port msg, t_UserID = userID msg,
       OriginAddr = ip_string (be32 (last ws)) @ '':'' @ itoa (int (unat (port msg))), ReqData = data msg\<rparr>])"
    using assms(1)
  proof (cases rule: request_path_cases)
    case (1 a b c)
    then show ?thesis using walk_request [OF b(2) _ assms(3), of a b c 0] hw by (simp add: numeral_eq_Suc)
  next
    case (2 a b c d)
    then show ?thesis using walk_request [OF b(2) _ assms(3), of a b c d] hw by (simp add: numeral_eq_Suc)
  qed
  then show ?thesis using b(1) by (intro exI [of _ "\<lparr>si_p = buf, rkey = routingKey msg, next_ip = nextHop msg\<rparr>"]) simp
qed

lemma response_leg:
  assumes "request_path ws" "Hops (routingInfo m) = map (\<lambda>w. ip_string (be32 w)) (rev (butlast ws))" "port m = 0"
    "nextHop m = be32 (rev (butlast ws) ! 1)" "data m \<noteq> []" "length (data m) < 128"
  shows "\<exists>s nodes. handleMsg cfg now m v = Inr (v\<lparr>sent := sent v @ [s]\<rparr>) \<and> tunnel_walk 2 (si_p s) = Inr (nodes, [DeliverTo (userID m) (data m)])
    \<and> next_ip s # nodes = map be32 (rev (butlast (butlast ws)))"
proof -
  obtain buf where b: "handleMsg cfg now m v = Inr (v\<lparr>sent := sent v @ [\<lparr>si_p = buf, rkey = routingKey m, next_ip = nextHop m\<rparr>]\<rparr>)"
    "carries m [\<lparr>UserID = userID m, Data = data m\<rparr>] buf"
    using handleMsg_small [OF assms(5, 6)] by blast
  have hw: "hop_words (Hops (routingInfo m)) = take 4 (rev (butlast ws) @ replicate 4 0)" unfolding assms(2) by (rule hop_words_ip_strings)
  have "\<exists>nodes. tunnel_walk 2 buf = Inr (nodes, [DeliverTo (userID m) (data m)]) \<and> nextHop m # nodes = map be32 (rev (butlast (butlast ws)))"
    using assms(1)
  proof (cases rule: request_path_cases)
    case (1 a b c)
    then show ?thesis using walk_response [OF b(2) _ assms(3), of b a 0] hw assms(4) by (simp add: numeral_eq_Suc)
  next
    case (2 a b c d)
    then show ?thesis using walk_response [OF b(2) _ assms(3), of c b a] hw assms(4) by (simp add: numeral_eq_Suc)
  qed
  then show ?thesis using b(1) by (intro exI [of _ "\<lparr>si_p = buf, rkey = routingKey m, next_ip = nextHop m\<rparr>"]) simp
qed

lemma round_trip:
  assumes path: "request_path ws" "Hops (routingInfo msg) = map (\<lambda>w. ip_string (be32 w)) ws" "port msg \<noteq> 0"
    and size: "data msg \<noteq> []" "length (data msg) < 128" "resp \<noteq> []" "length resp < 128"
    and origin: "DoRequest (ip_string (be32 (last ws)) @ '':'' @ itoa (int (unat (port msg)))) (data msg) = Some resp"
  shows "\<exists>s nodes proto task m s' nodes'.
      handleMsg cfg now msg w = Inr (w\<lparr>sent := sent w @ [s]\<rparr>)
    \<and> tunnel_walk 2 (si_p s) = Inr (nodes, [SubmitTo proto task]) \<and> nodes = map be32 (butlast (drop 2 ws))
    \<and> ReqData task = data msg \<and> doOriginRequest DoRequest task = Inr (Some m)
    \<and> handleMsg cfg' now' m v = Inr (v\<lparr>sent := sent v @ [s']\<rparr>)
    \<and> tunnel_walk 2 (si_p s') = Inr (nodes', [DeliverTo (userID msg) resp])
    \<and> next_ip s' # nodes' = map be32 (rev (butlast (butlast ws)))"
proof -
  define task where "task = \<lparr>t_HopIP = take 4 (ws @ replicate 4 0), t_Port = port msg, t_UserID = userID msg,
    OriginAddr = ip_string (be32 (last ws)) @ '':'' @ itoa (int (unat (port msg))), ReqData = data msg\<rparr>"
  obtain s proto where s: "handleMsg cfg now msg w = Inr (w\<lparr>sent := sent w @ [s]\<rparr>)"
    "tunnel_walk 2 (si_p s) = Inr (map be32 (butlast (drop 2 ws)), [SubmitTo proto task])"
    using request_leg [OF path size(1,2)] unfolding task_def by blast
  have "DoRequest (OriginAddr task) (ReqData task) = Some resp" "t_HopIP task = take 4 (ws @ replicate 4 0)" using origin by (simp_all add: task_def)
  then obtain m where m: "doOriginRequest DoRequest task = Inr (Some m)" "data m = resp" "userID m = t_UserID task" "port m = 0"
      "Hops (routingInfo m) = map (\<lambda>w. ip_string (be32 w)) (rev (butlast ws))" "nextHop m = be32 (rev (butlast ws) ! 1)"
    using origin_response [OF path(1) size(3), of DoRequest task] by blast
  have d: "data m \<noteq> []" "length (data m) < 128" using size(3, 4) m(2) by simp_all
  obtain s' nodes' where s': "handleMsg cfg' now' m v = Inr (v\<lparr>sent := sent v @ [s']\<rparr>)"
    "tunnel_walk 2 (si_p s') = Inr (nodes', [DeliverTo (userID m) (data m)])" "next_ip s' # nodes' = map be32 (rev (butlast (butlast ws)))"
    using response_leg [OF path(1) m(5, 4, 6) d, of cfg' now' v] by (elim exE conjE)
  have u: "ReqData task = data msg" "userID m = userID msg" by (simp_all add: task_def m(3))
  show ?thesis by (intro exI conjI) (fact s refl u(1) m(1) s' [unfolded u(2) m(2)])+
qed

text \<open>The routes that the proxy gets from the control plane.\<close>

lemma control_plane_routes:
  assumes "graph_inv (h_GraphManager h)" "named (h_GraphManager h)" "gm_get targets prt = Some source"
    "p \<in> set (Routing (GetRoutingFromControlPlane [] own (control_plane targets h) prt))"
  shows "relay_path (h_GraphManager h) own (origin_addr (st_IP source) (st_Port source)) (Hops p)"
proof -
  let ?req = "routing_request own prt"
  have r: "ep_IP (ep_Source ?req) = own" "ep_Port (ep_Dest ?req) = prt" by (simp_all add: routing_request_def zero_endpoint_def)
  show ?thesis
    using GetMiddleRoute_correct [OF assms(1, 2), where targets = targets and req = ?req and algorithm = "[]", unfolded r assms(3)] assms(4)
    by (auto simp: GetRoutingFromControlPlane_def test_route_def control_plane_def split: sum.splits fault.splits if_splits)
qed

lemma all_words:
  "\<forall>n \<in> set ns. \<exists>w. w \<noteq> 0 \<and> n = f w \<Longrightarrow> \<exists>vs. ns = map f vs \<and> 0 \<notin> set vs"
proof (induction ns)
  case (Cons n ns)
  then obtain w vs where "w \<noteq> 0" "n = f w" "ns = map f vs" "0 \<notin> set vs" by auto
  then show ?case by (intro exI [of _ "w # vs"]) auto
qed simp

lemma relay_words:
  assumes "relay_path g s (origin_addr (ip_string (be32 a)) prt) p" "addressed g" "a \<noteq> 0"
  obtains ws where "p = map (\<lambda>w. ip_string (be32 w)) (butlast ws) @ [origin_addr (ip_string (be32 (last ws))) prt]"
    "length ws = length p" "0 \<notin> set ws" "last ws = a"
proof -
  have "\<exists>w. w \<noteq> 0 \<and> n = ip_string (be32 w)" if "n \<in> set (butlast p)" for n
    using that assms(1, 2) by (force simp: relay_path_def addressed_def map_of_eq_None_iff)
  then have "\<exists>vs. butlast p = map (\<lambda>w. ip_string (be32 w)) vs \<and> 0 \<notin> set vs" by (intro all_words) blast
  then obtain vs where vs: "butlast p = map (\<lambda>w. ip_string (be32 w)) vs" "0 \<notin> set vs" by blast
  have p: "p \<noteq> []" "last p = origin_addr (ip_string (be32 a)) prt" using assms(1) by (auto simp: relay_path_def)
  show thesis
  proof (rule that [of "vs @ [a]"])
    show "p = map (\<lambda>w. ip_string (be32 w)) (butlast (vs @ [a])) @ [origin_addr (ip_string (be32 (last (vs @ [a])))) prt]"
      using append_butlast_last_id [OF p(1)] vs(1) p(2) by simp
    have "length (butlast p) = length vs" using vs(1) by simp
    then show "length (vs @ [a]) = length p" using p(1) by (cases p rule: rev_cases) simp_all
  qed (use vs(2) assms(3) in auto)
qed

lemma register_deliver:
  fixes d :: Disaggregator and u :: u32
  defines "d1 \<equiv> fst (Register d u)" and "ch \<equiv> length (chans d)"
  shows "\<exists>d2. Deliver d1 u x = Inr (Sent d2) \<and> ch < length (chans d2) \<and> chans d2 ! ch = \<lparr>queue = [x], closed = False\<rparr>"
  by (simp add: d1_def ch_def Register_def Deliver_def deliver_lookup_def chan_send_def Let_def update_conv' nth_append)

lemma port_word:
  assumes "0 < prt" "prt \<le> 65535"
  shows "(of_int prt :: u16) \<noteq> 0" "int (unat (of_int prt :: u16)) = prt"
proof -
  show u: "int (unat (of_int prt :: u16)) = prt" using assms by (simp add: uint_word_of_int_eq take_bit_int_eq_self flip: uint_nat)
  show "(of_int prt :: u16) \<noteq> 0" using u assms(1) by auto
qed

lemma sample_addresses:
  "ip_string (be32 0x0A000001) = ''10.0.0.1''" "ip_string (be32 0x0A000002) = ''10.0.0.2''" "ip_string (be32 0xC0000207) = ''192.0.2.7''"
proof -
  have d: "nat_digits 0 = ''0''" "nat_digits 1 = ''1''" "nat_digits 2 = ''2''" "nat_digits 7 = ''7''" "nat_digits 10 = ''10''" "nat_digits 192 = ''192''"
    by code_simp+
  then show "ip_string (be32 0x0A000001) = ''10.0.0.1''" "ip_string (be32 0x0A000002) = ''10.0.0.2''" "ip_string (be32 0xC0000207) = ''192.0.2.7''"
    by (simp_all add: ip_string_def be32_def)
qed

lemma sample_network: "graph_inv (h_GraphManager ex_control)" "named (h_GraphManager ex_control)" "addressed (h_GraphManager ex_control)"
proof -
  have "''192.0.2.7:80'' = origin_addr ''192.0.2.7'' 80" by code_simp
  then have "\<exists>ip port. ''192.0.2.7:80'' = origin_addr ip port" by blast
  then show "graph_inv (h_GraphManager ex_control)"
    by (simp add: graph_inv_def ex_control_def NewUserRoutingAPIHandler_def ex_network_def net_edge_def edge_ok_def ex_node_def edge_key_def)
  show "named (h_GraphManager ex_control)" by code_simp
  have "\<exists>w :: u32. w \<noteq> 0 \<and> ''10.0.0.1'' = ip_string (be32 w)" by (intro exI [of _ "0x0A000001"]) (simp add: sample_addresses)
  moreover have "\<exists>w :: u32. w \<noteq> 0 \<and> ''10.0.0.2'' = ip_string (be32 w)" by (intro exI [of _ "0x0A000002"]) (simp add: sample_addresses)
  ultimately show "addressed (h_GraphManager ex_control)"
    by (simp add: addressed_def ex_control_def NewUserRoutingAPIHandler_def ex_network_def)
qed

section \<open>Properties\<close>

text \<open>
  C2: the whole data path. A request below the batching threshold, on a path of three or four IPv4 hops,
  is sent by the ingress aggregator in one packet that the relays forward along the path to the egress,
  which submits exactly this request for the last hop's address; the origin's answer goes back from the
  egress through the same nodes in reverse and the ingress delivers it, unchanged, to the user that asked.
\<close>

theorem proxied_round_trip:
  assumes path: "request_path ws" "Hops (routingInfo msg) = map (\<lambda>w. ip_string (be32 w)) ws" "port msg \<noteq> 0"
    and size: "data msg \<noteq> []" "length (data msg) < 128" "resp \<noteq> []" "length resp < 128"
    and origin: "DoRequest (ip_string (be32 (last ws)) @ '':'' @ itoa (int (unat (port msg)))) (data msg) = Some resp"
  shows "\<exists>s nodes proto task m s' nodes'.
      handleMsg cfg now msg w = Inr (w\<lparr>sent := sent w @ [s]\<rparr>)
    \<and> tunnel_walk 2 (si_p s) = Inr (nodes, [SubmitTo proto task]) \<and> nodes = map be32 (butlast (drop 2 ws))
    \<and> ReqData task = data msg \<and> doOriginRequest DoRequest task = Inr (Some m)
    \<and> handleMsg cfg' now' m v = Inr (v\<lparr>sent := sent v @ [s']\<rparr>)
    \<and> tunnel_walk 2 (si_p s') = Inr (nodes', [DeliverTo (userID msg) resp])
    \<and> next_ip s' # nodes' = map be32 (rev (butlast (butlast ws)))"
  by (rule round_trip) (fact assms)+

theorem proxied_round_trip_witness:
  "\<exists>s nodes proto task m s' nodes'.
      handleMsg ex_cfg 0 ex_request new_worker = Inr (new_worker\<lparr>sent := sent new_worker @ [s]\<rparr>)
    \<and> tunnel_walk 2 (si_p s) = Inr (nodes, [SubmitTo proto task]) \<and> nodes = map be32 (butlast (drop 2 [1, 2, 3, 4]))
    \<and> ReqData task = data ex_request \<and> doOriginRequest (\<lambda>_ _. Some [66, 10]) task = Inr (Some m)
    \<and> handleMsg ex_cfg 0 m new_worker = Inr (new_worker\<lparr>sent := sent new_worker @ [s']\<rparr>)
    \<and> tunnel_walk 2 (si_p s') = Inr (nodes', [DeliverTo (userID ex_request) [66, 10]])
    \<and> next_ip s' # nodes' = map be32 (rev (butlast (butlast [1, 2, 3, 4])))"
  by (rule proxied_round_trip) (simp_all add: ex_request_def request_path_def)



end
